(* ===== verification/Prelude.thy ===== *)
theory Prelude
  imports Main "HOL-Library.Word"
begin

unbundle bit_operations_syntax

section \<open>Shared types, byte codecs and buffer lemmas\<close>

text \<open>
  What every component of the development uses: the fixed-width integer types of the C code, the
  result type of fallible operations, little-endian encoding of integers (the target is a
  little-endian 32-bit MCU and the code writes packed structures straight into byte buffers), and
  in-place writes into a byte buffer.  The collection \<open>layout_simps\<close> carries the facts on buffers
  and encodings that the packet proofs share.
\<close>

type_synonym u8 = "8 word"
type_synonym u16 = "16 word"
type_synonym u32 = "32 word"
type_synonym u64 = "64 word"
type_synonym bytes = "u8 list"

text \<open>
  A C function that returns a negative code on failure is modelled by a sum: \<open>Inl e\<close> is the return
  of the (negative) code \<open>e\<close>, \<open>Inr r\<close> the successful return with its results.
\<close>

type_synonym 'a res = "int + 'a"

abbreviation is_ok :: "'a res \<Rightarrow> bool" where
  "is_ok r \<equiv> \<not> isl r"

named_theorems layout_simps \<open>lengths and slices of buffers and encodings\<close>

subsection \<open>Little-endian integers\<close>

primrec le_bytes :: "nat \<Rightarrow> 'a::len word \<Rightarrow> bytes" where
  "le_bytes 0 w = []"
| "le_bytes (Suc n) w = ucast w # le_bytes n (drop_bit 8 w)"

primrec le_word :: "bytes \<Rightarrow> 'a::len word" where
  "le_word [] = 0"
| "le_word (b # bs) = ucast b OR push_bit 8 (le_word bs)"

lemma length_le_bytes [simp, layout_simps]: "length (le_bytes n w) = n"
  by (induction n arbitrary: w) simp_all

lemma bit_le_word_le_bytes:
  "bit (le_word (le_bytes n w) :: 'a::len word) i \<longleftrightarrow> bit (w :: 'a word) i \<and> i < 8 * n"
proof (induction n arbitrary: w i)
  case 0
  then show ?case by simp
next
  case (Suc n)
  show ?case
  proof (cases "i < 8")
    case True
    then show ?thesis
      by (auto simp: bit_simps dest: bit_imp_le_length)
  next
    case False
    then have "bit (le_word (le_bytes n (drop_bit 8 w)) :: 'a word) (i - 8)
      \<longleftrightarrow> bit w i \<and> i < 8 * Suc n"
      by (auto simp: Suc.IH bit_simps)
    with False show ?thesis
      by (auto simp: bit_simps dest: bit_imp_le_length)
  qed
qed

lemma le_word_le_bytes:
  "LENGTH('a::len) \<le> 8 * n \<Longrightarrow> le_word (le_bytes n (w :: 'a word)) = w"
  by (rule bit_word_eqI) (auto simp: bit_le_word_le_bytes)

lemma le_word_le_bytes_16 [simp, layout_simps]: "le_word (le_bytes 2 (w :: u16)) = w"
  and le_word_le_bytes_32 [simp, layout_simps]: "le_word (le_bytes 4 (v :: u32)) = v"
  and le_word_le_bytes_64 [simp, layout_simps]: "le_word (le_bytes 8 (u :: u64)) = u"
  by (simp_all add: le_word_le_bytes)

lemma le_bytes_inject:
  "LENGTH('a::len) \<le> 8 * n \<Longrightarrow> le_bytes n (v :: 'a word) = le_bytes n w \<longleftrightarrow> v = w"
  by (metis le_word_le_bytes)

subsection \<open>Writing into a buffer\<close>

text \<open>
  \<open>write_bytes buf off bs\<close> is the buffer after \<open>memcpy(buf + off, bs, len)\<close>; the callers keep
  \<open>off + length bs\<close> within the buffer, and the lemmas below carry that bound as a premise.
\<close>

definition write_bytes :: "bytes \<Rightarrow> nat \<Rightarrow> bytes \<Rightarrow> bytes" where
  "write_bytes buf off bs = take off buf @ bs @ drop (off + length bs) buf"

definition read_bytes :: "bytes \<Rightarrow> nat \<Rightarrow> nat \<Rightarrow> bytes" where
  "read_bytes buf off n = take n (drop off buf)"

lemma length_write_bytes [simp, layout_simps]:
  "off + length bs \<le> length buf \<Longrightarrow> length (write_bytes buf off bs) = length buf"
  by (simp add: write_bytes_def)

lemma write_bytes_append:
  "off + length bs + length cs \<le> length buf \<Longrightarrow>
     write_bytes (write_bytes buf off bs) (off + length bs) cs = write_bytes buf off (bs @ cs)"
  by (simp add: write_bytes_def ac_simps)

lemma take_write_bytes:
  "off + length bs \<le> length buf \<Longrightarrow>
     take (off + length bs) (write_bytes buf off bs) = take off buf @ bs"
  by (simp add: write_bytes_def)

lemma drop_write_bytes:
  "off + length bs \<le> length buf \<Longrightarrow> off + length bs \<le> n \<Longrightarrow>
     drop n (write_bytes buf off bs) = drop n buf"
  by (simp add: write_bytes_def)

lemma write_bytes_0_take:
  "length bs \<le> length buf \<Longrightarrow> take (length bs) (write_bytes buf 0 bs) = bs"
  by (simp add: write_bytes_def)

lemma read_bytes_append:
  "length a = off \<Longrightarrow> length b = n \<Longrightarrow> read_bytes (a @ b @ c) off n = b"
  by (simp add: read_bytes_def)

lemma length_read_bytes [simp, layout_simps]:
  "off + n \<le> length buf \<Longrightarrow> length (read_bytes buf off n) = n"
  by (simp add: read_bytes_def)

subsection \<open>Framed byte streams\<close>

text \<open>
  The interface between a packet encoder and the receiver of the byte stream it is written to: an
  encoder, a parser that recognises one frame at the start of a buffer and tells its length, and the
  law that the parser finds an encoded frame whatever bytes follow.  \<open>parse_stream\<close> applies the parser
  until it fails; it returns the frames and the bytes left over.
\<close>

function parse_stream :: "(bytes \<Rightarrow> ('a \<times> nat) option) \<Rightarrow> bytes \<Rightarrow> 'a list \<times> bytes" where
  "parse_stream p bs =
     (case p bs of
        None \<Rightarrow> ([], bs)
      | Some (x, n) \<Rightarrow>
          if n = 0 \<or> length bs < n then ([], bs)
          else (let r = parse_stream p (drop n bs) in (x # fst r, snd r)))"
  by pat_completeness auto

termination
  by (relation "measure (\<lambda>(p, bs). length bs)") auto

declare parse_stream.simps [simp del]

locale framing =
  fixes valid :: "'a \<Rightarrow> bool"
    and enc :: "'a \<Rightarrow> bytes"
    and parse :: "bytes \<Rightarrow> ('a \<times> nat) option"
  assumes parse_enc: "valid x \<Longrightarrow> parse (enc x @ rest) = Some (x, length (enc x))"
    and enc_nonempty: "valid x \<Longrightarrow> enc x \<noteq> []"
begin

lemma parse_stream_frames:
  assumes "\<forall>x \<in> set xs. valid x" "parse rest = None"
  shows "parse_stream parse (concat (map enc xs) @ rest) = (xs, rest)"
  using assms(1)
proof (induction xs)
  case Nil
  then show ?case
    using assms(2) by (simp add: parse_stream.simps)
next
  case (Cons x xs)
  then have "valid x"
    by simp
  from Cons parse_enc [OF this] enc_nonempty [OF this] show ?case
    by (subst parse_stream.simps) simp
qed

lemma enc_inj: "valid x \<Longrightarrow> valid y \<Longrightarrow> enc x = enc y \<Longrightarrow> x = y"
  using parse_enc [of x "[]"] parse_enc [of y "[]"] by simp

end

subsection \<open>Simulation\<close>

text \<open>
  The contract between an implementation's steps and the specification's: related states stay related,
  as long as the specification's invariant holds, which its own steps keep.  The client lemma carries
  the invariant to every state the implementation reaches.
\<close>

locale simulation =
  fixes conc_step :: "'s \<Rightarrow> 's \<Rightarrow> bool"
    and abs_step :: "'a \<Rightarrow> 'a \<Rightarrow> bool"
    and refines :: "'s \<Rightarrow> 'a \<Rightarrow> bool"
    and abs_inv :: "'a \<Rightarrow> bool"
  assumes simulate: "refines s a \<Longrightarrow> abs_inv a \<Longrightarrow> conc_step s s' \<Longrightarrow>
      \<exists>a'. (abs_step a a' \<or> a' = a) \<and> refines s' a'"
    and abs_step_inv: "abs_inv a \<Longrightarrow> abs_step a a' \<Longrightarrow> abs_inv a'"
begin

lemma reachable_refines:
  assumes "rtranclp conc_step s0 s" "refines s0 a0" "abs_inv a0"
  shows "\<exists>a. rtranclp abs_step a0 a \<and> refines s a \<and> abs_inv a"
  using assms(1)
proof (induction rule: rtranclp_induct)
  case base
  then show ?case
    using assms(2,3) by blast
next
  case (step s s')
  then obtain a where a: "rtranclp abs_step a0 a" "refines s a" "abs_inv a"
    by blast
  from simulate [OF a(2,3) step.hyps(2)] obtain a' where "abs_step a a' \<or> a' = a" "refines s' a'"
    by blast
  with a abs_step_inv [OF a(3)] show ?case
    by (metis rtranclp.rtrancl_into_rtrancl)
qed

end

subsection \<open>Words and numbers\<close>

lemma unat_inc_u32: "unat (w :: u32) < 2 ^ 32 - 1 \<Longrightarrow> unat (w + 1) = unat w + 1"
  by (simp add: unat_word_ariths)

lemma unat_of_nat_u8: "n < 256 \<Longrightarrow> unat (of_nat n :: u8) = n"
  by (simp add: unat_of_nat take_bit_nat_eq_self)

lemma unat_of_nat_u32: "n < 2 ^ 32 \<Longrightarrow> unat (of_nat n :: u32) = n"
  by (simp add: unat_of_nat take_bit_nat_eq_self)

end
