(* ===== verification/Config.thy ===== *)
theory Config
  imports Prelude
begin

section \<open>Application configuration (config.h) and error codes\<close>

text \<open>
  The constants of \<open>config.h\<close>, with the values it takes when the application's Kconfig options have
  their defaults (640 x 480 at 30 fps, 2 Mbps, no HDR), and the POSIX error numbers of NuttX's
  \<open>errno.h\<close> that the code returns or compares with.  Pixel formats are the V4L2 fourcc codes the
  code names; \<open>PIX_OTHER\<close> stands for any other code a driver may return.
\<close>

subsection \<open>errno\<close>

definition EIO :: int where "EIO = 5"
definition ENXIO :: int where "ENXIO = 6"
definition EAGAIN :: int where "EAGAIN = 11"
definition EWOULDBLOCK :: int where "EWOULDBLOCK = EAGAIN"
definition ENOMEM :: int where "ENOMEM = 12"
definition EINVAL :: int where "EINVAL = 22"
definition EBADMSG :: int where "EBADMSG = 77"

subsection \<open>Application error codes\<close>

definition ERR_OK :: int where "ERR_OK = 0"
definition ERR_CAMERA_INIT :: int where "ERR_CAMERA_INIT = -1"
definition ERR_CAMERA_OPEN :: int where "ERR_CAMERA_OPEN = -2"
definition ERR_CAMERA_CONFIG :: int where "ERR_CAMERA_CONFIG = -3"
definition ERR_CAMERA_CAPTURE :: int where "ERR_CAMERA_CAPTURE = -4"
definition ERR_ENCODER_INIT :: int where "ERR_ENCODER_INIT = -5"
definition ERR_ENCODER_OPEN :: int where "ERR_ENCODER_OPEN = -6"
definition ERR_ENCODER_CONFIG :: int where "ERR_ENCODER_CONFIG = -7"
definition ERR_ENCODER_ENCODE :: int where "ERR_ENCODER_ENCODE = -8"
definition ERR_USB_INIT :: int where "ERR_USB_INIT = -9"
definition ERR_USB_OPEN :: int where "ERR_USB_OPEN = -10"
definition ERR_USB_WRITE :: int where "ERR_USB_WRITE = -11"
definition ERR_USB_DISCONNECTED :: int where "ERR_USB_DISCONNECTED = -12"
definition ERR_PROTOCOL_INVALID :: int where "ERR_PROTOCOL_INVALID = -13"
definition ERR_NOMEM :: int where "ERR_NOMEM = -14"
definition ERR_TIMEOUT :: int where "ERR_TIMEOUT = -15"

lemmas errno_defs = EIO_def ENXIO_def EAGAIN_def EWOULDBLOCK_def ENOMEM_def EINVAL_def EBADMSG_def

lemmas err_defs = ERR_OK_def ERR_CAMERA_INIT_def ERR_CAMERA_OPEN_def ERR_CAMERA_CONFIG_def
  ERR_CAMERA_CAPTURE_def ERR_ENCODER_INIT_def ERR_ENCODER_OPEN_def ERR_ENCODER_CONFIG_def
  ERR_ENCODER_ENCODE_def ERR_USB_INIT_def ERR_USB_OPEN_def ERR_USB_WRITE_def
  ERR_USB_DISCONNECTED_def ERR_PROTOCOL_INVALID_def ERR_NOMEM_def ERR_TIMEOUT_def

subsection \<open>Camera, encoder and application settings\<close>

datatype pixfmt = PIX_JPEG | PIX_RGB565 | PIX_UYVY | PIX_H264 | PIX_OTHER u32

definition CONFIG_CAMERA_WIDTH :: u16 where "CONFIG_CAMERA_WIDTH = 640"
definition CONFIG_CAMERA_HEIGHT :: u16 where "CONFIG_CAMERA_HEIGHT = 480"
definition CONFIG_CAMERA_FPS :: u8 where "CONFIG_CAMERA_FPS = 30"
definition CONFIG_CAMERA_FORMAT :: pixfmt where "CONFIG_CAMERA_FORMAT = PIX_JPEG"
definition CONFIG_CAMERA_HDR_ENABLE :: bool where "CONFIG_CAMERA_HDR_ENABLE = False"
definition CONFIG_ENCODER_BITRATE :: u32 where "CONFIG_ENCODER_BITRATE = 2000000"
definition CONFIG_MAX_RECONNECT_RETRY :: nat where "CONFIG_MAX_RECONNECT_RETRY = 3"

lemmas config_defs = CONFIG_CAMERA_WIDTH_def CONFIG_CAMERA_HEIGHT_def CONFIG_CAMERA_FPS_def
  CONFIG_CAMERA_FORMAT_def CONFIG_CAMERA_HDR_ENABLE_def CONFIG_ENCODER_BITRATE_def
  CONFIG_MAX_RECONNECT_RETRY_def

end
