(* ===== verification/MjpegProtocol.thy ===== *)
theory MjpegProtocol
  imports Config
begin

unbundle bit_operations_syntax

section \<open>The MJPEG streaming protocol (mjpeg_protocol.c)\<close>

text \<open>
  The packet format the camera sends to the PC: CRC-16-CCITT, validation of a JPEG frame (SOI
  marker, last EOI marker, removal of the camera's trailing padding), packing of a frame packet and
  of a metrics packet into a caller-supplied buffer, and validation of a packet header.  Pointer
  arguments that the code checks against NULL are options; a buffer is the list of bytes it points
  to.  Logging is left out: it changes no state the code reads.
\<close>

subsection \<open>Constants and packet structures\<close>

definition MJPEG_SYNC_WORD :: u32 where "MJPEG_SYNC_WORD = 0xCAFEBABE"
definition MJPEG_HEADER_SIZE :: nat where "MJPEG_HEADER_SIZE = 12"
definition MJPEG_CRC_SIZE :: nat where "MJPEG_CRC_SIZE = 2"
definition MJPEG_MAX_JPEG_SIZE :: nat where "MJPEG_MAX_JPEG_SIZE = 98304"
definition MJPEG_MAX_PACKET_SIZE :: nat where
  "MJPEG_MAX_PACKET_SIZE = MJPEG_HEADER_SIZE + MJPEG_MAX_JPEG_SIZE + MJPEG_CRC_SIZE"
definition METRICS_SYNC_WORD :: u32 where "METRICS_SYNC_WORD = 0xCAFEBEEF"
definition METRICS_PACKET_SIZE :: nat where "METRICS_PACKET_SIZE = 38"

lemmas mjpeg_consts = MJPEG_SYNC_WORD_def MJPEG_HEADER_SIZE_def MJPEG_CRC_SIZE_def
  MJPEG_MAX_JPEG_SIZE_def MJPEG_MAX_PACKET_SIZE_def METRICS_SYNC_WORD_def METRICS_PACKET_SIZE_def

record mjpeg_header =
  sync_word :: u32
  hdr_sequence :: u32
  hdr_size :: u32

record metrics_packet =
  m_sync_word :: u32
  m_sequence :: u32
  timestamp_ms :: u32
  camera_frames :: u32
  usb_packets :: u32
  action_q_depth :: u32
  avg_packet_size :: u32
  m_errors :: u32
  m_reserved :: u32
  crc16 :: u16

subsection \<open>CRC-16-CCITT\<close>

text \<open>One turn of the inner loop: shift left, and subtract the polynomial when a 1 falls out.\<close>

definition crc_bit :: "u16 \<Rightarrow> u16" where
  "crc_bit crc =
     (if crc AND 0x8000 \<noteq> 0 then push_bit 1 crc XOR 0x1021 else push_bit 1 crc)"

definition crc_byte :: "u16 \<Rightarrow> u8 \<Rightarrow> u16" where
  "crc_byte crc b = (crc_bit ^^ 8) (crc XOR push_bit 8 (ucast b))"

definition mjpeg_crc16_ccitt :: "bytes \<Rightarrow> nat \<Rightarrow> u16" where
  "mjpeg_crc16_ccitt data len = foldl crc_byte 0xFFFF (take len data)"

subsection \<open>Validation of a JPEG frame\<close>

text \<open>
  The search loop runs from index \<open>jpeg_size - 2\<close> down to 0 and stops at the first (so the last in
  the buffer) EOI marker; its result is the position after the marker, or 0 when there is none.
\<close>

fun eoi_search :: "bytes \<Rightarrow> nat \<Rightarrow> nat" where
  "eoi_search d i =
     (if d ! i = 0xFF \<and> d ! (i + 1) = 0xD9 then i + 2
      else if i = 0 then 0 else eoi_search d (i - 1))"

declare eoi_search.simps [simp del]

definition mjpeg_validate_jpeg_data :: "bytes \<Rightarrow> u32 \<Rightarrow> u32 res" where
  "mjpeg_validate_jpeg_data jpeg_data jpeg_size =
     (if unat jpeg_size < 4 \<or> unat jpeg_size > MJPEG_MAX_JPEG_SIZE then Inl (- EINVAL)
      else if jpeg_data ! 0 \<noteq> 0xFF \<or> jpeg_data ! 1 \<noteq> 0xD8 then Inl (- EBADMSG)
      else let eoi_pos = eoi_search jpeg_data (unat jpeg_size - 2)
           in if eoi_pos = 0 then Inl (- EBADMSG) else Inr (of_nat eoi_pos))"

subsection \<open>Packing a frame\<close>

text \<open>
  The stores of \<open>mjpeg_pack_frame\<close> once its checks have passed: the three header words, the JPEG
  bytes, then the CRC computed over what the buffer now holds.
\<close>

definition mjpeg_store_frame :: "bytes \<Rightarrow> u32 \<Rightarrow> bytes \<Rightarrow> nat \<Rightarrow> bytes" where
  "mjpeg_store_frame packet seq jpeg_data jpeg_size =
     (let p1 = write_bytes packet 0 (le_bytes 4 MJPEG_SYNC_WORD);
          p2 = write_bytes p1 4 (le_bytes 4 seq);
          p3 = write_bytes p2 8 (le_bytes 4 (of_nat jpeg_size :: u32));
          p4 = write_bytes p3 MJPEG_HEADER_SIZE (take jpeg_size jpeg_data);
          crc = mjpeg_crc16_ccitt p4 (MJPEG_HEADER_SIZE + jpeg_size)
      in write_bytes p4 (MJPEG_HEADER_SIZE + jpeg_size) (le_bytes 2 crc))"

text \<open>
  The result on success is the packet size, the incremented sequence number and the packet buffer;
  on failure nothing has been written.
\<close>

definition mjpeg_pack_frame ::
  "bytes option \<Rightarrow> u32 \<Rightarrow> u32 option \<Rightarrow> bytes option \<Rightarrow> nat \<Rightarrow> (nat \<times> u32 \<times> bytes) res" where
  "mjpeg_pack_frame jpeg_data jpeg_size sequence packet packet_max_size =
     (case (jpeg_data, sequence, packet) of
        (Some jpeg, Some seq, Some pkt) \<Rightarrow>
          if jpeg_size = 0 \<or> unat jpeg_size > MJPEG_MAX_JPEG_SIZE then Inl (- EINVAL)
          else (case mjpeg_validate_jpeg_data jpeg jpeg_size of
              Inl e \<Rightarrow> Inl e
            | Inr actual_size \<Rightarrow>
                let total_size = MJPEG_HEADER_SIZE + unat actual_size + MJPEG_CRC_SIZE
                in if total_size > packet_max_size then Inl (- ENOMEM)
                   else Inr (total_size, seq + 1,
                             mjpeg_store_frame pkt seq jpeg (unat actual_size)))
      | _ \<Rightarrow> Inl (- EINVAL))"

definition mjpeg_validate_header :: "mjpeg_header option \<Rightarrow> int" where
  "mjpeg_validate_header header =
     (case header of
        None \<Rightarrow> - EINVAL
      | Some h \<Rightarrow>
          if sync_word h \<noteq> MJPEG_SYNC_WORD then - EBADMSG
          else if hdr_size h = 0 \<or> unat (hdr_size h) > MJPEG_MAX_JPEG_SIZE then - EINVAL
          else 0)"

subsection \<open>Packing a metrics packet\<close>

definition mjpeg_pack_metrics ::
  "u32 \<Rightarrow> u32 \<Rightarrow> u32 \<Rightarrow> u32 \<Rightarrow> u32 \<Rightarrow> u32 \<Rightarrow> u32 option \<Rightarrow> bytes option
     \<Rightarrow> (nat \<times> u32 \<times> bytes) res" where
  "mjpeg_pack_metrics ts cam usb qd avg errs sequence packet =
     (case (sequence, packet) of
        (Some seq, Some pkt) \<Rightarrow>
          (let p1 = write_bytes pkt 0 (le_bytes 4 METRICS_SYNC_WORD);
               p2 = write_bytes p1 4 (le_bytes 4 seq);
               p3 = write_bytes p2 8 (le_bytes 4 ts);
               p4 = write_bytes p3 12 (le_bytes 4 cam);
               p5 = write_bytes p4 16 (le_bytes 4 usb);
               p6 = write_bytes p5 20 (le_bytes 4 qd);
               p7 = write_bytes p6 24 (le_bytes 4 avg);
               p8 = write_bytes p7 28 (le_bytes 4 errs);
               p9 = write_bytes p8 32 (le_bytes 4 (0 :: u32));
               crc = mjpeg_crc16_ccitt p9 (METRICS_PACKET_SIZE - 2)
           in Inr (METRICS_PACKET_SIZE, seq + 1, write_bytes p9 36 (le_bytes 2 crc)))
      | _ \<Rightarrow> Inl (- EINVAL))"

section \<open>The checksum\<close>

subsection \<open>One step is an injective linear map\<close>

lemma and_8000: "(crc AND 0x8000 \<noteq> 0) = bit (crc :: u16) 15"
proof -
  have "(0x8000 :: u16) = push_bit 15 1"
    by simp
  then show ?thesis
    by (simp only: and_exp_eq_0_iff_not_bit push_bit_of_1) simp
qed

declare push_bit_Suc [simp del]

lemma xor_eq_0: "a XOR b = 0 \<longleftrightarrow> a = b"
  for a b :: "'a::len word"
proof
  assume "a XOR b = 0"
  then have "(a XOR b) XOR b = 0 XOR b"
    by (rule arg_cong)
  then show "a = b"
    by (simp only: xor.assoc xor_self_eq xor.right_neutral xor.left_neutral)
qed simp

lemma xor_cancel: "a XOR c = b XOR c \<longleftrightarrow> a = b"
  for a b :: "'a::len word"
proof -
  have "(a XOR c) XOR (b XOR c) = a XOR b"
    by (rule bit_word_eqI) (auto simp: bit_simps)
  then show ?thesis
    by (metis xor_eq_0)
qed

lemma crc_bit_alt: "crc_bit crc = (if bit crc 15 then push_bit 1 crc XOR 0x1021 else push_bit 1 crc)"
  by (simp only: crc_bit_def and_8000)

lemma crc_bit_xor: "crc_bit (a XOR b) = crc_bit a XOR crc_bit b"
  unfolding crc_bit_alt by (rule bit_eqI) (auto simp: bit_simps)

lemma crc_bit_0 [simp]: "crc_bit 0 = 0"
  by (simp add: crc_bit_def)

lemma crc_bit_eq_0: "crc_bit a = 0 \<longleftrightarrow> a = 0"
proof
  assume a: "crc_bit a = 0"
  have top: "\<not> bit a 15"
  proof
    assume "bit a 15"
    then have "bit (crc_bit a) 0"
      by (simp add: crc_bit_alt bit_simps)
    with a show False by simp
  qed
  with a have "push_bit 1 a = 0"
    by (simp add: crc_bit_alt)
  then have "bit (push_bit 1 a) (Suc i) = False" for i
    by simp
  then have "\<not> bit a i" if "i < 15" for i
    using that by (simp add: bit_simps)
  with top have "\<not> bit a i" if "i < 16" for i
    using that by (cases "i = 15") auto
  then show "a = 0"
    by (intro bit_word_eqI) simp
qed simp

lemma crc_bit_inject: "crc_bit a = crc_bit b \<longleftrightarrow> a = b"
proof -
  have "crc_bit a = crc_bit b \<longleftrightarrow> crc_bit (a XOR b) = 0"
    by (simp only: crc_bit_xor xor_eq_0)
  then show ?thesis
    by (simp only: crc_bit_eq_0 xor_eq_0)
qed

lemma crc_bit_pow_inject: "(crc_bit ^^ n) a = (crc_bit ^^ n) b \<longleftrightarrow> a = b"
  by (induction n) (simp_all add: crc_bit_inject)

subsection \<open>The bit-serial reference\<close>

text \<open>
  The textbook shift register: one message bit at a time, most significant bit of each byte first.
  \<open>crc_serial\<close> is what a receiver of another make computes; the byte-wise loop of the code is
  shown equal to it.
\<close>

definition top_bit :: u16 where
  "top_bit = 0x8000"

definition crc_shift :: "u16 \<Rightarrow> bool \<Rightarrow> u16" where
  "crc_shift crc x = crc_bit (crc XOR (if x then top_bit else 0))"

definition crc_serial :: "u16 \<Rightarrow> bool list \<Rightarrow> u16" where
  "crc_serial = foldl crc_shift"

definition byte_bits :: "u8 \<Rightarrow> bool list" where
  "byte_bits b = map (bit b) [7, 6, 5, 4, 3, 2, 1, 0]"

definition message_bits :: "bytes \<Rightarrow> bool list" where
  "message_bits bs = concat (map byte_bits bs)"

primrec msbs :: "nat \<Rightarrow> u16 \<Rightarrow> bool list" where
  "msbs 0 v = []"
| "msbs (Suc n) v = bit v 15 # msbs n (push_bit 1 v)"

primrec of_msbs :: "bool list \<Rightarrow> u16" where
  "of_msbs [] = 0"
| "of_msbs (x # xs) = (if x then top_bit else 0) OR drop_bit 1 (of_msbs xs)"

lemma crc_serial_simps [simp]:
  "crc_serial c [] = c"
  "crc_serial c (x # xs) = crc_serial (crc_shift c x) xs"
  "crc_serial c (xs @ ys) = crc_serial (crc_serial c xs) ys"
  by (simp_all add: crc_serial_def)

lemma bit_top_bit: "bit top_bit i \<longleftrightarrow> i = 15"
proof -
  have "top_bit = push_bit 15 1"
    by (simp add: top_bit_def)
  moreover have "bit (push_bit 15 1 :: u16) i \<longleftrightarrow> i = 15"
    unfolding bit_push_bit_iff bit_1_iff by auto
  ultimately show ?thesis
    by (simp only:)
qed

lemma crc_bit_top: "crc_bit top_bit = 0x1021"
  by code_simp

lemma crc_shift_inject: "crc_shift c x = crc_shift d x \<longleftrightarrow> c = d"
  by (simp only: crc_shift_def crc_bit_inject xor_cancel)

lemma crc_serial_inject: "crc_serial c xs = crc_serial d xs \<longleftrightarrow> c = d"
  by (induction xs arbitrary: c d) (simp_all add: crc_shift_inject)

lemma crc_bit_step:
  "crc_bit (c XOR v) = crc_shift c (bit v 15) XOR push_bit 1 v"
proof -
  have v: "crc_bit v = crc_bit (if bit v 15 then top_bit else 0) XOR push_bit 1 v"
    by (simp add: crc_bit_top) (simp add: crc_bit_alt xor.commute)
  show ?thesis
    unfolding crc_shift_def crc_bit_xor v by (simp add: xor.assoc)
qed

lemma crc_bit_pow_serial:
  "(\<And>i. i < 16 - n \<Longrightarrow> \<not> bit v i) \<Longrightarrow> n \<le> 16 \<Longrightarrow>
     (crc_bit ^^ n) (c XOR v) = crc_serial c (msbs n v)"
proof (induction n arbitrary: c v)
  case 0
  then have "v = 0"
    by (intro bit_word_eqI) simp
  then show ?case by simp
next
  case (Suc n)
  have low: "\<not> bit (push_bit 1 v) i" if "i < 16 - n" for i
    using Suc.prems that by (auto simp: bit_simps)
  have "(crc_bit ^^ Suc n) (c XOR v) = (crc_bit ^^ n) (crc_shift c (bit v 15) XOR push_bit 1 v)"
    by (simp only: funpow_Suc_right comp_def crc_bit_step)
  also have "\<dots> = crc_serial (crc_shift c (bit v 15)) (msbs n (push_bit 1 v))"
    using Suc.IH [OF low] Suc.prems by simp
  finally show ?case by simp
qed

lemma msbs_map: "n \<le> 16 \<Longrightarrow> msbs n v = map (\<lambda>i. bit v (15 - i)) [0..<n]"
proof (induction n arbitrary: v)
  case 0
  then show ?case by simp
next
  case (Suc n)
  have "bit (push_bit 1 v) (15 - i) = bit v (15 - Suc i)" if "i < n" for i
    using that Suc.prems by (auto simp: bit_simps)
  then have "msbs n (push_bit 1 v) = map ((\<lambda>i. bit v (15 - i)) \<circ> Suc) [0..<n]"
    using Suc by (auto simp del: One_nat_def)
  then show ?case
    by (simp add: upt_conv_Cons map_Suc_upt [symmetric] del: upt_Suc)
qed

lemma msbs_byte: "msbs 8 (push_bit 8 (ucast b)) = byte_bits b"
proof -
  have "bit (push_bit 8 (ucast b) :: u16) (15 - i) = bit b (7 - i)" if "i < 8" for i
    using that by (auto simp: bit_simps)
  then have "msbs 8 (push_bit 8 (ucast b)) = map (\<lambda>i. bit b (7 - i)) [0..<8]"
    by (simp add: msbs_map)
  then show ?thesis
    by (simp add: byte_bits_def upt_rec)
qed

lemma crc_byte_serial: "crc_byte c b = crc_serial c (byte_bits b)"
  unfolding crc_byte_def
  by (subst crc_bit_pow_serial) (auto simp: msbs_byte bit_simps)

lemma crc_bytes_serial: "foldl crc_byte c bs = crc_serial c (message_bits bs)"
  by (induction bs arbitrary: c) (simp_all add: message_bits_def crc_byte_serial)

lemma length_of_msbs_low: "i < 16 - length xs \<Longrightarrow> \<not> bit (of_msbs xs) i"
  by (induction xs arbitrary: i) (auto simp: bit_simps bit_top_bit)

lemma msbs_or_top:
  assumes "\<not> bit v 0"
  shows "push_bit 1 ((if x then top_bit else 0) OR drop_bit 1 v) = v"
proof (rule bit_word_eqI)
  fix i
  assume "i < LENGTH(16)"
  then show "bit (push_bit 1 ((if x then top_bit else 0) OR drop_bit 1 v)) i = bit v i"
    using assms by (cases i) (auto simp: bit_simps bit_top_bit)
qed

lemma msbs_of_msbs: "length xs \<le> 16 \<Longrightarrow> msbs (length xs) (of_msbs xs) = xs"
proof (induction xs)
  case Nil
  then show ?case by simp
next
  case (Cons x xs)
  then have low: "\<not> bit (of_msbs xs) 0"
    by (intro length_of_msbs_low) simp
  have "bit (of_msbs (x # xs)) 15 = x"
    by (auto simp: bit_simps bit_top_bit dest: bit_imp_le_length)
  moreover have "push_bit 1 (of_msbs (x # xs)) = of_msbs xs"
    using msbs_or_top [OF low] by simp
  ultimately show ?case
    using Cons by simp
qed

lemma crc_serial_block:
  assumes "length e \<le> 16"
  shows "crc_serial c e = (crc_bit ^^ length e) (c XOR of_msbs e)"
  using assms by (subst crc_bit_pow_serial) (simp_all add: length_of_msbs_low msbs_of_msbs)

lemma crc_serial_block_inject:
  assumes "length e = length f" "length e \<le> 16"
  shows "crc_serial c e = crc_serial c f \<longleftrightarrow> e = f"
proof
  assume "crc_serial c e = crc_serial c f"
  then have "c XOR of_msbs e = c XOR of_msbs f"
    using assms by (simp add: crc_serial_block crc_bit_pow_inject)
  then have "c XOR (c XOR of_msbs e) = c XOR (c XOR of_msbs f)"
    by simp
  then have "of_msbs e = of_msbs f"
    by (simp flip: xor.assoc)
  with assms show "e = f"
    by (metis msbs_of_msbs)
qed simp

lemma crc_burst:
  assumes "message_bits xs = pre @ e @ post" "message_bits ys = pre @ f @ post"
    and "length e = length f" "length e \<le> 16" "e \<noteq> f"
  shows "foldl crc_byte c xs \<noteq> foldl crc_byte c ys"
  using assms by (simp add: crc_bytes_serial crc_serial_inject crc_serial_block_inject)

section \<open>The JPEG markers\<close>

definition eoi_at :: "bytes \<Rightarrow> nat \<Rightarrow> bool" where
  "eoi_at d j \<longleftrightarrow> d ! j = 0xFF \<and> d ! (j + 1) = 0xD9"

lemma eoi_search_eq_0: "eoi_search d i = 0 \<longleftrightarrow> (\<forall>j \<le> i. \<not> eoi_at d j)"
proof (induction i)
  case 0
  show ?case
    by (simp add: eoi_search.simps [of d 0] eoi_at_def)
next
  case (Suc i)
  then show ?case
    by (auto simp: eoi_search.simps [of d "Suc i"] eoi_at_def le_Suc_eq)
qed

lemma eoi_search_eq_Suc:
  "eoi_search d i = j + 2 \<longleftrightarrow> j \<le> i \<and> eoi_at d j \<and> (\<forall>k. j < k \<and> k \<le> i \<longrightarrow> \<not> eoi_at d k)"
proof (induction i)
  case 0
  show ?case
    by (auto simp: eoi_search.simps [of d 0] eoi_at_def)
next
  case (Suc i)
  show ?case
  proof (cases "eoi_at d (Suc i)")
    case True
    then show ?thesis
      by (auto simp: eoi_search.simps [of d "Suc i"] eoi_at_def) (metis le_neq_implies_less order_refl)
  next
    case False
    then show ?thesis
      using Suc by (auto simp: eoi_search.simps [of d "Suc i"] eoi_at_def le_Suc_eq)
  qed
qed

lemma eoi_search_cases:
  obtains "eoi_search d i = 0" | j where "eoi_search d i = j + 2" "j \<le> i"
proof (cases "eoi_search d i = 0")
  case False
  then obtain j where "j \<le> i" "eoi_at d j"
    by (auto simp: eoi_search_eq_0)
  have "eoi_search d i \<noteq> 1"
    by (induction i) (auto simp: eoi_search.simps)
  with False obtain m where "eoi_search d i = m + 2"
    by (metis One_nat_def Suc_eq_plus1 add_2_eq_Suc' not0_implies_Suc)
  then show ?thesis
    using that(2) eoi_search_eq_Suc by blast
qed (use that in blast)

lemma mjpeg_validate_okD:
  assumes "mjpeg_validate_jpeg_data d sz = Inr n"
  shows "unat n \<le> unat sz" "2 \<le> unat n" "unat n \<le> MJPEG_MAX_JPEG_SIZE"
    "4 \<le> unat sz" "unat sz \<le> MJPEG_MAX_JPEG_SIZE"
proof -
  from assms have sz: "4 \<le> unat sz" "unat sz \<le> MJPEG_MAX_JPEG_SIZE"
    and n: "eoi_search d (unat sz - 2) \<noteq> 0" "n = of_nat (eoi_search d (unat sz - 2))"
    by (auto simp: mjpeg_validate_jpeg_data_def Let_def not_less split: if_splits)
  from n(1) obtain j where j: "eoi_search d (unat sz - 2) = j + 2" "j \<le> unat sz - 2"
    by (metis eoi_search_cases)
  then have "j + 2 \<le> unat sz"
    using sz(1) by linarith
  moreover have "unat n = j + 2"
  proof -
    have "j + 2 < 2 ^ 32"
      using \<open>j + 2 \<le> unat sz\<close> sz(2) by (simp add: MJPEG_MAX_JPEG_SIZE_def)
    then show ?thesis
      unfolding n(2) j(1) by (rule unat_of_nat_u32)
  qed
  ultimately show "unat n \<le> unat sz" "2 \<le> unat n" "unat n \<le> MJPEG_MAX_JPEG_SIZE"
    "4 \<le> unat sz" "unat sz \<le> MJPEG_MAX_JPEG_SIZE"
    using sz by linarith+
qed

section \<open>What a packet looks like on the wire\<close>

text \<open>
  The specification of the two packet formats as byte strings, and of the receiver that the
  protocol document describes (\<open>docs/security_camera/01_specifications/04_MJPEG_PROTOCOL.md\<close>):
  read the header, validate it, take \<open>size\<close> bytes, compare the checksum.
\<close>

definition sealed :: "bytes \<Rightarrow> bytes" where
  "sealed bs = bs @ le_bytes 2 (mjpeg_crc16_ccitt bs (length bs))"

definition frame_hdr :: "u32 \<Rightarrow> nat \<Rightarrow> bytes" where
  "frame_hdr seq n = le_bytes 4 MJPEG_SYNC_WORD @ le_bytes 4 seq @ le_bytes 4 (of_nat n :: u32)"

definition frame_body :: "u32 \<Rightarrow> bytes \<Rightarrow> bytes" where
  "frame_body seq jpeg = frame_hdr seq (length jpeg) @ jpeg"

definition frame_bytes :: "u32 \<Rightarrow> bytes \<Rightarrow> bytes" where
  "frame_bytes seq jpeg = sealed (frame_body seq jpeg)"

definition metrics_body :: "u32 list \<Rightarrow> bytes" where
  "metrics_body ws = concat (map (le_bytes 4) ws)"

definition mjpeg_receive :: "bytes \<Rightarrow> (u32 \<times> bytes) res" where
  "mjpeg_receive p =
     (let h = \<lparr> sync_word = le_word (read_bytes p 0 4), hdr_sequence = le_word (read_bytes p 4 4),
               hdr_size = le_word (read_bytes p 8 4) \<rparr>;
          n = unat (hdr_size h)
      in if mjpeg_validate_header (Some h) < 0 then Inl (mjpeg_validate_header (Some h))
         else if length p < 12 + n + 2 then Inl (- EINVAL)
         else if mjpeg_crc16_ccitt p (12 + n) \<noteq> le_word (read_bytes p (12 + n) 2)
         then Inl (- EBADMSG)
         else Inr (hdr_sequence h, read_bytes p 12 n))"

lemma length_frame_hdr [simp, layout_simps]: "length (frame_hdr seq n) = 12"
  by (simp add: frame_hdr_def)

lemma length_frame_body [simp, layout_simps]: "length (frame_body seq jpeg) = 12 + length jpeg"
  by (simp add: frame_body_def)

lemma length_sealed [simp, layout_simps]: "length (sealed bs) = length bs + 2"
  by (simp add: sealed_def)

lemma length_frame_bytes [simp, layout_simps]: "length (frame_bytes seq jpeg) = 14 + length jpeg"
  by (simp add: frame_bytes_def)

lemma mjpeg_crc16_append: "mjpeg_crc16_ccitt (a @ b) (length a) = mjpeg_crc16_ccitt a (length a)"
  by (simp add: mjpeg_crc16_ccitt_def)

lemma mjpeg_crc16_prefix:
  "n = length a \<Longrightarrow> mjpeg_crc16_ccitt (a @ b) n = mjpeg_crc16_ccitt a (length a)"
  by (simp add: mjpeg_crc16_append)

lemma write_bytes_extend:
  assumes "p = a @ drop (length a) buf" "off = length a" "length a + length bs \<le> length buf"
  shows "write_bytes p off bs = (a @ bs) @ drop (length (a @ bs)) buf"
  using assms by (simp add: write_bytes_def add.commute)

lemma mjpeg_store_frame_eq:
  assumes "n \<le> length jpeg" "14 + n \<le> length packet"
  shows "mjpeg_store_frame packet seq jpeg n
    = frame_bytes seq (take n jpeg) @ drop (14 + n) packet"
proof -
  let ?h1 = "le_bytes 4 MJPEG_SYNC_WORD"
  let ?h2 = "?h1 @ le_bytes 4 seq"
  let ?h3 = "?h2 @ le_bytes 4 (of_nat n :: u32)"
  let ?h4 = "?h3 @ take n jpeg"
  have p1: "write_bytes packet 0 ?h1 = ?h1 @ drop (length ?h1) packet"
    using assms by (simp add: write_bytes_def)
  have p2: "write_bytes (?h1 @ drop (length ?h1) packet) 4 (le_bytes 4 seq)
      = ?h2 @ drop (length ?h2) packet"
    using assms by (intro write_bytes_extend) simp_all
  have p3: "write_bytes (?h2 @ drop (length ?h2) packet) 8 (le_bytes 4 (of_nat n :: u32))
      = ?h3 @ drop (length ?h3) packet"
    using assms by (intro write_bytes_extend) simp_all
  have p4: "write_bytes (?h3 @ drop (length ?h3) packet) 12 (take n jpeg)
      = ?h4 @ drop (length ?h4) packet"
    using assms by (intro write_bytes_extend) simp_all
  have body: "?h4 = frame_body seq (take n jpeg)"
    using assms(1) by (simp add: frame_body_def frame_hdr_def)
  have crc: "mjpeg_crc16_ccitt (?h4 @ drop (length ?h4) packet) (12 + n)
      = mjpeg_crc16_ccitt ?h4 (length ?h4)"
    using assms(1) by (intro mjpeg_crc16_prefix) simp
  have p5: "write_bytes (?h4 @ drop (length ?h4) packet) (12 + n) (le_bytes 2 c)
      = (?h4 @ le_bytes 2 c) @ drop (length (?h4 @ le_bytes 2 c)) packet" for c :: u16
    using assms by (intro write_bytes_extend) simp_all
  show ?thesis
    unfolding mjpeg_store_frame_def Let_def MJPEG_HEADER_SIZE_def p1 p2 p3 p4 crc p5
    unfolding body frame_bytes_def sealed_def
    using assms(1) by (simp add: ac_simps)
qed

lemma read_frame_hdr:
  "read_bytes (frame_hdr seq n @ x) 0 4 = le_bytes 4 MJPEG_SYNC_WORD"
  "read_bytes (frame_hdr seq n @ x) 4 4 = le_bytes 4 seq"
  "read_bytes (frame_hdr seq n @ x) 8 4 = le_bytes 4 (of_nat n :: u32)"
  by (simp_all add: read_bytes_def frame_hdr_def del: le_bytes.simps)

lemma mjpeg_receive_hdr:
  assumes "length data = n" "0 < n" "n \<le> MJPEG_MAX_JPEG_SIZE"
  shows "mjpeg_receive (frame_hdr seq n @ data @ le_bytes 2 c @ rest) =
    (if foldl crc_byte 0xFFFF (frame_hdr seq n @ data) = c then Inr (seq, data)
     else Inl (- EBADMSG))"
proof -
  let ?p = "frame_hdr seq n @ data @ le_bytes 2 c @ rest"
  have n: "unat (of_nat n :: u32) = n"
    using assms(3) by (intro unat_of_nat_u32) (simp add: MJPEG_MAX_JPEG_SIZE_def)
  then have nz: "of_nat n \<noteq> (0 :: u32)"
    using assms(2) by (metis not_gr_zero unat_0)
  have f: "read_bytes ?p 12 n = data" "read_bytes ?p (12 + n) 2 = le_bytes 2 c"
    "mjpeg_crc16_ccitt ?p (12 + n) = foldl crc_byte 0xFFFF (frame_hdr seq n @ data)"
    "\<not> length ?p < 12 + n + 2"
    using assms(1) by (simp_all add: read_bytes_def mjpeg_crc16_ccitt_def)
  have v: "mjpeg_validate_header (Some \<lparr> sync_word = MJPEG_SYNC_WORD, hdr_sequence = seq,
      hdr_size = of_nat n \<rparr>) = 0"
    using n nz assms(3) by (simp add: mjpeg_validate_header_def)
  show ?thesis
    unfolding mjpeg_receive_def Let_def mjpeg_header.simps read_frame_hdr
      le_word_le_bytes_32 n v f le_word_le_bytes_16
    using f(4) by auto
qed

lemma mjpeg_receive_frame:
  assumes "0 < length jpeg" "length jpeg \<le> MJPEG_MAX_JPEG_SIZE"
  shows "mjpeg_receive (frame_bytes seq jpeg @ rest) = Inr (seq, jpeg)"
proof -
  let ?c = "foldl crc_byte 0xFFFF (frame_hdr seq (length jpeg) @ jpeg)"
  have "frame_bytes seq jpeg @ rest = frame_hdr seq (length jpeg) @ jpeg @ le_bytes 2 ?c @ rest"
    by (simp add: frame_bytes_def sealed_def frame_body_def mjpeg_crc16_ccitt_def)
  with assms show ?thesis
    by (simp only: mjpeg_receive_hdr [OF refl] simp_thms if_True)
qed

text \<open>The frame stream as a framing: what the receiver gets out of back-to-back frames.\<close>

definition frame_valid :: "u32 \<times> bytes \<Rightarrow> bool" where
  "frame_valid f \<longleftrightarrow> 0 < length (snd f) \<and> length (snd f) \<le> MJPEG_MAX_JPEG_SIZE"

definition frame_enc :: "u32 \<times> bytes \<Rightarrow> bytes" where
  "frame_enc f = frame_bytes (fst f) (snd f)"

definition frame_parse :: "bytes \<Rightarrow> ((u32 \<times> bytes) \<times> nat) option" where
  "frame_parse bs =
     (case mjpeg_receive bs of Inl e \<Rightarrow> None
      | Inr f \<Rightarrow> Some (f, MJPEG_HEADER_SIZE + length (snd f) + MJPEG_CRC_SIZE))"

interpretation mjpeg: framing frame_valid frame_enc frame_parse
proof unfold_locales
  fix f :: "u32 \<times> bytes" and rest
  assume v: "frame_valid f"
  then show "frame_parse (frame_enc f @ rest) = Some (f, length (frame_enc f))"
    using mjpeg_receive_frame [of "snd f" "fst f" rest]
    by (simp add: frame_parse_def frame_enc_def frame_valid_def MJPEG_HEADER_SIZE_def MJPEG_CRC_SIZE_def)
  from v show "frame_enc f \<noteq> []"
    using length_frame_bytes [of "fst f" "snd f"] by (auto simp: frame_enc_def simp del: length_frame_bytes)
qed

lemma pack_ok_iff:
  "mjpeg_pack_frame (Some jpeg) sz (Some seq) (Some pkt) maxsz = Inr (tot, seq', pkt') \<longleftrightarrow>
     (\<exists>n. mjpeg_validate_jpeg_data jpeg sz = Inr n \<and> tot = 14 + unat n \<and> tot \<le> maxsz \<and>
        seq' = seq + 1 \<and> pkt' = mjpeg_store_frame pkt seq jpeg (unat n))"
proof -
  have "mjpeg_validate_jpeg_data jpeg sz = Inr n \<Longrightarrow>
      \<not> (sz = 0 \<or> MJPEG_MAX_JPEG_SIZE < unat sz)" for n
    using mjpeg_validate_okD(4,5) [of jpeg sz n] by auto
  then show ?thesis
    by (auto simp: mjpeg_pack_frame_def MJPEG_HEADER_SIZE_def MJPEG_CRC_SIZE_def Let_def
        split: sum.splits if_splits)
qed

definition metrics_bytes :: "u32 \<Rightarrow> u32 \<Rightarrow> u32 \<Rightarrow> u32 \<Rightarrow> u32 \<Rightarrow> u32 \<Rightarrow> u32 \<Rightarrow> bytes" where
  "metrics_bytes seq ts cam usb qd avg errs =
     sealed (metrics_body [METRICS_SYNC_WORD, seq, ts, cam, usb, qd, avg, errs, 0])"

definition metrics_decode :: "bytes \<Rightarrow> metrics_packet res" where
  "metrics_decode p =
     (let w = (\<lambda>k. le_word (read_bytes p (4 * k) 4) :: u32); c = le_word (read_bytes p 36 2)
      in if length p < 38 \<or> w 0 \<noteq> METRICS_SYNC_WORD \<or> c \<noteq> mjpeg_crc16_ccitt p 36
         then Inl (- EBADMSG)
         else Inr \<lparr> m_sync_word = w 0, m_sequence = w 1, timestamp_ms = w 2, camera_frames = w 3,
                usb_packets = w 4, action_q_depth = w 5, avg_packet_size = w 6, m_errors = w 7,
                m_reserved = w 8, crc16 = c \<rparr>)"

lemma metrics_body_Cons: "metrics_body (w # ws) = le_bytes 4 w @ metrics_body ws"
  and metrics_body_Nil: "metrics_body [] = []"
  by (simp_all add: metrics_body_def)

lemma length_metrics_body [simp, layout_simps]: "length (metrics_body ws) = 4 * length ws"
  by (induction ws) (simp_all add: metrics_body_def)

lemma length_metrics_bytes [simp, layout_simps]:
  "length (metrics_bytes seq ts cam usb qd avg errs) = 38"
  by (simp add: metrics_bytes_def)

lemma metrics_body_snoc: "metrics_body ws @ le_bytes 4 w = metrics_body (ws @ [w])"
  by (simp add: metrics_body_def)

lemma write_metrics_word:
  assumes "p = metrics_body ws @ drop (4 * length ws) pkt" "off = 4 * length ws"
    "4 * length ws + 4 \<le> length pkt"
  shows "write_bytes p off (le_bytes 4 w)
    = metrics_body (ws @ [w]) @ drop (4 * length (ws @ [w])) pkt"
  using assms write_bytes_extend [of p "metrics_body ws" pkt off "le_bytes 4 w"]
  by (simp add: metrics_body_snoc)

lemma mjpeg_pack_metrics_eq:
  assumes "METRICS_PACKET_SIZE \<le> length pkt"
  shows "mjpeg_pack_metrics ts cam usb qd avg errs (Some seq) (Some pkt)
    = Inr (38, seq + 1, metrics_bytes seq ts cam usb qd avg errs @ drop 38 pkt)"
proof -
  have len: "38 \<le> length pkt"
    using assms by (simp add: METRICS_PACKET_SIZE_def)
  let ?p = "\<lambda>ws. metrics_body ws @ drop (4 * length ws) pkt"
  let ?w = "\<lambda>ws w. write_bytes (?p ws) (4 * length ws) (le_bytes 4 w)"
  have step: "?w ws w = ?p (ws @ [w])" if "length ws \<le> 8" for ws :: "u32 list" and w :: u32
    using that len by (intro write_metrics_word) simp_all
  note s0 = step [of "[]" METRICS_SYNC_WORD, simplified]
  note s1 = step [of "[METRICS_SYNC_WORD]" seq, simplified]
  note s2 = step [of "[METRICS_SYNC_WORD, seq]" ts, simplified]
  note s3 = step [of "[METRICS_SYNC_WORD, seq, ts]" cam, simplified]
  note s4 = step [of "[METRICS_SYNC_WORD, seq, ts, cam]" usb, simplified]
  note s5 = step [of "[METRICS_SYNC_WORD, seq, ts, cam, usb]" qd, simplified]
  note s6 = step [of "[METRICS_SYNC_WORD, seq, ts, cam, usb, qd]" avg, simplified]
  note s7 = step [of "[METRICS_SYNC_WORD, seq, ts, cam, usb, qd, avg]" errs, simplified]
  note s8 = step [of "[METRICS_SYNC_WORD, seq, ts, cam, usb, qd, avg, errs]" 0, simplified]
  let ?ws = "[METRICS_SYNC_WORD, seq, ts, cam, usb, qd, avg, errs, 0]"
  have start: "write_bytes pkt 0 (le_bytes 4 METRICS_SYNC_WORD)
      = metrics_body [METRICS_SYNC_WORD] @ drop 4 pkt"
    using s0 by (simp add: metrics_body_Nil)
  have crc: "mjpeg_crc16_ccitt (metrics_body ?ws @ drop 36 pkt) (38 - 2)
      = mjpeg_crc16_ccitt (metrics_body ?ws) (length (metrics_body ?ws))"
    by (rule mjpeg_crc16_prefix) simp
  have last: "write_bytes (metrics_body ?ws @ drop 36 pkt) 36 (le_bytes 2 c)
      = (metrics_body ?ws @ le_bytes 2 c) @ drop 38 pkt" for c :: u16
    using len by (subst write_bytes_extend [where a = "metrics_body ?ws" and buf = pkt]) simp_all
  show ?thesis
    unfolding mjpeg_pack_metrics_def Let_def METRICS_PACKET_SIZE_def
    by (simp only: prod.case option.case start s1 s2 s3 s4 s5 s6 s7 s8 crc last
        metrics_bytes_def sealed_def append_assoc)
qed

lemma metrics_decode_bytes:
  "metrics_decode (metrics_bytes seq ts cam usb qd avg errs @ rest) =
     Inr \<lparr> m_sync_word = METRICS_SYNC_WORD, m_sequence = seq, timestamp_ms = ts,
        camera_frames = cam, usb_packets = usb, action_q_depth = qd, avg_packet_size = avg,
        m_errors = errs, m_reserved = 0,
        crc16 = mjpeg_crc16_ccitt (metrics_bytes seq ts cam usb qd avg errs) 36 \<rparr>"
proof -
  let ?b = "metrics_body [METRICS_SYNC_WORD, seq, ts, cam, usb, qd, avg, errs, 0]"
  let ?p = "metrics_bytes seq ts cam usb qd avg errs @ rest"
  have words: "read_bytes ?p 0 4 = le_bytes 4 METRICS_SYNC_WORD" "read_bytes ?p 4 4 = le_bytes 4 seq"
    "read_bytes ?p 8 4 = le_bytes 4 ts" "read_bytes ?p 12 4 = le_bytes 4 cam"
    "read_bytes ?p 16 4 = le_bytes 4 usb" "read_bytes ?p 20 4 = le_bytes 4 qd"
    "read_bytes ?p 24 4 = le_bytes 4 avg" "read_bytes ?p 28 4 = le_bytes 4 errs"
    "read_bytes ?p 32 4 = le_bytes 4 (0 :: u32)"
    by (simp_all add: metrics_bytes_def sealed_def metrics_body_Cons metrics_body_Nil read_bytes_def
        del: le_bytes.simps)
  have crc: "mjpeg_crc16_ccitt ?p 36 = mjpeg_crc16_ccitt ?b 36"
    "mjpeg_crc16_ccitt (metrics_bytes seq ts cam usb qd avg errs) 36 = mjpeg_crc16_ccitt ?b 36"
    "read_bytes ?p 36 2 = le_bytes 2 (mjpeg_crc16_ccitt ?b 36)"
    by (simp_all add: metrics_bytes_def sealed_def mjpeg_crc16_ccitt_def read_bytes_def)
  show ?thesis
    unfolding metrics_decode_def Let_def
    by (simp add: words crc del: le_bytes.simps)
qed

section \<open>Properties\<close>

section \<open>A stream of frames\<close>

text \<open>
  What the application sends for a sequence of camera buffers (bytes and the size the driver
  reports): each is packed into the same kind of packet buffer with the running sequence number, a
  rejected one is skipped.  \<open>accepted\<close> lists the JPEG images the validation lets through.
\<close>

fun pack_stream :: "bytes \<Rightarrow> u32 \<Rightarrow> (bytes \<times> u32) list \<Rightarrow> bytes" where
  "pack_stream pkt seq [] = []"
| "pack_stream pkt seq ((jpeg, sz) # fs) =
     (case mjpeg_pack_frame (Some jpeg) sz (Some seq) (Some pkt) MJPEG_MAX_PACKET_SIZE of
        Inl e \<Rightarrow> pack_stream pkt seq fs
      | Inr (tot, seq', pkt') \<Rightarrow> take tot pkt' @ pack_stream pkt' seq' fs)"

fun accepted :: "(bytes \<times> u32) list \<Rightarrow> bytes list" where
  "accepted [] = []"
| "accepted ((jpeg, sz) # fs) =
     (case mjpeg_validate_jpeg_data jpeg sz of
        Inl e \<Rightarrow> accepted fs
      | Inr n \<Rightarrow> take (unat n) jpeg # accepted fs)"

primrec numbered :: "u32 \<Rightarrow> bytes list \<Rightarrow> (u32 \<times> bytes) list" where
  "numbered seq [] = []"
| "numbered seq (x # xs) = (seq, x) # numbered (seq + 1) xs"

lemma pack_frame_frame:
  assumes "length pkt = MJPEG_MAX_PACKET_SIZE" "unat sz \<le> length jpeg"
    and "mjpeg_pack_frame (Some jpeg) sz (Some seq) (Some pkt) MJPEG_MAX_PACKET_SIZE = Inr (tot, seq', pkt')"
  shows "\<exists>n. mjpeg_validate_jpeg_data jpeg sz = Inr n \<and> tot \<le> MJPEG_MAX_PACKET_SIZE \<and> seq' = seq + 1 \<and>
    length pkt' = MJPEG_MAX_PACKET_SIZE \<and> take tot pkt' = frame_enc (seq, take (unat n) jpeg) \<and>
    frame_valid (seq, take (unat n) jpeg)"
proof -
  from assms(3) obtain n where v: "mjpeg_validate_jpeg_data jpeg sz = Inr n"
    and r: "tot = 14 + unat n" "tot \<le> MJPEG_MAX_PACKET_SIZE" "seq' = seq + 1"
      "pkt' = mjpeg_store_frame pkt seq jpeg (unat n)"
    by (auto simp: pack_ok_iff)
  note ok = mjpeg_validate_okD [OF v]
  have n: "unat n \<le> length jpeg"
    using ok(1) assms(2) by simp
  have eq: "pkt' = frame_bytes seq (take (unat n) jpeg) @ drop (14 + unat n) pkt"
    unfolding r(4) using n ok(3) assms(1) by (intro mjpeg_store_frame_eq) (simp_all add: mjpeg_consts)
  have "length pkt' = MJPEG_MAX_PACKET_SIZE"
    using n ok(3) assms(1) unfolding eq by (simp add: mjpeg_consts)
  moreover have "take tot pkt' = frame_enc (seq, take (unat n) jpeg)"
    using n r(1) unfolding eq frame_enc_def by simp
  moreover have "frame_valid (seq, take (unat n) jpeg)"
    using n ok(2,3) by (simp add: frame_valid_def)
  ultimately show ?thesis
    using v r(2,3) by blast
qed

lemma pack_stream_frames:
  assumes "length pkt = MJPEG_MAX_PACKET_SIZE" "\<forall>(jpeg, sz) \<in> set fs. unat sz \<le> length jpeg"
  shows "pack_stream pkt seq fs = concat (map frame_enc (numbered seq (accepted fs))) \<and>
    (\<forall>x \<in> set (numbered seq (accepted fs)). frame_valid x)"
  using assms
proof (induction pkt seq fs rule: pack_stream.induct)
  case (1 pkt seq)
  then show ?case by simp
next
  case (2 pkt seq jpeg sz fs)
  note len = "2.prems"(1)
  show ?case
  proof (cases "mjpeg_validate_jpeg_data jpeg sz")
    case (Inl e)
    then have "\<exists>e'. mjpeg_pack_frame (Some jpeg) sz (Some seq) (Some pkt) MJPEG_MAX_PACKET_SIZE = Inl e'"
      using pack_ok_iff [of jpeg sz seq pkt MJPEG_MAX_PACKET_SIZE]
      by (cases "mjpeg_pack_frame (Some jpeg) sz (Some seq) (Some pkt) MJPEG_MAX_PACKET_SIZE") auto
    with 2 Inl show ?thesis
      by auto
  next
    case (Inr n)
    let ?p = "mjpeg_store_frame pkt seq jpeg (unat n)"
    have p: "mjpeg_pack_frame (Some jpeg) sz (Some seq) (Some pkt) MJPEG_MAX_PACKET_SIZE
        = Inr (14 + unat n, seq + 1, ?p)"
      using mjpeg_validate_okD(3) [OF Inr] Inr by (simp add: pack_ok_iff mjpeg_consts)
    have "unat sz \<le> length jpeg"
      using "2.prems"(2) by simp
    from pack_frame_frame [OF len this p] Inr
    have f: "length ?p = MJPEG_MAX_PACKET_SIZE" "take (14 + unat n) ?p = frame_enc (seq, take (unat n) jpeg)"
      "frame_valid (seq, take (unat n) jpeg)"
      by simp_all
    have "pack_stream ?p (seq + 1) fs = concat (map frame_enc (numbered (seq + 1) (accepted fs))) \<and>
        (\<forall>x \<in> set (numbered (seq + 1) (accepted fs)). frame_valid x)"
      using "2.IH"(2) [OF p refl refl f(1)] "2.prems"(2) by simp
    with f(2,3) p Inr show ?thesis
      by simp
  qed
qed

lemma mjpeg_receive_Nil: "frame_parse [] = None"
  by (simp add: frame_parse_def mjpeg_receive_def Let_def read_bytes_def mjpeg_validate_header_def
      MJPEG_SYNC_WORD_def EBADMSG_def)

definition sample_jpeg :: bytes where
  "sample_jpeg = [0xFF, 0xD8, 0xFF, 0xD9, 0x12, 0xFF, 0xD9, 0x00, 0x00]"

lemma sample_validate: "mjpeg_validate_jpeg_data sample_jpeg 9 = Inr 7"
  by (simp add: mjpeg_validate_jpeg_data_def MJPEG_MAX_JPEG_SIZE_def sample_jpeg_def
      eoi_search.simps)

lemma sample_length: "length sample_jpeg = 9" "take 7 sample_jpeg = [0xFF, 0xD8, 0xFF, 0xD9, 0x12, 0xFF, 0xD9]"
  by (simp_all add: sample_jpeg_def)

lemma sample_pack:
  "mjpeg_pack_frame (Some sample_jpeg) 9 (Some 41) (Some (replicate 30 0)) 30
     = Inr (21, 42, mjpeg_store_frame (replicate 30 0) 41 sample_jpeg 7)"
  by (simp add: pack_ok_iff sample_validate)

text \<open>C11: JPEG validation accepts a buffer exactly when its size is between 4 and the 96 KB limit,
  it starts with the SOI marker FF D8 and holds an EOI marker FF D9 inside its size; the size it
  reports ends right after the last EOI marker, so it keeps the whole image and drops all padding.\<close>

theorem mjpeg_validate_spec:
  "mjpeg_validate_jpeg_data d sz = Inr n \<longleftrightarrow>
     4 \<le> unat sz \<and> unat sz \<le> MJPEG_MAX_JPEG_SIZE \<and> d ! 0 = 0xFF \<and> d ! 1 = 0xD8 \<and>
     (\<exists>j. unat n = j + 2 \<and> j + 2 \<le> unat sz \<and> d ! j = 0xFF \<and> d ! (j + 1) = 0xD9 \<and>
        \<not> (\<exists>k > j. k + 2 \<le> unat sz \<and> d ! k = 0xFF \<and> d ! (k + 1) = 0xD9))"
  (is "?L \<longleftrightarrow> ?R")
proof
  assume L: ?L
  note ok = mjpeg_validate_okD [OF L]
  from L have soi: "d ! 0 = 0xFF" "d ! 1 = 0xD8"
    and n: "eoi_search d (unat sz - 2) \<noteq> 0" "n = of_nat (eoi_search d (unat sz - 2))"
    by (auto simp: mjpeg_validate_jpeg_data_def Let_def split: if_splits)
  from n(1) obtain j where j: "eoi_search d (unat sz - 2) = j + 2" "j \<le> unat sz - 2"
    by (metis eoi_search_cases)
  have small: "j + 2 < 2 ^ 32"
    using j(2) ok(4,5) by (simp add: MJPEG_MAX_JPEG_SIZE_def)
  have "unat n = j + 2"
    unfolding n(2) j(1) by (rule unat_of_nat_u32 [OF small])
  moreover have "j + 2 \<le> unat sz"
    using j(2) ok(4) by linarith
  moreover have "eoi_at d j" "\<forall>k. j < k \<and> k \<le> unat sz - 2 \<longrightarrow> \<not> eoi_at d k"
    using j(1) unfolding eoi_search_eq_Suc by blast+
  ultimately show ?R
    using ok(4,5) soi unfolding eoi_at_def by fastforce
next
  assume R: ?R
  then obtain j where j: "unat n = j + 2" "j + 2 \<le> unat sz" "eoi_at d j"
    "\<not> (\<exists>k > j. k + 2 \<le> unat sz \<and> eoi_at d k)"
    unfolding eoi_at_def by blast
  have "eoi_search d (unat sz - 2) = j + 2"
    using R j unfolding eoi_search_eq_Suc by (metis Nat.le_diff_conv2 le_trans add_leD2)
  moreover have "of_nat (j + 2) = n"
    using j(1) [symmetric] by simp
  ultimately show ?L
    using R by (simp add: mjpeg_validate_jpeg_data_def)
qed

text \<open>A frame that packs is laid out exactly as the protocol document says: sync word, sequence
  number, size and JPEG bytes up to the last EOI marker, then the CRC of all of these; the rest of
  the packet buffer is untouched, the size returned counts every byte written, and the sequence
  number advances by one (wrapping at 32 bits).\<close>

lemma mjpeg_pack_frame_layout:
  assumes "mjpeg_pack_frame (Some jpeg) sz (Some seq) (Some pkt) maxsz = Inr (tot, seq', pkt')"
    and "unat sz \<le> length jpeg" and "maxsz \<le> length pkt"
  shows "\<exists>n. mjpeg_validate_jpeg_data jpeg sz = Inr n \<and>
      pkt' = frame_bytes seq (take (unat n) jpeg) @ drop tot pkt \<and>
      tot = length (frame_bytes seq (take (unat n) jpeg)) \<and> tot \<le> maxsz \<and> seq' = seq + 1"
proof -
  from assms(1) obtain n where n: "mjpeg_validate_jpeg_data jpeg sz = Inr n" "tot = 14 + unat n"
    "tot \<le> maxsz" "seq' = seq + 1" "pkt' = mjpeg_store_frame pkt seq jpeg (unat n)"
    by (auto simp: pack_ok_iff)
  from mjpeg_validate_okD(1) [OF n(1)] assms(2) have "unat n \<le> length jpeg"
    by linarith
  with n assms(3) show ?thesis
    by (intro exI [of _ n]) (simp add: mjpeg_store_frame_eq)
qed

text \<open>C10: round trip. The receiver of the protocol document, given the bytes of a packed frame
  followed by anything else, returns the sequence number and exactly the JPEG image up to its last
  EOI marker.\<close>

theorem mjpeg_frame_roundtrip:
  assumes "mjpeg_pack_frame (Some jpeg) sz (Some seq) (Some pkt) maxsz = Inr (tot, seq', pkt')"
    and "mjpeg_validate_jpeg_data jpeg sz = Inr n"
    and "unat sz \<le> length jpeg" and "maxsz \<le> length pkt"
  shows "mjpeg_receive (take tot pkt' @ rest) = Inr (seq, take (unat n) jpeg)"
proof -
  from assms(1,2) have p: "tot = 14 + unat n" "tot \<le> maxsz"
    "pkt' = mjpeg_store_frame pkt seq jpeg (unat n)"
    by (auto simp: pack_ok_iff)
  note ok = mjpeg_validate_okD [OF assms(2)]
  from ok(1) assms(3) have n: "unat n \<le> length jpeg"
    by linarith
  with p assms(4) have "take tot pkt' = frame_bytes seq (take (unat n) jpeg)"
    by (simp add: mjpeg_store_frame_eq)
  moreover have "mjpeg_receive (frame_bytes seq (take (unat n) jpeg) @ rest)
      = Inr (seq, take (unat n) jpeg)"
    using n ok(2,3) by (intro mjpeg_receive_frame) auto
  ultimately show ?thesis
    by simp
qed

theorem mjpeg_frame_roundtrip_witness:
  "mjpeg_receive (take 21 (mjpeg_store_frame (replicate 30 0) 41 sample_jpeg 7) @ [1, 2])
     = Inr (41, [0xFF, 0xD8, 0xFF, 0xD9, 0x12, 0xFF, 0xD9])"
  using mjpeg_frame_roundtrip [OF sample_pack sample_validate, of "[1, 2]"]
  by (simp add: sample_length)

text \<open>With a packet buffer of MJPEG_MAX_PACKET_SIZE bytes, which is what both callers pass,
  packing never fails for lack of space and never reports more bytes than the buffer holds: the only
  failures are an invalid size (EINVAL) and a missing marker (EBADMSG).\<close>

lemma mjpeg_pack_frame_fits:
  "case mjpeg_pack_frame (Some jpeg) sz (Some seq) (Some pkt) MJPEG_MAX_PACKET_SIZE of
     Inl e \<Rightarrow> e \<in> {- EINVAL, - EBADMSG}
   | Inr (tot, seq', pkt') \<Rightarrow> 16 \<le> tot \<and> tot \<le> MJPEG_MAX_PACKET_SIZE"
proof (cases "mjpeg_validate_jpeg_data jpeg sz")
  case (Inl e)
  then have "e \<in> {- EINVAL, - EBADMSG}"
    by (auto simp: mjpeg_validate_jpeg_data_def Let_def split: if_splits)
  with Inl show ?thesis
    by (auto simp: mjpeg_pack_frame_def)
next
  case (Inr n)
  note ok = mjpeg_validate_okD [OF Inr]
  then have "14 + unat n \<le> MJPEG_MAX_PACKET_SIZE"
    by (simp add: mjpeg_consts)
  with ok have "mjpeg_pack_frame (Some jpeg) sz (Some seq) (Some pkt) MJPEG_MAX_PACKET_SIZE
      = Inr (14 + unat n, seq + 1, mjpeg_store_frame pkt seq jpeg (unat n))"
    using Inr by (subst pack_ok_iff) auto
  with ok \<open>14 + unat n \<le> _\<close> show ?thesis
    by simp
qed


text \<open>C12: burst detection. If the JPEG bytes of a packet are corrupted within any window of at most
  16 consecutive bits, wherever it lies, the receiver of the protocol document rejects the packet
  with a checksum error.\<close>

theorem mjpeg_burst_rejected:
  assumes "message_bits jpeg = pre @ e @ post" and "message_bits bad = pre @ f @ post"
    and "length e = length f" and "length e \<le> 16" and "e \<noteq> f"
    and "length bad = length jpeg" and "0 < length jpeg" and "length jpeg \<le> MJPEG_MAX_JPEG_SIZE"
  shows "mjpeg_receive (take 12 (frame_bytes seq jpeg) @ bad @ drop (12 + length jpeg) (frame_bytes seq jpeg))
    = Inl (- EBADMSG)"
proof -
  let ?h = "frame_hdr seq (length jpeg)"
  let ?c = "foldl crc_byte 0xFFFF (?h @ jpeg)"
  have "take 12 (frame_bytes seq jpeg) @ bad @ drop (12 + length jpeg) (frame_bytes seq jpeg)
      = ?h @ bad @ le_bytes 2 ?c @ []"
    by (simp add: frame_bytes_def sealed_def frame_body_def mjpeg_crc16_ccitt_def)
  moreover have "foldl crc_byte 0xFFFF (?h @ bad) \<noteq> ?c"
    unfolding foldl_append using crc_burst [OF assms(1-5)] by metis
  ultimately show ?thesis
    using assms(7,8) by (simp only: mjpeg_receive_hdr [OF assms(6)] if_False)
qed

theorem mjpeg_burst_rejected_witness:
  "mjpeg_receive (take 12 (frame_bytes 3 [0xFF, 0xD8]) @ [0xFF, 0xD9]
       @ drop (12 + length [0xFF :: u8, 0xD8]) (frame_bytes 3 [0xFF, 0xD8])) = Inl (- EBADMSG)"
proof (rule mjpeg_burst_rejected)
  show "message_bits [0xFF, 0xD8] = replicate 8 True @ byte_bits 0xD8 @ []"
    "message_bits [0xFF, 0xD9] = replicate 8 True @ byte_bits 0xD9 @ []"
    "byte_bits 0xD8 \<noteq> byte_bits 0xD9"
    by code_simp+
qed (simp_all add: byte_bits_def MJPEG_MAX_JPEG_SIZE_def)

text \<open>Round trip of a metrics packet. Packing succeeds with 38 bytes and advances the sequence
  number; the first 38 bytes decode, with a matching checksum, to exactly the values given, reserved
  field 0; no byte after them is touched.\<close>

lemma mjpeg_metrics_roundtrip:
  assumes "METRICS_PACKET_SIZE \<le> length pkt"
  shows "\<exists>pkt' c. mjpeg_pack_metrics ts cam usb qd avg errs (Some seq) (Some pkt)
      = Inr (METRICS_PACKET_SIZE, seq + 1, pkt') \<and>
    drop METRICS_PACKET_SIZE pkt' = drop METRICS_PACKET_SIZE pkt \<and>
    metrics_decode pkt' =
      Inr \<lparr> m_sync_word = METRICS_SYNC_WORD, m_sequence = seq, timestamp_ms = ts,
        camera_frames = cam, usb_packets = usb, action_q_depth = qd, avg_packet_size = avg,
        m_errors = errs, m_reserved = 0, crc16 = c \<rparr>"
proof (intro exI conjI)
  let ?p = "metrics_bytes seq ts cam usb qd avg errs @ drop 38 pkt"
  show "mjpeg_pack_metrics ts cam usb qd avg errs (Some seq) (Some pkt)
      = Inr (METRICS_PACKET_SIZE, seq + 1, ?p)"
    using mjpeg_pack_metrics_eq [OF assms] by (simp add: METRICS_PACKET_SIZE_def)
  show "drop METRICS_PACKET_SIZE ?p = drop METRICS_PACKET_SIZE pkt"
    by (simp add: METRICS_PACKET_SIZE_def)
qed (rule metrics_decode_bytes)

text \<open>C9: a receiver that parses the byte stream the sender produces for any sequence of camera buffers
  gets back exactly the images the validation accepts, in order, numbered consecutively from the
  initial sequence number with no gap for the rejected buffers, and no byte is left over.\<close>

theorem mjpeg_stream_received:
  assumes "length pkt = MJPEG_MAX_PACKET_SIZE" "\<forall>(jpeg, sz) \<in> set fs. unat sz \<le> length jpeg"
  shows "parse_stream frame_parse (pack_stream pkt seq fs) = (numbered seq (accepted fs), [])"
  using pack_stream_frames [OF assms, of seq] mjpeg_receive_Nil
    mjpeg.parse_stream_frames [of "numbered seq (accepted fs)" "[]"] by simp

theorem mjpeg_stream_received_witness:
  "parse_stream frame_parse (pack_stream (replicate MJPEG_MAX_PACKET_SIZE 0) 41
       [(sample_jpeg, 9), ([1, 2, 3, 4], 4), (sample_jpeg, 9)])
     = ([(41, take 7 sample_jpeg), (42, take 7 sample_jpeg)], [])"
proof -
  have "mjpeg_validate_jpeg_data [1, 2, 3, 4] 4 = Inl (- EBADMSG)"
    by (simp add: mjpeg_validate_jpeg_data_def MJPEG_MAX_JPEG_SIZE_def)
  then show ?thesis
    using mjpeg_stream_received [of "replicate MJPEG_MAX_PACKET_SIZE 0"
        "[(sample_jpeg, 9), ([1, 2, 3, 4], 4), (sample_jpeg, 9)]" 41]
    by (simp add: sample_length sample_validate)
qed

end
