(* ===== verification/FrameQueue.thy ===== *)
theory FrameQueue
  imports Config "HOL-Library.Monad_Syntax"
begin

section \<open>The frame queues and their buffer pool (frame_queue.c)\<close>

text \<open>
  Two singly linked lists of \<open>frame_buffer_t\<close> structures, threaded through the structures' \<open>next\<close>
  fields: the action queue (filled frames, camera to USB) and the empty queue (recycled buffers,
  USB to camera).  The structures live in one malloc'ed array, each owning an aligned data block.

  Memory is explicit, because the queues share structures and the code mutates them in place: a
  structure heap from addresses to structures and a block store from addresses to bytes.  A pointer
  is an optional address, \<open>None\<close> being NULL.  Every operation that dereferences a pointer returns an
  option: \<open>None\<close> is an access to memory that is not allocated (or a freed block), or a list walk
  that never ends.  The theorems show where it is \<open>Some\<close>.
\<close>

subsection \<open>State\<close>

type_synonym ptr = "nat option"

record frame_buffer =
  fb_data :: ptr
  fb_length :: u32
  fb_used :: u32
  fb_id :: int
  fb_next :: ptr

type_synonym fheap = "nat \<rightharpoonup> frame_buffer"

record fq_state =
  fq_heap :: fheap
  fq_blocks :: "nat \<rightharpoonup> bytes"
  g_buffer_pool :: ptr
  g_buffer_pool_size :: int
  g_action_queue :: ptr
  g_empty_queue :: ptr
  g_shutdown_requested :: bool
  g_queue_mutex_ready :: bool
  g_queue_cond_ready :: bool

definition MAX_QUEUE_DEPTH :: int where "MAX_QUEUE_DEPTH = 3"

subsection \<open>Queue operations\<close>

text \<open>The walk to the tail: \<open>while (current->next != NULL) current = current->next\<close>.\<close>

partial_function (option) find_tail :: "fheap \<Rightarrow> nat \<Rightarrow> nat option" where
  "find_tail h p =
     do { b \<leftarrow> h p;
          case fb_next b of None \<Rightarrow> Some p | Some q \<Rightarrow> find_tail h q }"

definition frame_queue_push :: "fheap \<Rightarrow> ptr \<Rightarrow> ptr \<Rightarrow> (fheap \<times> ptr) option" where
  "frame_queue_push h queue buf =
     (case buf of
        None \<Rightarrow> Some (h, queue)
      | Some b \<Rightarrow>
          do { fb \<leftarrow> h b;
               let h1 = h(b \<mapsto> fb\<lparr>fb_next := None\<rparr>);
               case queue of
                 None \<Rightarrow> Some (h1, Some b)
               | Some q \<Rightarrow>
                   do { t \<leftarrow> find_tail h1 q;
                        tb \<leftarrow> h1 t;
                        Some (h1(t \<mapsto> tb\<lparr>fb_next := Some b\<rparr>), queue) } })"

definition frame_queue_pull :: "fheap \<Rightarrow> ptr \<Rightarrow> (fheap \<times> ptr \<times> ptr) option" where
  "frame_queue_pull h queue =
     (case queue of
        None \<Rightarrow> Some (h, None, None)
      | Some b \<Rightarrow>
          do { fb \<leftarrow> h b;
               Some (h(b \<mapsto> fb\<lparr>fb_next := None\<rparr>), fb_next fb, Some b) })"

definition frame_queue_is_empty :: "ptr \<Rightarrow> bool" where
  "frame_queue_is_empty queue = (queue = None)"

partial_function (option) depth_loop :: "fheap \<Rightarrow> ptr \<Rightarrow> int \<Rightarrow> int option" where
  "depth_loop h current count =
     (case current of
        None \<Rightarrow> Some count
      | Some p \<Rightarrow> do { b \<leftarrow> h p; depth_loop h (fb_next b) (count + 1) })"

definition frame_queue_depth :: "fheap \<Rightarrow> ptr \<Rightarrow> int option" where
  "frame_queue_depth h queue = depth_loop h queue 0"

subsection \<open>Initialisation and clean-up of the queue system\<close>

text \<open>
  The results of the pthread calls are arguments: \<open>r_attr\<close>, \<open>r_proto\<close>, \<open>r_mutex\<close> and \<open>r_cond\<close> are
  what \<open>pthread_mutexattr_init\<close>, \<open>pthread_mutexattr_setprotocol\<close>, \<open>pthread_mutex_init\<close> and
  \<open>pthread_cond_init\<close> return (0 on success).  A failing \<open>setprotocol\<close> is tolerated, so \<open>r_proto\<close>
  does not influence the result.
\<close>

definition frame_queue_init :: "int \<Rightarrow> int \<Rightarrow> int \<Rightarrow> int \<Rightarrow> fq_state \<Rightarrow> int \<times> fq_state" where
  "frame_queue_init r_attr r_proto r_mutex r_cond s =
     (let s1 = s\<lparr>g_action_queue := None, g_empty_queue := None, g_shutdown_requested := False\<rparr>
      in if r_attr \<noteq> 0 then (- r_attr, s1)
         else if r_mutex \<noteq> 0 then (- r_mutex, s1)
         else let s2 = s1\<lparr>g_queue_mutex_ready := True\<rparr>
              in if r_cond \<noteq> 0 then (- r_cond, s2\<lparr>g_queue_mutex_ready := False\<rparr>)
                 else (0, s2\<lparr>g_queue_cond_ready := True\<rparr>))"

text \<open>\<open>free\<close> of a data block: NULL is ignored, a block that is not allocated is an error.\<close>

definition free_block :: "ptr \<Rightarrow> fq_state \<Rightarrow> fq_state option" where
  "free_block p s =
     (case p of
        None \<Rightarrow> Some s
      | Some a \<Rightarrow>
          if fq_blocks s a = None then None
          else Some (s\<lparr>fq_blocks := (fq_blocks s)(a := None)\<rparr>))"

text \<open>\<open>free\<close> of the structure array at \<open>base\<close> with \<open>n\<close> elements.\<close>

definition free_pool_array :: "nat \<Rightarrow> nat \<Rightarrow> fq_state \<Rightarrow> fq_state" where
  "free_pool_array base n s =
     s\<lparr>fq_heap := (\<lambda>a. if base \<le> a \<and> a < base + n then None else fq_heap s a)\<rparr>"

text \<open>The loop of \<open>frame_queue_free_buffers\<close> over the indices \<open>i, i + 1, \<dots>\<close>.\<close>

fun free_data_loop :: "nat \<Rightarrow> nat list \<Rightarrow> fq_state \<Rightarrow> fq_state option" where
  "free_data_loop base [] s = Some s"
| "free_data_loop base (i # is) s =
     do { fb \<leftarrow> fq_heap s (base + i);
          s1 \<leftarrow> free_block (fb_data fb) s;
          free_data_loop base is
            (s1\<lparr>fq_heap := (fq_heap s1)(base + i \<mapsto> fb\<lparr>fb_data := None\<rparr>)\<rparr>) }"

definition frame_queue_free_buffers :: "fq_state \<Rightarrow> fq_state option" where
  "frame_queue_free_buffers s =
     (case g_buffer_pool s of
        None \<Rightarrow> Some s
      | Some base \<Rightarrow>
          do { s1 \<leftarrow> free_data_loop base [0..<nat (g_buffer_pool_size s)] s;
               let s2 = free_pool_array base (nat (g_buffer_pool_size s)) s1;
               Some (s2\<lparr>g_buffer_pool := None, g_buffer_pool_size := 0\<rparr>) })"

definition frame_queue_cleanup :: "fq_state \<Rightarrow> fq_state option" where
  "frame_queue_cleanup s =
     do { s1 \<leftarrow> frame_queue_free_buffers (s\<lparr>g_shutdown_requested := True\<rparr>);
          Some (s1\<lparr>g_queue_cond_ready := False, g_queue_mutex_ready := False,
                  g_action_queue := None, g_empty_queue := None\<rparr>) }"

subsection \<open>Allocation of the buffer pool\<close>

text \<open>
  \<open>malloc\<close> of the structure array gives \<open>pool_addr\<close>, and the \<open>i\<close>-th \<open>memalign(32, buffer_size)\<close> gives
  \<open>align i\<close>: an address and the block's (unspecified) initial contents, or \<open>None\<close>.
\<close>

definition zero_buffer :: frame_buffer where
  "zero_buffer = \<lparr>fb_data = None, fb_length = 0, fb_used = 0, fb_id = 0, fb_next = None\<rparr>"

text \<open>\<open>while (--i >= 0) free(g_buffer_pool[i].data)\<close>\<close>

fun free_down :: "nat \<Rightarrow> nat \<Rightarrow> fq_state \<Rightarrow> fq_state option" where
  "free_down base 0 s = Some s"
| "free_down base (Suc i) s =
     do { fb \<leftarrow> fq_heap s (base + i);
          s1 \<leftarrow> free_block (fb_data fb) s;
          free_down base i s1 }"

text \<open>
  The allocation loop from index \<open>i\<close> with \<open>k\<close> iterations left; \<open>Inl\<close> is the early return after the
  blocks and the array have been given back.
\<close>

fun alloc_loop ::
  "(nat \<Rightarrow> (nat \<times> bytes) option) \<Rightarrow> u32 \<Rightarrow> nat \<Rightarrow> nat \<Rightarrow> nat \<Rightarrow> fq_state
     \<Rightarrow> (fq_state + fq_state) option" where
  "alloc_loop align bsize base i 0 s = Some (Inr s)"
| "alloc_loop align bsize base i (Suc k) s =
     (case align i of
        None \<Rightarrow>
          do { s1 \<leftarrow> free_down base i s;
               let s2 = free_pool_array base (nat (g_buffer_pool_size s1)) s1;
               Some (Inl (s2\<lparr>g_buffer_pool := None, g_buffer_pool_size := 0\<rparr>)) }
      | Some (a, c) \<Rightarrow>
          do { fb \<leftarrow> fq_heap s (base + i);
               alloc_loop align bsize base (Suc i) k
                 (s\<lparr>fq_blocks := (fq_blocks s)(a \<mapsto> c),
                    fq_heap := (fq_heap s)(base + i \<mapsto>
                      \<lparr>fb_data = Some a, fb_length = bsize, fb_used = 0, fb_id = int i,
                       fb_next = None\<rparr>)\<rparr>) })"

fun push_all :: "nat \<Rightarrow> nat list \<Rightarrow> fq_state \<Rightarrow> fq_state option" where
  "push_all base [] s = Some s"
| "push_all base (i # is) s =
     do { (h, q) \<leftarrow> frame_queue_push (fq_heap s) (g_empty_queue s) (Some (base + i));
          push_all base is (s\<lparr>fq_heap := h, g_empty_queue := q\<rparr>) }"

definition frame_queue_allocate_buffers ::
  "ptr \<Rightarrow> (nat \<Rightarrow> (nat \<times> bytes) option) \<Rightarrow> u32 \<Rightarrow> int \<Rightarrow> fq_state \<Rightarrow> (int \<times> fq_state) option" where
  "frame_queue_allocate_buffers pool_addr align buffer_size buffer_count s =
     (if buffer_count \<le> 0 \<or> buffer_size = 0 then Some (- EINVAL, s)
      else case pool_addr of
        None \<Rightarrow> Some (- ENOMEM, s\<lparr>g_buffer_pool := None\<rparr>)
      | Some base \<Rightarrow>
          (let n = nat buffer_count;
               s1 = s\<lparr>g_buffer_pool := Some base, g_buffer_pool_size := buffer_count,
                      fq_heap := (\<lambda>a. if base \<le> a \<and> a < base + n then Some zero_buffer
                                      else fq_heap s a)\<rparr>
           in do { r \<leftarrow> alloc_loop align buffer_size base 0 n s1;
                   case r of
                     Inl s2 \<Rightarrow> Some (- ENOMEM, s2)
                   | Inr s2 \<Rightarrow> do { s3 \<leftarrow> push_all base [0..<n] s2; Some (0, s3) } }))"

section \<open>The queue contract\<close>

text \<open>
  What the threads rely on: each queue behaves as a FIFO list, operations on one queue leave a queue
  with other members alone, and no operation changes what a buffer carries.  The clients' lemmas on
  two queues that share the heap are proved once, from the contract.
\<close>

locale shared_fifo =
  fixes push :: "'h \<Rightarrow> 'q \<Rightarrow> 'b option \<Rightarrow> ('h \<times> 'q) option"
    and pull :: "'h \<Rightarrow> 'q \<Rightarrow> ('h \<times> 'q \<times> 'b option) option"
    and is_empty :: "'q \<Rightarrow> bool"
    and depth :: "'h \<Rightarrow> 'q \<Rightarrow> int option"
    and rep :: "'h \<Rightarrow> 'q \<Rightarrow> 'b list \<Rightarrow> bool"
    and view :: "'h \<Rightarrow> 'b \<Rightarrow> 'v option"
  assumes rep_distinct: "rep h q xs \<Longrightarrow> distinct xs"
    and rep_live: "rep h q xs \<Longrightarrow> b \<in> set xs \<Longrightarrow> view h b \<noteq> None"
    and is_empty_rep: "rep h q xs \<Longrightarrow> is_empty q \<longleftrightarrow> xs = []"
    and depth_rep: "rep h q xs \<Longrightarrow> depth h q = Some (int (length xs))"
    and push_rep: "rep h q xs \<Longrightarrow> view h b \<noteq> None \<Longrightarrow> b \<notin> set xs \<Longrightarrow>
      \<exists>h' q'. push h q (Some b) = Some (h', q') \<and> rep h' q' (xs @ [b]) \<and> view h' = view h \<and>
        (\<forall>q2 ys. rep h q2 ys \<longrightarrow> set ys \<inter> insert b (set xs) = {} \<longrightarrow> rep h' q2 ys)"
    and pull_rep: "rep h q (b # xs) \<Longrightarrow>
      \<exists>h' q'. pull h q = Some (h', q', Some b) \<and> rep h' q' xs \<and> view h' = view h \<and>
        (\<forall>q2 ys. rep h q2 ys \<longrightarrow> b \<notin> set ys \<longrightarrow> rep h' q2 ys)"
    and pull_rep_empty: "rep h q [] \<Longrightarrow> pull h q = Some (h, q, None)"
begin

lemma push_beside:
  assumes "rep h q xs" "rep h q2 ys" "set xs \<inter> set ys = {}"
    and "view h b \<noteq> None" "b \<notin> set xs" "b \<notin> set ys"
  obtains h' q' where "push h q (Some b) = Some (h', q')" "rep h' q' (xs @ [b])" "rep h' q2 ys"
    "view h' = view h"
proof -
  from push_rep [OF assms(1,4,5)] obtain h' q' where *: "push h q (Some b) = Some (h', q')"
    "rep h' q' (xs @ [b])" "view h' = view h"
    "\<And>q2 ys. rep h q2 ys \<Longrightarrow> set ys \<inter> insert b (set xs) = {} \<Longrightarrow> rep h' q2 ys"
    by blast
  have "rep h' q2 ys"
    using assms by (intro *(4)) auto
  with * show thesis
    by (intro that)
qed

lemma pull_beside:
  assumes "rep h q (b # xs)" "rep h q2 ys" "b \<notin> set ys"
  obtains h' q' where "pull h q = Some (h', q', Some b)" "rep h' q' xs" "rep h' q2 ys"
    "view h' = view h"
  using pull_rep [OF assms(1)] assms(2,3) that by blast

lemma recycle:
  assumes "rep h q (b # xs)"
  shows "\<exists>h1 q1 h2 q2. pull h q = Some (h1, q1, Some b) \<and> push h1 q1 (Some b) = Some (h2, q2) \<and>
    rep h2 q2 (xs @ [b]) \<and> view h2 = view h"
proof -
  from pull_rep [OF assms] obtain h1 q1 where 1: "pull h q = Some (h1, q1, Some b)" "rep h1 q1 xs"
    "view h1 = view h"
    by blast
  have "view h1 b \<noteq> None" "b \<notin> set xs"
    using rep_live [OF assms] rep_distinct [OF assms] 1(3) by auto
  from push_rep [OF 1(2) this] 1 show ?thesis
    by (metis (no_types))
qed

end

section \<open>The linked list implements the contract\<close>

primrec qseg :: "fheap \<Rightarrow> ptr \<Rightarrow> nat list \<Rightarrow> bool" where
  "qseg h p [] = (p = None)"
| "qseg h p (x # xs) = (p = Some x \<and> (\<exists>b. h x = Some b \<and> qseg h (fb_next b) xs))"

definition is_queue :: "fheap \<Rightarrow> ptr \<Rightarrow> nat list \<Rightarrow> bool" where
  "is_queue h p xs \<longleftrightarrow> qseg h p xs \<and> distinct xs"

text \<open>What a buffer carries, apart from its link.\<close>

definition payload :: "fheap \<Rightarrow> nat \<Rightarrow> (ptr \<times> u32 \<times> u32 \<times> int) option" where
  "payload h a = map_option (\<lambda>b. (fb_data b, fb_length b, fb_used b, fb_id b)) (h a)"

lemma payload_relink: "h a = Some b \<Longrightarrow> payload (h(a \<mapsto> b\<lparr>fb_next := p\<rparr>)) = payload h"
  by (auto simp: payload_def)

lemma payload_None [simp]: "payload h a = None \<longleftrightarrow> h a = None"
  by (simp add: payload_def)

lemma qseg_update_other: "a \<notin> set xs \<Longrightarrow> qseg (h(a := v)) p xs = qseg h p xs"
  by (induction xs arbitrary: p) auto

lemma qseg_live: "qseg h p xs \<Longrightarrow> x \<in> set xs \<Longrightarrow> \<exists>b. h x = Some b"
  by (induction xs arbitrary: p) auto

lemma find_tail_qseg: "qseg h (Some p) xs \<Longrightarrow> find_tail h p = Some (last xs)"
proof (induction xs arbitrary: p)
  case Nil
  then show ?case by simp
next
  case (Cons x xs)
  then obtain b where b: "p = x" "h x = Some b" "qseg h (fb_next b) xs"
    by auto
  show ?case
  proof (cases "fb_next b")
    case None
    then have "xs = []"
      using b(3) by (cases xs) auto
    with b None show ?thesis
      by (simp add: find_tail.simps)
  next
    case (Some q)
    then have "xs \<noteq> []" "find_tail h q = Some (last xs)"
      using b(3) Cons.IH by auto
    with b Some show ?thesis
      by (simp add: find_tail.simps [of h x])
  qed
qed

lemma qseg_link_tail:
  assumes "qseg h p xs" "xs \<noteq> []" "distinct xs" "b \<notin> set xs"
    and "h b = Some fb" "fb_next fb = None" "h (last xs) = Some tb"
  shows "qseg (h(last xs \<mapsto> tb\<lparr>fb_next := Some b\<rparr>)) p (xs @ [b])"
  using assms
proof (induction xs arbitrary: p)
  case Nil
  then show ?case by simp
next
  case (Cons x xs)
  show ?case
  proof (cases "xs = []")
    case True
    with Cons.prems show ?thesis
      by auto
  next
    case False
    with Cons.prems have "x \<noteq> last xs"
      by (metis distinct.simps(2) last_in_set)
    with False Cons show ?thesis
      by auto
  qed
qed

lemma frame_queue_push_rep:
  assumes "is_queue h q xs" "payload h b \<noteq> None" "b \<notin> set xs"
  shows "\<exists>h' q'. frame_queue_push h q (Some b) = Some (h', q') \<and> is_queue h' q' (xs @ [b]) \<and>
    payload h' = payload h \<and>
    (\<forall>q2 ys. is_queue h q2 ys \<longrightarrow> set ys \<inter> insert b (set xs) = {} \<longrightarrow> is_queue h' q2 ys)"
proof -
  from assms obtain fb where fb: "h b = Some fb"
    by auto
  let ?h1 = "h(b \<mapsto> fb\<lparr>fb_next := None\<rparr>)"
  have q: "qseg h q xs" "distinct xs"
    using assms(1) by (auto simp: is_queue_def)
  have q1: "qseg ?h1 q xs"
    using q assms(3) by (simp add: qseg_update_other)
  have pl1: "payload ?h1 = payload h"
    using fb by (rule payload_relink)
  show ?thesis
  proof (cases q)
    case None
    then have "xs = []"
      using q(1) by (cases xs) auto
    with None fb pl1 show ?thesis
      by (auto simp: frame_queue_push_def is_queue_def qseg_update_other)
  next
    case (Some p)
    then have ne: "xs \<noteq> []"
      using q(1) by (cases xs) auto
    then have last: "last xs \<in> set xs"
      by simp
    with q1 obtain tb where tb: "?h1 (last xs) = Some tb"
      by (metis qseg_live)
    let ?h2 = "?h1(last xs \<mapsto> tb\<lparr>fb_next := Some b\<rparr>)"
    have "find_tail ?h1 p = Some (last xs)"
      using q1 Some by (simp add: find_tail_qseg)
    then have push: "frame_queue_push h q (Some b) = Some (?h2, q)"
      using Some fb tb by (simp add: frame_queue_push_def Let_def)
    have "qseg ?h2 q (xs @ [b])"
      using q1 ne q(2) assms(3) tb by (intro qseg_link_tail) auto
    moreover have "payload ?h2 = payload h"
      using payload_relink [of ?h1 "last xs" tb] tb pl1 by simp
    moreover have "qseg ?h2 q2 ys" if "qseg h q2 ys" "set ys \<inter> insert b (set xs) = {}" for q2 ys
    proof -
      have "last xs \<notin> set ys" "b \<notin> set ys"
        using that(2) last by auto
      with that(1) show ?thesis
        by (simp add: qseg_update_other)
    qed
    ultimately show ?thesis
      using push q(2) assms(3) by (auto simp: is_queue_def)
  qed
qed

lemma frame_queue_pull_rep:
  assumes "is_queue h q (b # xs)"
  shows "\<exists>h' q'. frame_queue_pull h q = Some (h', q', Some b) \<and> is_queue h' q' xs \<and>
    payload h' = payload h \<and>
    (\<forall>q2 ys. is_queue h q2 ys \<longrightarrow> b \<notin> set ys \<longrightarrow> is_queue h' q2 ys)"
  using assms
  by (auto simp: is_queue_def frame_queue_pull_def qseg_update_other payload_relink)

lemma depth_loop_qseg: "qseg h p xs \<Longrightarrow> depth_loop h p c = Some (c + int (length xs))"
proof (induction xs arbitrary: p c)
  case Nil
  then show ?case by (simp add: depth_loop.simps)
next
  case (Cons x xs)
  then obtain b where b: "p = Some x" "h x = Some b" "qseg h (fb_next b) xs"
    by auto
  with Cons.IH [OF b(3), of "c + 1"] show ?case
    by (subst depth_loop.simps) simp
qed

interpretation fq: shared_fifo frame_queue_push frame_queue_pull frame_queue_is_empty
  frame_queue_depth is_queue payload
proof unfold_locales
  fix h :: fheap and q xs b
  show "is_queue h q xs \<Longrightarrow> distinct xs"
    by (simp add: is_queue_def)
  show "is_queue h q xs \<Longrightarrow> b \<in> set xs \<Longrightarrow> payload h b \<noteq> None"
    by (auto simp: is_queue_def dest: qseg_live)
  show "is_queue h q xs \<Longrightarrow> frame_queue_is_empty q \<longleftrightarrow> xs = []"
    by (cases xs) (auto simp: is_queue_def frame_queue_is_empty_def)
  show "is_queue h q xs \<Longrightarrow> frame_queue_depth h q = Some (int (length xs))"
    using depth_loop_qseg [of h q xs 0] by (simp add: is_queue_def frame_queue_depth_def)
  show "is_queue h q [] \<Longrightarrow> frame_queue_pull h q = Some (h, q, None)"
    by (simp add: is_queue_def frame_queue_pull_def)
qed (fact frame_queue_push_rep frame_queue_pull_rep)+

section \<open>Memory: the pool owns its blocks\<close>

text \<open>
  \<open>holds s base as i\<close>: element \<open>i\<close> of the structure array at \<open>base\<close> owns the allocated block
  \<open>as ! i\<close>.  \<open>pool_owns\<close> says so of every element.
\<close>

definition holds :: "fq_state \<Rightarrow> nat \<Rightarrow> nat list \<Rightarrow> nat \<Rightarrow> bool" where
  "holds s base as i \<longleftrightarrow>
     (\<exists>fb. fq_heap s (base + i) = Some fb \<and> fb_data fb = Some (as ! i)) \<and>
     fq_blocks s (as ! i) \<noteq> None"

definition pool_owns :: "fq_state \<Rightarrow> nat \<Rightarrow> nat list \<Rightarrow> bool" where
  "pool_owns s base as \<longleftrightarrow> g_buffer_pool s = Some base \<and>
     g_buffer_pool_size s = int (length as) \<and> distinct as \<and> (\<forall>i < length as. holds s base as i)"

definition pool_addrs :: "nat \<Rightarrow> nat \<Rightarrow> nat set" where
  "pool_addrs base n = {base..<base + n}"

lemma free_block_Some: "fq_blocks s a \<noteq> None \<Longrightarrow>
    free_block (Some a) s = Some (s\<lparr>fq_blocks := (fq_blocks s)(a := None)\<rparr>)"
  by (simp add: free_block_def)

lemma free_data_loop_ok:
  "distinct is \<Longrightarrow> distinct as \<Longrightarrow> \<forall>i \<in> set is. i < length as \<and> holds s base as i \<Longrightarrow>
   \<exists>h. free_data_loop base is s =
       Some (s\<lparr>fq_heap := h, fq_blocks := fq_blocks s |` (- (!) as ` set is)\<rparr>) \<and>
     (\<forall>a. a \<notin> (+) base ` set is \<longrightarrow> h a = fq_heap s a)"
proof (induction "is" arbitrary: s)
  case Nil
  then show ?case
    by (intro exI [of _ "fq_heap s"]) simp
next
  case (Cons i "is")
  from Cons.prems obtain fb where fb: "fq_heap s (base + i) = Some fb" "fb_data fb = Some (as ! i)"
    "fq_blocks s (as ! i) \<noteq> None"
    by (auto simp: holds_def)
  let ?s = "s\<lparr>fq_blocks := (fq_blocks s)(as ! i := None),
      fq_heap := (fq_heap s)(base + i \<mapsto> fb\<lparr>fb_data := None\<rparr>)\<rparr>"
  have "as ! j \<noteq> as ! i" if "j \<in> set is" for j
    using Cons.prems that by (auto simp: nth_eq_iff_index_eq)
  then have "\<forall>j \<in> set is. j < length as \<and> holds ?s base as j"
    using Cons.prems by (auto simp: holds_def)
  moreover have "distinct is"
    using Cons.prems(1) by simp
  ultimately obtain h where h:
    "free_data_loop base is ?s =
       Some (?s\<lparr>fq_heap := h, fq_blocks := fq_blocks ?s |` (- (!) as ` set is)\<rparr>)"
    "\<forall>a. a \<notin> (+) base ` set is \<longrightarrow> h a = fq_heap ?s a"
    using Cons.IH [of ?s] Cons.prems(2) by blast
  have blocks: "fq_blocks ?s |` (- (!) as ` set is) = fq_blocks s |` (- (!) as ` set (i # is))"
    by (auto simp: restrict_map_def fun_eq_iff)
  have "free_data_loop base (i # is) s = free_data_loop base is ?s"
    using fb by (auto simp: free_block_def)
  with h blocks show ?case
    by (intro exI [of _ h]) auto
qed

lemma free_down_ok:
  "distinct as \<Longrightarrow> k \<le> length as \<Longrightarrow> \<forall>i < k. holds s base as i \<Longrightarrow>
   free_down base k s = Some (s\<lparr>fq_blocks := fq_blocks s |` (- (!) as ` {..<k})\<rparr>)"
proof (induction k arbitrary: s)
  case 0
  then show ?case by simp
next
  case (Suc k)
  from Suc.prems obtain fb where fb: "fq_heap s (base + k) = Some fb" "fb_data fb = Some (as ! k)"
    "fq_blocks s (as ! k) \<noteq> None"
    by (auto simp: holds_def)
  let ?s = "s\<lparr>fq_blocks := (fq_blocks s)(as ! k := None)\<rparr>"
  have "as ! j \<noteq> as ! k" if "j < k" for j
    using Suc.prems that by (auto simp: nth_eq_iff_index_eq)
  then have "\<forall>i < k. holds ?s base as i"
    using Suc.prems by (auto simp: holds_def)
  with Suc have "free_down base k ?s = Some (?s\<lparr>fq_blocks := fq_blocks ?s |` (- (!) as ` {..<k})\<rparr>)"
    by simp
  moreover have "fq_blocks ?s |` (- (!) as ` {..<k}) = fq_blocks s |` (- (!) as ` {..<Suc k})"
    by (auto simp: restrict_map_def fun_eq_iff less_Suc_eq)
  ultimately show ?case
    using fb by (auto simp: free_block_def)
qed

lemma frame_queue_free_buffers_ok:
  assumes "pool_owns s base as"
  shows "\<exists>h. frame_queue_free_buffers s =
      Some (s\<lparr>fq_heap := h, fq_blocks := fq_blocks s |` (- set as), g_buffer_pool := None,
              g_buffer_pool_size := 0\<rparr>) \<and>
    h = fq_heap s |` (- pool_addrs base (length as))"
proof -
  let ?n = "length as"
  have "\<forall>i \<in> set [0..<?n]. i < ?n \<and> holds s base as i" "distinct as"
    and pool: "g_buffer_pool s = Some base" "g_buffer_pool_size s = int ?n"
    using assms by (auto simp: pool_owns_def)
  from free_data_loop_ok [OF distinct_upt this(2,1)] obtain h where h:
    "free_data_loop base [0..<?n] s =
       Some (s\<lparr>fq_heap := h, fq_blocks := fq_blocks s |` (- (!) as ` set [0..<?n])\<rparr>)"
    "\<forall>a. a \<notin> (+) base ` set [0..<?n] \<longrightarrow> h a = fq_heap s a"
    by blast
  have as: "(!) as ` set [0..<?n] = set as"
    by (simp add: nth_image)
  have addrs: "(+) base ` set [0..<?n] = pool_addrs base ?n"
    by (simp add: pool_addrs_def add.commute)
  have "(\<lambda>a. if base \<le> a \<and> a < base + ?n then None else h a) = fq_heap s |` (- pool_addrs base ?n)"
    using h(2) unfolding addrs by (auto simp: restrict_map_def fun_eq_iff pool_addrs_def)
  then have "free_pool_array base ?n (s\<lparr>fq_heap := h, fq_blocks := B\<rparr>)
      = s\<lparr>fq_heap := fq_heap s |` (- pool_addrs base ?n), fq_blocks := B\<rparr>" for B
    by (simp add: free_pool_array_def cong: if_cong)
  then show ?thesis
    using h(1) pool unfolding frame_queue_free_buffers_def as by simp
qed

subsection \<open>Allocation\<close>

text \<open>
  What \<open>malloc\<close> and \<open>memalign\<close> promise: the structure array is fresh, and the blocks that are
  handed out are fresh and distinct.
\<close>

definition fresh_memory :: "fq_state \<Rightarrow> nat \<Rightarrow> nat \<Rightarrow> (nat \<Rightarrow> (nat \<times> bytes) option) \<Rightarrow> bool" where
  "fresh_memory s base n align \<longleftrightarrow>
     (\<forall>i < n. fq_heap s (base + i) = None) \<and>
     (\<forall>i < n. \<forall>a c. align i = Some (a, c) \<longrightarrow> fq_blocks s a = None) \<and>
     (\<forall>i < n. \<forall>j < n. \<forall>a c d. align i = Some (a, c) \<and> align j = Some (a, d) \<longrightarrow> i = j)"

definition block_addrs :: "(nat \<Rightarrow> (nat \<times> bytes) option) \<Rightarrow> nat \<Rightarrow> nat list" where
  "block_addrs align n = map (\<lambda>i. fst (the (align i))) [0..<n]"

definition fresh_buffer :: "nat \<Rightarrow> u32 \<Rightarrow> nat \<Rightarrow> frame_buffer" where
  "fresh_buffer a bsize i =
     \<lparr>fb_data = Some a, fb_length = bsize, fb_used = 0, fb_id = int i, fb_next = None\<rparr>"

text \<open>The state after \<open>i\<close> successful iterations of the allocation loop, started in \<open>s1\<close>.\<close>

primrec allocated :: "(nat \<Rightarrow> (nat \<times> bytes) option) \<Rightarrow> u32 \<Rightarrow> nat \<Rightarrow> fq_state \<Rightarrow> nat \<Rightarrow> fq_state" where
  "allocated align bsize base s1 0 = s1"
| "allocated align bsize base s1 (Suc i) =
     (let s = allocated align bsize base s1 i; (a, c) = the (align i)
      in s\<lparr>fq_blocks := (fq_blocks s)(a \<mapsto> c),
           fq_heap := (fq_heap s)(base + i \<mapsto> fresh_buffer a bsize i)\<rparr>)"

lemma allocated_simps [simp]:
  "g_buffer_pool (allocated align bsize base s1 i) = g_buffer_pool s1"
  "g_buffer_pool_size (allocated align bsize base s1 i) = g_buffer_pool_size s1"
  "g_empty_queue (allocated align bsize base s1 i) = g_empty_queue s1"
  "g_action_queue (allocated align bsize base s1 i) = g_action_queue s1"
  "g_shutdown_requested (allocated align bsize base s1 i) = g_shutdown_requested s1"
  "g_queue_mutex_ready (allocated align bsize base s1 i) = g_queue_mutex_ready s1"
  "g_queue_cond_ready (allocated align bsize base s1 i) = g_queue_cond_ready s1"
  by (induction i) (simp_all add: Let_def split: prod.split)

lemma heap_allocated:
  "fq_heap (allocated align bsize base s1 i) a =
     (if base \<le> a \<and> a < base + i
      then Some (fresh_buffer (fst (the (align (a - base)))) bsize (a - base))
      else fq_heap s1 a)"
  by (induction i) (auto simp: Let_def less_Suc_eq split: prod.split)

lemma blocks_allocated_other:
  "\<forall>j < i. fst (the (align j)) \<noteq> a \<Longrightarrow>
     fq_blocks (allocated align bsize base s1 i) a = fq_blocks s1 a"
  by (induction i) (auto simp: Let_def split: prod.split)

lemma blocks_allocated_own:
  "j < i \<Longrightarrow> fq_blocks (allocated align bsize base s1 i) (fst (the (align j))) \<noteq> None"
  by (induction i) (auto simp: Let_def less_Suc_eq split: prod.split)

lemma nth_block_addrs [simp]: "i < n \<Longrightarrow> block_addrs align n ! i = fst (the (align i))"
  and length_block_addrs [simp]: "length (block_addrs align n) = n"
  by (simp_all add: block_addrs_def)

lemma holds_allocated:
  "j < i \<Longrightarrow> i \<le> n \<Longrightarrow> holds (allocated align bsize base s1 i) base (block_addrs align n) j"
  using blocks_allocated_own [of j i align bsize base s1]
  by (simp add: holds_def heap_allocated fresh_buffer_def)

lemma distinct_block_addrs:
  assumes "fresh_memory s base n align" "i \<le> n" "\<forall>j < i. align j \<noteq> None"
  shows "distinct (block_addrs align i)"
proof -
  have "inj_on (\<lambda>i. fst (the (align i))) {..<i}"
  proof (rule inj_onI)
    fix j k
    assume jk: "j \<in> {..<i}" "k \<in> {..<i}" "fst (the (align j)) = fst (the (align k))"
    then obtain a c d where "align j = Some (a, c)" "align k = Some (a, d)"
      using assms(3) by (metis fst_conv lessThan_iff not_None_eq option.sel surj_pair)
    with jk assms show "j = k"
      unfolding fresh_memory_def by (meson lessThan_iff less_le_trans)
  qed
  then show ?thesis
    by (simp add: block_addrs_def distinct_map atLeast_upt)
qed

lemma blocks_after_free:
  assumes "fresh_memory s base n align" "i \<le> n" "\<forall>j < i. align j \<noteq> None"
    and "fq_blocks s1 = fq_blocks s"
  shows "fq_blocks (allocated align bsize base s1 i) |` (- (!) (block_addrs align i) ` {..<i})
    = fq_blocks s"
proof (rule ext)
  fix a
  show "(fq_blocks (allocated align bsize base s1 i) |` (- (!) (block_addrs align i) ` {..<i})) a
    = fq_blocks s a"
  proof (cases "\<exists>j < i. fst (the (align j)) = a")
    case True
    then obtain j where j: "j < i" "fst (the (align j)) = a"
      by blast
    then have "fq_blocks s a = None"
      using assms(1-3) unfolding fresh_memory_def
      by (metis less_le_trans not_None_eq option.sel prod.collapse)
    moreover have "a \<in> (!) (block_addrs align i) ` {..<i}"
      using j by force
    ultimately show ?thesis
      by simp
  next
    case False
    then have "a \<notin> (!) (block_addrs align i) ` {..<i}"
      by auto
    with False assms(4) show ?thesis
      by (simp add: blocks_allocated_other)
  qed
qed

text \<open>The structures of the pool, zeroed, before any block has been allocated.\<close>

definition pool_zeroed :: "nat \<Rightarrow> int \<Rightarrow> fq_state \<Rightarrow> fq_state" where
  "pool_zeroed base count s =
     s\<lparr>g_buffer_pool := Some base, g_buffer_pool_size := count,
       fq_heap := (\<lambda>a. if base \<le> a \<and> a < base + nat count then Some zero_buffer
                       else fq_heap s a)\<rparr>"

lemma alloc_loop_ok:
  assumes "\<forall>j < n. align j \<noteq> None" "\<forall>j < n. fq_heap s1 (base + j) \<noteq> None" "i + k = n"
  shows "alloc_loop align bsize base i k (allocated align bsize base s1 i)
    = Some (Inr (allocated align bsize base s1 n))"
  using assms(3)
proof (induction k arbitrary: i)
  case 0
  then show ?case by simp
next
  case (Suc k)
  then obtain a c where ac: "align i = Some (a, c)"
    using assms(1) by (metis add_Suc_right less_add_Suc1 not_None_eq surj_pair)
  have "fq_heap (allocated align bsize base s1 i) (base + i) \<noteq> None"
    using assms(2) Suc.prems by (simp add: heap_allocated)
  then obtain fb where "fq_heap (allocated align bsize base s1 i) (base + i) = Some fb"
    by blast
  with ac Suc.IH [of "Suc i"] Suc.prems show ?case
    by (simp add: Let_def fresh_buffer_def)
qed

lemma alloc_loop_fail:
  assumes "align m = None" "\<forall>j < m. align j \<noteq> None" "m < n"
    and "\<forall>j < n. fq_heap s1 (base + j) \<noteq> None" "fresh_memory s base n align"
    and "fq_blocks s1 = fq_blocks s" "g_buffer_pool_size s1 = int n" "i \<le> m" "i + k = n"
  shows "\<exists>s2. alloc_loop align bsize base i k (allocated align bsize base s1 i) = Some (Inl s2) \<and>
    s2 = (free_pool_array base n (allocated align bsize base s1 m))
      \<lparr>fq_blocks := fq_blocks s, g_buffer_pool := None, g_buffer_pool_size := 0\<rparr>"
  using assms(8,9)
proof (induction k arbitrary: i)
  case 0
  with assms(3) show ?case by simp
next
  case (Suc k)
  show ?case
  proof (cases "i = m")
    case True
    have d: "distinct (block_addrs align m)"
      using assms by (intro distinct_block_addrs) auto
    have "\<forall>j < m. holds (allocated align bsize base s1 m) base (block_addrs align m) j"
      by (simp add: holds_allocated)
    then have "free_down base m (allocated align bsize base s1 m) =
        Some ((allocated align bsize base s1 m)\<lparr>fq_blocks := fq_blocks s\<rparr>)"
      using free_down_ok [OF d, of m] blocks_after_free [OF assms(5) less_imp_le [OF assms(3)] assms(2,6), of bsize]
        assms(3) by simp
    then show ?thesis
      using True assms(1,7) by (simp add: free_pool_array_def cong: if_cong)
  next
    case False
    then have "i < m"
      using Suc.prems by simp
    then obtain a c where ac: "align i = Some (a, c)"
      using assms(2) by (metis not_None_eq surj_pair)
    have "fq_heap (allocated align bsize base s1 i) (base + i) \<noteq> None"
      using assms(3,4) \<open>i < m\<close> by (simp add: heap_allocated)
    then obtain fb where "fq_heap (allocated align bsize base s1 i) (base + i) = Some fb"
      by blast
    with ac Suc.IH [of "Suc i"] Suc.prems \<open>i < m\<close> show ?thesis
      by (simp add: Let_def fresh_buffer_def)
  qed
qed

lemma push_all_ok:
  "is_queue (fq_heap s) (g_empty_queue s) xs \<Longrightarrow> distinct is \<Longrightarrow>
   \<forall>i \<in> set is. fq_heap s (base + i) \<noteq> None \<and> base + i \<notin> set xs \<Longrightarrow>
   \<exists>h q. push_all base is s = Some (s\<lparr>fq_heap := h, g_empty_queue := q\<rparr>) \<and>
     is_queue h q (xs @ map ((+) base) is) \<and> payload h = payload (fq_heap s)"
proof (induction "is" arbitrary: s xs)
  case Nil
  then show ?case
    by (intro exI [of _ "fq_heap s"] exI [of _ "g_empty_queue s"]) simp
next
  case (Cons i "is")
  have "payload (fq_heap s) (base + i) \<noteq> None" "base + i \<notin> set xs"
    using Cons.prems(3) by auto
  from frame_queue_push_rep [OF Cons.prems(1) this] obtain h q where hq:
    "frame_queue_push (fq_heap s) (g_empty_queue s) (Some (base + i)) = Some (h, q)"
    "is_queue h q (xs @ [base + i])" "payload h = payload (fq_heap s)"
    by blast
  let ?s = "s\<lparr>fq_heap := h, g_empty_queue := q\<rparr>"
  have "h a \<noteq> None \<longleftrightarrow> fq_heap s a \<noteq> None" for a
    using hq(3) by (metis payload_None)
  then have "\<forall>j \<in> set is. fq_heap ?s (base + j) \<noteq> None \<and> base + j \<notin> set (xs @ [base + i])"
    using Cons.prems by auto
  moreover have "distinct is" "is_queue (fq_heap ?s) (g_empty_queue ?s) (xs @ [base + i])"
    using Cons.prems(2) hq(2) by simp_all
  ultimately obtain h2 q2 where "push_all base is ?s = Some (?s\<lparr>fq_heap := h2, g_empty_queue := q2\<rparr>)"
    "is_queue h2 q2 ((xs @ [base + i]) @ map ((+) base) is)" "payload h2 = payload (fq_heap ?s)"
    using Cons.IH [of ?s "xs @ [base + i]"] by blast
  with hq show ?case
    by (intro exI [of _ h2] exI [of _ q2]) simp
qed

lemma allocate_ok:
  assumes "fresh_memory s base (nat count) align" "0 < count" "bsize \<noteq> 0"
    and "\<forall>i < nat count. align i \<noteq> None" "g_empty_queue s = None"
  shows "\<exists>h q. frame_queue_allocate_buffers (Some base) align bsize count s =
      Some (0, (allocated align bsize base (pool_zeroed base count s) (nat count))
        \<lparr>fq_heap := h, g_empty_queue := q\<rparr>) \<and>
    is_queue h q [base..<base + nat count] \<and>
    payload h = payload (fq_heap (allocated align bsize base (pool_zeroed base count s) (nat count)))"
proof -
  let ?n = "nat count"
  let ?s1 = "pool_zeroed base count s"
  let ?s2 = "allocated align bsize base ?s1 ?n"
  have z: "\<forall>j < ?n. fq_heap ?s1 (base + j) \<noteq> None"
    by (simp add: pool_zeroed_def)
  have loop: "alloc_loop align bsize base 0 ?n ?s1 = Some (Inr ?s2)"
    using alloc_loop_ok [OF assms(4) z, of 0 ?n bsize] by simp
  have "is_queue (fq_heap ?s2) (g_empty_queue ?s2) []"
    using assms(5) by (simp add: is_queue_def pool_zeroed_def)
  moreover have "\<forall>i \<in> set [0..<?n]. fq_heap ?s2 (base + i) \<noteq> None \<and> base + i \<notin> set []"
    by (simp add: heap_allocated)
  ultimately obtain h q where "push_all base [0..<?n] ?s2 = Some (?s2\<lparr>fq_heap := h, g_empty_queue := q\<rparr>)"
    "is_queue h q ([] @ map ((+) base) [0..<?n])" "payload h = payload (fq_heap ?s2)"
    using push_all_ok [of ?s2 "[]" "[0..<?n]" base] distinct_upt [of 0 ?n] by blast
  moreover have "map ((+) base) [0..<?n] = [base..<base + ?n]"
    using map_add_upt [of base ?n] by (simp add: add.commute [of base] cong: map_cong)
  ultimately show ?thesis
    using loop assms(2,3)
    by (intro exI [of _ h] exI [of _ q])
       (simp add: frame_queue_allocate_buffers_def Let_def pool_zeroed_def)
qed

lemma pool_owns_allocated:
  assumes "fresh_memory s base (nat count) align" "0 < count" "\<forall>i < nat count. align i \<noteq> None"
    and "payload h = payload (fq_heap (allocated align bsize base (pool_zeroed base count s) (nat count)))"
  shows "pool_owns ((allocated align bsize base (pool_zeroed base count s) (nat count))
      \<lparr>fq_heap := h, g_empty_queue := q\<rparr>) base (block_addrs align (nat count))"
proof -
  let ?n = "nat count"
  let ?s2 = "allocated align bsize base (pool_zeroed base count s) ?n"
  have "holds (?s2\<lparr>fq_heap := h, g_empty_queue := q\<rparr>) base (block_addrs align ?n) i" if "i < ?n" for i
  proof -
    have "holds ?s2 base (block_addrs align ?n) i"
      using that by (simp add: holds_allocated)
    then obtain fb where fb: "fq_heap ?s2 (base + i) = Some fb"
        "fb_data fb = Some (block_addrs align ?n ! i)"
      and b: "fq_blocks ?s2 (block_addrs align ?n ! i) \<noteq> None"
      by (auto simp: holds_def)
    from assms(4) have "payload h (base + i) = payload (fq_heap ?s2) (base + i)"
      by simp
    with fb have "\<exists>fb'. h (base + i) = Some fb' \<and> fb_data fb' = fb_data fb"
      by (auto simp: payload_def)
    with fb b show ?thesis
      by (simp add: holds_def)
  qed
  moreover have "distinct (block_addrs align ?n)"
    using assms by (intro distinct_block_addrs) auto
  ultimately show ?thesis
    using assms(2) by (simp add: pool_owns_def pool_zeroed_def)
qed

lemma allocate_fails:
  assumes "fresh_memory s base (nat count) align" and "0 < count" and "bsize \<noteq> 0"
    and "\<exists>i < nat count. align i = None"
  shows "frame_queue_allocate_buffers (Some base) align bsize count s
    = Some (- ENOMEM, s\<lparr>g_buffer_pool := None, g_buffer_pool_size := 0\<rparr>)"
proof -
  define m where "m = (LEAST i. align i = None)"
  from assms(4) obtain i where i: "i < nat count" "align i = None"
    by blast
  then have m: "align m = None" "m < nat count"
    unfolding m_def by (auto intro: LeastI le_less_trans [OF Least_le])
  have before: "\<forall>j < m. align j \<noteq> None"
    unfolding m_def using not_less_Least by blast
  let ?s1 = "pool_zeroed base count s"
  have z: "\<forall>j < nat count. fq_heap ?s1 (base + j) \<noteq> None" "fq_blocks ?s1 = fq_blocks s"
    "g_buffer_pool_size ?s1 = int (nat count)"
    using assms(2) by (simp_all add: pool_zeroed_def)
  let ?s2 = "(free_pool_array base (nat count) (allocated align bsize base ?s1 m))
      \<lparr>fq_blocks := fq_blocks s, g_buffer_pool := None, g_buffer_pool_size := 0\<rparr>"
  have loop: "alloc_loop align bsize base 0 (nat count) ?s1 = Some (Inl ?s2)"
    using alloc_loop_fail [OF m(1) before m(2) z(1) assms(1) z(2,3), of 0 "nat count" bsize] by simp
  have "fq_heap ?s2 a = fq_heap s a" for a
  proof (cases "base \<le> a \<and> a < base + nat count")
    case True
    then have "fq_heap s (base + (a - base)) = None"
      using assms(1) unfolding fresh_memory_def by (metis less_diff_conv2 add.commute)
    with True show ?thesis
      by (simp add: free_pool_array_def)
  next
    case False
    with m(2) show ?thesis
      by (auto simp: free_pool_array_def heap_allocated pool_zeroed_def)
  qed
  then have "?s2 = s\<lparr>g_buffer_pool := None, g_buffer_pool_size := 0\<rparr>"
    by (intro fq_state.equality ext) (simp_all add: free_pool_array_def pool_zeroed_def)
  with loop assms(2,3) show ?thesis
    by (simp add: frame_queue_allocate_buffers_def pool_zeroed_def Let_def)
qed

subsection \<open>Walks along a self-linked structure never end\<close>

lemma depth_loop_self_link:
  assumes ret: "depth_loop g p n = Some r"
  shows "p = Some b \<longrightarrow> \<not> (g b = Some gb \<and> fb_next gb = Some b)"
proof (rule depth_loop.raw_induct
    [where P = "\<lambda>g p n r. p = Some b \<longrightarrow> \<not> (g b = Some gb \<and> fb_next gb = Some b)", OF _ ret])
  fix f :: "fheap \<Rightarrow> ptr \<Rightarrow> int \<Rightarrow> int option" and g p n r
  assume IH: "\<And>g p n r. f g p n = Some r \<Longrightarrow> p = Some b \<longrightarrow> \<not> (g b = Some gb \<and> fb_next gb = Some b)"
    and eq: "(case p of None \<Rightarrow> Some n | Some p \<Rightarrow> g p \<bind> (\<lambda>b. f g (fb_next b) (n + 1))) = Some r"
  show "p = Some b \<longrightarrow> \<not> (g b = Some gb \<and> fb_next gb = Some b)"
  proof (intro impI notI, elim conjE)
    assume a: "p = Some b" "g b = Some gb" "fb_next gb = Some b"
    with eq have "f g (Some b) (n + 1) = Some r"
      by simp
    from IH [OF this] a(2,3) show False
      by blast
  qed
qed

lemma find_tail_self_link:
  assumes ret: "find_tail g p = Some r"
  shows "p = b \<longrightarrow> \<not> (g b = Some gb \<and> fb_next gb = Some b)"
proof (rule find_tail.raw_induct
    [where P = "\<lambda>g p r. p = b \<longrightarrow> \<not> (g b = Some gb \<and> fb_next gb = Some b)", OF _ ret])
  fix f :: "fheap \<Rightarrow> nat \<Rightarrow> nat option" and g p r
  assume IH: "\<And>g p r. f g p = Some r \<Longrightarrow> p = b \<longrightarrow> \<not> (g b = Some gb \<and> fb_next gb = Some b)"
    and eq: "g p \<bind> (\<lambda>b. case fb_next b of None \<Rightarrow> Some p | Some q \<Rightarrow> f g q) = Some r"
  show "p = b \<longrightarrow> \<not> (g b = Some gb \<and> fb_next gb = Some b)"
  proof (intro impI notI, elim conjE)
    assume a: "p = b" "g b = Some gb" "fb_next gb = Some b"
    with eq have "f g b = Some r"
      by simp
    from IH [OF this] a(2,3) show False
      by blast
  qed
qed

section \<open>Properties\<close>

text \<open>A heap of three linked structures at 10, 11 and 12, and one loose structure at 20.\<close>

definition sample_heap :: fheap where
  "sample_heap = [10 \<mapsto> zero_buffer\<lparr>fb_next := Some 11\<rparr>, 11 \<mapsto> zero_buffer\<lparr>fb_next := Some 12\<rparr>,
     12 \<mapsto> zero_buffer, 20 \<mapsto> zero_buffer]"

lemma sample_queues: "is_queue sample_heap (Some 10) [10, 11, 12]" "is_queue sample_heap None []"
  by (simp_all add: is_queue_def sample_heap_def zero_buffer_def)

text \<open>C21: pushing a live buffer that is not yet in the queue always returns (the walk to the tail
  ends, no freed or unallocated structure is touched) and appends it at the tail; any queue that
  shares no member keeps its contents, and no buffer's payload changes.\<close>

theorem frame_queue_push_fifo:
  assumes "is_queue h q xs" and "is_queue h q2 ys" and "set xs \<inter> set ys = {}"
    and "h b \<noteq> None" and "b \<notin> set xs" and "b \<notin> set ys"
  shows "\<exists>h' q'. frame_queue_push h q (Some b) = Some (h', q') \<and> is_queue h' q' (xs @ [b]) \<and>
    is_queue h' q2 ys \<and> payload h' = payload h"
  using fq.push_beside [OF assms(1-3), of b] assms(4-6) by (metis payload_None)

theorem frame_queue_push_fifo_witness:
  "\<exists>h' q'. frame_queue_push sample_heap (Some 10) (Some 20) = Some (h', q') \<and>
    is_queue h' q' ([10, 11, 12] @ [20]) \<and> is_queue h' None [] \<and> payload h' = payload sample_heap"
  by (rule frame_queue_push_fifo [OF sample_queues]) (simp_all add: sample_heap_def)



text \<open>The depth count returns the number of buffers queued, and the emptiness test agrees with
  it.\<close>

lemma frame_queue_depth_counts:
  assumes "is_queue h q xs"
  shows "frame_queue_depth h q = Some (int (length xs)) \<and>
    frame_queue_is_empty q = (frame_queue_depth h q = Some 0)"
  using fq.depth_rep [OF assms] fq.is_empty_rep [OF assms] by simp

text \<open>Pushing a buffer that is already the only member of the queue makes its \<open>next\<close> field point
  to itself: the push returns, but no later depth count or push of another live buffer ever ends.
  This is why ownership of a buffer must be exclusive.\<close>

lemma frame_queue_double_push:
  assumes "h b = Some fb" and "fb_next fb = None" and "c \<noteq> b" and "h c \<noteq> None"
  shows "\<exists>h'. frame_queue_push h (Some b) (Some b) = Some (h', Some b) \<and>
    frame_queue_depth h' (Some b) = None \<and> frame_queue_push h' (Some b) (Some c) = None"
proof -
  let ?h = "h(b \<mapsto> fb\<lparr>fb_next := Some b\<rparr>)"
  have push: "frame_queue_push h (Some b) (Some b) = Some (?h, Some b)"
    using assms(1,2) by (simp add: frame_queue_push_def find_tail.simps)
  have "frame_queue_depth ?h (Some b) = None"
    using depth_loop_self_link [of ?h "Some b" 0 _ b "fb\<lparr>fb_next := Some b\<rparr>"]
    by (cases "depth_loop ?h (Some b) 0") (auto simp: frame_queue_depth_def)
  moreover have "frame_queue_push ?h (Some b) (Some c) = None"
  proof -
    from assms(3,4) obtain fc where fc: "?h c = Some fc"
      by auto
    have "find_tail (?h(c \<mapsto> fc\<lparr>fb_next := None\<rparr>)) b = None"
      using find_tail_self_link [of "?h(c \<mapsto> fc\<lparr>fb_next := None\<rparr>)" b _ b "fb\<lparr>fb_next := Some b\<rparr>"] assms(3)
      by (cases "find_tail (?h(c \<mapsto> fc\<lparr>fb_next := None\<rparr>)) b") auto
    then show ?thesis
      using fc by (simp add: frame_queue_push_def Let_def)
  qed
  ultimately show ?thesis
    using push by blast
qed


definition sample_align :: "nat \<Rightarrow> (nat \<times> bytes) option" where
  "sample_align i = (if i < 3 then Some (100 + i, [0, 0]) else None)"

definition sample_fq :: fq_state where
  "sample_fq = \<lparr>fq_heap = Map.empty, fq_blocks = Map.empty, g_buffer_pool = None,
     g_buffer_pool_size = 0, g_action_queue = None, g_empty_queue = None,
     g_shutdown_requested = False, g_queue_mutex_ready = True, g_queue_cond_ready = True\<rparr>"

lemma sample_fresh: "fresh_memory sample_fq 7 n sample_align"
  by (auto simp: fresh_memory_def sample_fq_def sample_align_def split: if_splits)


text \<open>C24: no leak. However the pool's buffers have been linked, unlinked and filled since they were
  allocated, clean-up succeeds (no block is freed twice, no freed structure is read), frees exactly
  the pool's structures and blocks, clears both queues and leaves the shutdown flag set.\<close>

theorem frame_queue_cleanup_frees_pool:
  assumes "pool_owns s base as"
  shows "\<exists>s'. frame_queue_cleanup s = Some s' \<and> fq_blocks s' = fq_blocks s |` (- set as) \<and>
    fq_heap s' = fq_heap s |` (- {base..<base + length as}) \<and> g_buffer_pool s' = None \<and>
    g_action_queue s' = None \<and> g_empty_queue s' = None \<and> g_shutdown_requested s'"
proof -
  have "pool_owns (s\<lparr>g_shutdown_requested := True\<rparr>) base as"
    using assms by (simp add: pool_owns_def holds_def)
  from frame_queue_free_buffers_ok [OF this] show ?thesis
    by (auto simp: frame_queue_cleanup_def pool_addrs_def)
qed

definition sample_pool :: fq_state where
  "sample_pool = sample_fq\<lparr>g_buffer_pool := Some 7, g_buffer_pool_size := 1,
     fq_heap := [7 \<mapsto> fresh_buffer 100 2 0], fq_blocks := [100 \<mapsto> [0, 0]]\<rparr>"

theorem frame_queue_cleanup_frees_pool_witness:
  "\<exists>s'. frame_queue_cleanup sample_pool = Some s' \<and>
    fq_blocks s' = fq_blocks sample_pool |` (- set [100]) \<and>
    fq_heap s' = fq_heap sample_pool |` (- {7..<7 + length [100 :: nat]}) \<and> g_buffer_pool s' = None \<and>
    g_action_queue s' = None \<and> g_empty_queue s' = None \<and> g_shutdown_requested s'"
  by (rule frame_queue_cleanup_frees_pool)
     (simp add: pool_owns_def holds_def sample_pool_def fresh_buffer_def)

end
