(* ===== verification/Os.thy ===== *)
theory Os
  imports Config "HOL-Library.Multiset"
begin

section \<open>The operating system as the application sees it\<close>

text \<open>
  Results of system calls are arguments of the model (the driver, the USB host and the clock decide
  them), and what the application does to the system is an event trace that every operation returns:
  descriptors opened and closed, bytes a descriptor has accepted, memory blocks taken and given back,
  capture buffers handed to the video driver.  The functions below read a trace.
\<close>

datatype write_result = Wrote nat | WriteErr int

text \<open>\<open>Wrote n\<close>: \<open>write\<close> returned \<open>n\<close>; \<open>WriteErr e\<close>: it returned -1 with \<open>errno = e\<close>.\<close>

datatype os_event =
    OsOpen int
  | OsClose int
  | OsWrite int bytes
  | OsAlloc nat
  | OsFree nat
  | OsQbuf int nat
  | OsDqbuf int nat
  | OsStreamOn int
  | OsStreamOff int

type_synonym trace = "os_event list"

fun open_fds :: "trace \<Rightarrow> int set" where
  "open_fds [] = {}"
| "open_fds (OsOpen fd # es) = insert fd (open_fds es)"
| "open_fds (OsClose fd # es) = open_fds es"
| "open_fds (e # es) = open_fds es"

fun closed_fds :: "trace \<Rightarrow> int set" where
  "closed_fds [] = {}"
| "closed_fds (OsClose fd # es) = insert fd (closed_fds es)"
| "closed_fds (e # es) = closed_fds es"

fun allocs :: "trace \<Rightarrow> nat list" where
  "allocs [] = []"
| "allocs (OsAlloc a # es) = a # allocs es"
| "allocs (e # es) = allocs es"

fun frees :: "trace \<Rightarrow> nat list" where
  "frees [] = []"
| "frees (OsFree a # es) = a # frees es"
| "frees (e # es) = frees es"

fun written :: "int \<Rightarrow> trace \<Rightarrow> bytes" where
  "written fd [] = []"
| "written fd (OsWrite f bs # es) = (if f = fd then bs else []) @ written fd es"
| "written fd (e # es) = written fd es"

fun writes :: "trace \<Rightarrow> nat" where
  "writes [] = 0"
| "writes (OsWrite f bs # es) = Suc (writes es)"
| "writes (e # es) = writes es"

text \<open>The capture buffers the video driver owns after a trace, from those it owned before.\<close>

fun driver_owned :: "nat set \<Rightarrow> trace \<Rightarrow> nat set" where
  "driver_owned D [] = D"
| "driver_owned D (OsQbuf fd i # es) = driver_owned (insert i D) es"
| "driver_owned D (OsDqbuf fd i # es) = driver_owned (D - {i}) es"
| "driver_owned D (e # es) = driver_owned D es"

lemma open_fds_append [simp]: "open_fds (a @ b) = open_fds a \<union> open_fds b"
  by (induction a rule: open_fds.induct) auto

lemma closed_fds_append [simp]: "closed_fds (a @ b) = closed_fds a \<union> closed_fds b"
  by (induction a rule: closed_fds.induct) auto

lemma allocs_append [simp]: "allocs (a @ b) = allocs a @ allocs b"
  by (induction a rule: allocs.induct) auto

lemma frees_append [simp]: "frees (a @ b) = frees a @ frees b"
  by (induction a rule: frees.induct) auto

lemma written_append [simp]: "written fd (a @ b) = written fd a @ written fd b"
  by (induction a rule: written.induct) auto

lemma writes_append [simp]: "writes (a @ b) = writes a + writes b"
  by (induction a rule: writes.induct) auto

lemma driver_owned_append [simp]: "driver_owned D (a @ b) = driver_owned (driver_owned D a) b"
  by (induction D a rule: driver_owned.induct) auto

text \<open>Nothing leaks: every block taken is given back, every descriptor opened is closed.\<close>

definition balanced :: "trace \<Rightarrow> bool" where
  "balanced tr \<longleftrightarrow> mset (allocs tr) = mset (frees tr) \<and> open_fds tr = closed_fds tr"

lemma balanced_Nil [simp]: "balanced []"
  by (simp add: balanced_def)

lemma balanced_append: "balanced a \<Longrightarrow> balanced b \<Longrightarrow> balanced (a @ b)"
  by (simp add: balanced_def)

lemma balanced_around: "balanced (a @ c) \<Longrightarrow> balanced b \<Longrightarrow> balanced (a @ b @ c)"
  by (auto simp: balanced_def)

lemma balanced_nested:
  "balanced (a @ d) \<Longrightarrow> balanced (b @ c) \<Longrightarrow> balanced (a @ b @ c @ d)"
  using balanced_around [of a d "b @ c"] by simp

text \<open>A block taken between two resources and given back between their releases.\<close>

lemma balanced_crossed:
  assumes "balanced (a @ d)" "balanced (b @ c)" "balanced w"
  shows "balanced (a @ OsAlloc m # b @ w @ OsFree m # c @ d)"
proof -
  let ?t = "a @ OsAlloc m # b @ w @ OsFree m # c @ d"
  have "mset (allocs ?t) = mset (allocs (a @ d)) + mset (allocs (b @ c)) + mset (allocs w) + {#m#}"
    "mset (frees ?t) = mset (frees (a @ d)) + mset (frees (b @ c)) + mset (frees w) + {#m#}"
    by (simp_all add: ac_simps)
  with assms have "mset (allocs ?t) = mset (frees ?t)"
    by (simp only: balanced_def)
  moreover have "open_fds ?t = open_fds (a @ d) \<union> open_fds (b @ c) \<union> open_fds w"
    "closed_fds ?t = closed_fds (a @ d) \<union> closed_fds (b @ c) \<union> closed_fds w"
    by auto
  ultimately show ?thesis
    using assms by (simp only: balanced_def)
qed

text \<open>
  The contract of a resource the main program initialises and releases: a failed initialisation has
  given back what it took, and the clean-up after a successful one gives back the rest.  The client
  lemmas: a session around any balanced work is balanced, and a second resource whose initialisation
  fails may be rolled back by the clean-up of the first.
\<close>

locale resource =
  fixes init :: "'e \<Rightarrow> int \<times> 's \<times> trace"
    and cleanup :: "'s \<Rightarrow> int \<times> 's \<times> trace"
    and env_ok :: "'e \<Rightarrow> bool"
    and keeps :: "'s \<Rightarrow> 's \<Rightarrow> bool"
  assumes init_fail: "env_ok e \<Longrightarrow> init e = (r, s, t) \<Longrightarrow> r < 0 \<Longrightarrow> balanced t"
    and init_cleanup: "env_ok e \<Longrightarrow> init e = (r, s, t) \<Longrightarrow> \<not> r < 0 \<Longrightarrow> keeps s s' \<Longrightarrow>
      cleanup s' = (r', s'', t') \<Longrightarrow> balanced (t @ t')"
begin

lemma session_balanced:
  assumes "env_ok e" "init e = (r, s, t)" "r < 0 \<longrightarrow> w = []"
    and "\<not> r < 0 \<longrightarrow> keeps s s' \<and> (\<exists>w' r' s''. balanced w' \<and> cleanup s' = (r', s'', t') \<and> w = w' @ t')"
  shows "balanced (t @ w)"
  using assms init_fail init_cleanup balanced_around by (cases "r < 0") (simp, blast)

end

text \<open>The time a clock reading gives, and the microsecond conversion both loggers use.\<close>

record timespec =
  tv_sec :: int
  tv_nsec :: int

definition timespec_us :: "timespec \<Rightarrow> u64" where
  "timespec_us ts = of_int (tv_sec ts) * 1000000 + of_int (tv_nsec ts) div 1000"

end
