(* ===== verification/ProtocolHandler.thy ===== *)
theory ProtocolHandler
  imports Config
begin

unbundle bit_operations_syntax

section \<open>The H.264 packet protocol (protocol_handler.c)\<close>

text \<open>
  Fragmentation of an H.264 NAL unit into packets with a 22-byte packed header, a running sequence
  number and a payload checksum, and the handshake packet.  The caller's packet array is a list, a
  packet's payload field the list of its 4096 bytes.
\<close>

subsection \<open>Constants and structures\<close>

definition PACKET_MAGIC :: u16 where "PACKET_MAGIC = 0x5350"
definition PACKET_VERSION :: u8 where "PACKET_VERSION = 0x01"
definition MAX_PAYLOAD_SIZE :: nat where "MAX_PAYLOAD_SIZE = 4096"
definition PKT_TYPE_HANDSHAKE :: u8 where "PKT_TYPE_HANDSHAKE = 0x01"
definition PKT_TYPE_VIDEO_SPS :: u8 where "PKT_TYPE_VIDEO_SPS = 0x10"
definition PKT_TYPE_VIDEO_PPS :: u8 where "PKT_TYPE_VIDEO_PPS = 0x11"
definition PKT_TYPE_VIDEO_IDR :: u8 where "PKT_TYPE_VIDEO_IDR = 0x12"
definition PKT_TYPE_VIDEO_SLICE :: u8 where "PKT_TYPE_VIDEO_SLICE = 0x13"
definition NAL_TYPE_SPS :: u8 where "NAL_TYPE_SPS = 7"
definition NAL_TYPE_PPS :: u8 where "NAL_TYPE_PPS = 8"
definition NAL_TYPE_IDR :: u8 where "NAL_TYPE_IDR = 5"
definition NAL_TYPE_SLICE :: u8 where "NAL_TYPE_SLICE = 1"

lemmas packet_consts = PACKET_MAGIC_def PACKET_VERSION_def MAX_PAYLOAD_SIZE_def
  PKT_TYPE_HANDSHAKE_def PKT_TYPE_VIDEO_SPS_def PKT_TYPE_VIDEO_PPS_def PKT_TYPE_VIDEO_IDR_def
  PKT_TYPE_VIDEO_SLICE_def NAL_TYPE_SPS_def NAL_TYPE_PPS_def NAL_TYPE_IDR_def NAL_TYPE_SLICE_def

record packet_header =
  magic :: u16
  version :: u8
  pkt_type :: u8
  pkt_sequence :: u32
  timestamp_us :: u64
  payload_size :: u32
  checksum :: u16

record packet =
  header :: packet_header
  payload_bytes :: bytes

record handshake_payload =
  video_width :: u16
  video_height :: u16
  hs_fps :: u8
  codec :: u8
  hs_bitrate :: u32

record h264_nal_unit =
  nal_data :: bytes
  nal_size :: u32
  nal_type :: u8
  nal_timestamp_us :: u64
  nal_frame_num :: u32

text \<open>The packed structures as the bytes they occupy (little endian, no padding).\<close>

definition header_bytes :: "packet_header \<Rightarrow> bytes" where
  "header_bytes h =
     le_bytes 2 (magic h) @ [version h, pkt_type h] @ le_bytes 4 (pkt_sequence h) @
     le_bytes 8 (timestamp_us h) @ le_bytes 4 (payload_size h) @ le_bytes 2 (checksum h)"

definition packet_bytes :: "packet \<Rightarrow> bytes" where
  "packet_bytes p = header_bytes (header p) @ payload_bytes p"

definition handshake_bytes :: "handshake_payload \<Rightarrow> bytes" where
  "handshake_bytes h =
     le_bytes 2 (video_width h) @ le_bytes 2 (video_height h) @ [hs_fps h, codec h] @
     le_bytes 4 (hs_bitrate h)"

definition SIZEOF_PACKET_HEADER :: nat where "SIZEOF_PACKET_HEADER = 22"
definition SIZEOF_HANDSHAKE :: nat where "SIZEOF_HANDSHAKE = 10"

subsection \<open>Operations\<close>

definition get_packet_type_from_nal :: "u8 \<Rightarrow> u8" where
  "get_packet_type_from_nal t =
     (if t = NAL_TYPE_SPS then PKT_TYPE_VIDEO_SPS
      else if t = NAL_TYPE_PPS then PKT_TYPE_VIDEO_PPS
      else if t = NAL_TYPE_IDR then PKT_TYPE_VIDEO_IDR
      else if t = NAL_TYPE_SLICE then PKT_TYPE_VIDEO_SLICE
      else PKT_TYPE_VIDEO_SLICE)"

definition sdlc_bit :: "u16 \<Rightarrow> u16" where
  "sdlc_bit crc = (if crc AND 1 \<noteq> 0 then drop_bit 1 crc XOR 0x8408 else drop_bit 1 crc)"

definition sdlc_byte :: "u16 \<Rightarrow> u8 \<Rightarrow> u16" where
  "sdlc_byte crc b = (sdlc_bit ^^ 8) (crc XOR ucast b)"

definition protocol_crc16 :: "bytes \<Rightarrow> nat \<Rightarrow> u16" where
  "protocol_crc16 data len = foldl sdlc_byte 0xFFFF (take len data) XOR 0xFFFF"

text \<open>One turn of the packing loop: fill \<open>packets[packet_count]\<close> from \<open>nal->data + offset\<close>.\<close>

definition fill_packet :: "h264_nal_unit \<Rightarrow> u8 \<Rightarrow> u32 \<Rightarrow> nat \<Rightarrow> nat \<Rightarrow> packet \<Rightarrow> packet" where
  "fill_packet nal ptype seq offset psize p =
     (let pl = write_bytes (payload_bytes p) 0 (take psize (drop offset (nal_data nal)))
      in \<lparr>header = \<lparr>magic = PACKET_MAGIC, version = PACKET_VERSION, pkt_type = ptype,
            pkt_sequence = seq, timestamp_us = nal_timestamp_us nal,
            payload_size = of_nat psize, checksum = protocol_crc16 pl psize\<rparr>,
          payload_bytes = pl\<rparr>)"

text \<open>
  The loop, on the number of free packets left (\<open>max_packets - packet_count\<close>); it returns the packet
  count, the size still unpacked, the global sequence counter and the packet array.
\<close>

fun pack_nal_loop ::
  "h264_nal_unit \<Rightarrow> u8 \<Rightarrow> nat \<Rightarrow> nat \<Rightarrow> nat \<Rightarrow> nat \<Rightarrow> u32 \<Rightarrow> packet list
     \<Rightarrow> nat \<times> nat \<times> u32 \<times> packet list" where
  "pack_nal_loop nal ptype 0 cnt offset remaining seq ps = (cnt, remaining, seq, ps)"
| "pack_nal_loop nal ptype (Suc k) cnt offset remaining seq ps =
     (if remaining > 0 then
        let psize = (if remaining > MAX_PAYLOAD_SIZE then MAX_PAYLOAD_SIZE else remaining)
        in pack_nal_loop nal ptype k (cnt + 1) (offset + psize) (remaining - psize) (seq + 1)
             (ps[cnt := fill_packet nal ptype seq offset psize (ps ! cnt)])
      else (cnt, remaining, seq, ps))"

text \<open>The result is the packet count or \<open>ERR_PROTOCOL_INVALID\<close>, the sequence counter, the packets.\<close>

definition protocol_pack_nal_unit ::
  "h264_nal_unit option \<Rightarrow> packet list option \<Rightarrow> int \<Rightarrow> u32 \<Rightarrow> int \<times> u32 \<times> packet list option" where
  "protocol_pack_nal_unit nal packets max_packets g_sequence_number =
     (case (nal, packets) of
        (Some n, Some ps) \<Rightarrow>
          if max_packets < 1 then (ERR_PROTOCOL_INVALID, g_sequence_number, packets)
          else (case pack_nal_loop n (get_packet_type_from_nal (nal_type n)) (nat max_packets) 0 0
                  (unat (nal_size n)) g_sequence_number ps of
                 (cnt, remaining, seq, ps') \<Rightarrow> (int cnt, seq, Some ps'))
      | _ \<Rightarrow> (ERR_PROTOCOL_INVALID, g_sequence_number, packets))"

definition handshake_of_config :: handshake_payload where
  "handshake_of_config =
     \<lparr>video_width = CONFIG_CAMERA_WIDTH, video_height = CONFIG_CAMERA_HEIGHT,
      hs_fps = CONFIG_CAMERA_FPS, codec = 0x01, hs_bitrate = CONFIG_ENCODER_BITRATE\<rparr>"

definition protocol_create_handshake :: "packet option \<Rightarrow> u32 \<Rightarrow> int \<times> u32 \<times> packet option" where
  "protocol_create_handshake packet g_sequence_number =
     (case packet of
        None \<Rightarrow> (ERR_PROTOCOL_INVALID, g_sequence_number, None)
      | Some p \<Rightarrow>
          (let pl = write_bytes (payload_bytes p) 0 (handshake_bytes handshake_of_config)
           in (ERR_OK, g_sequence_number + 1,
               Some \<lparr>header = \<lparr>magic = PACKET_MAGIC, version = PACKET_VERSION,
                   pkt_type = PKT_TYPE_HANDSHAKE, pkt_sequence = g_sequence_number,
                   timestamp_us = 0, payload_size = of_nat SIZEOF_HANDSHAKE,
                   checksum = protocol_crc16 pl SIZEOF_HANDSHAKE\<rparr>,
                 payload_bytes = pl\<rparr>)))"

section \<open>The packing loop in closed form\<close>

definition fragments :: "nat \<Rightarrow> nat \<Rightarrow> nat" where
  "fragments k remaining = min k ((remaining + (MAX_PAYLOAD_SIZE - 1)) div MAX_PAYLOAD_SIZE)"

definition fragment_size :: "nat \<Rightarrow> nat \<Rightarrow> nat" where
  "fragment_size remaining j = min MAX_PAYLOAD_SIZE (remaining - MAX_PAYLOAD_SIZE * j)"

definition fragment :: "h264_nal_unit \<Rightarrow> u8 \<Rightarrow> u32 \<Rightarrow> nat \<Rightarrow> nat \<Rightarrow> packet \<Rightarrow> nat \<Rightarrow> packet" where
  "fragment nal ptype seq offset remaining p j =
     fill_packet nal ptype (seq + of_nat j) (offset + MAX_PAYLOAD_SIZE * j)
       (fragment_size remaining j) p"

lemma fragments_0 [simp]: "fragments 0 r = 0" "fragments k 0 = 0"
  by (simp_all add: fragments_def MAX_PAYLOAD_SIZE_def)

lemma fragments_Suc:
  assumes "0 < r"
  shows "fragments (Suc k) r = Suc (fragments k (r - min MAX_PAYLOAD_SIZE r))"
proof (cases "r \<le> 4096")
  case True
  then have "(r + 4095) div 4096 = 1"
    using assms by (intro div_nat_eqI) auto
  with True show ?thesis
    by (simp add: fragments_def MAX_PAYLOAD_SIZE_def)
next
  case False
  then have "(r + 4095) div 4096 = Suc ((r - 4096 + 4095) div 4096)"
    using div_add_self2 [of 4096 "r - 4096 + 4095"] by simp
  with False show ?thesis
    by (simp add: fragments_def MAX_PAYLOAD_SIZE_def)
qed

lemma fragment_size_Suc:
  "fragment_size (r - min MAX_PAYLOAD_SIZE r) j = fragment_size r (Suc j)"
  by (auto simp: fragment_size_def min_def)

lemma fragment_Suc:
  assumes "MAX_PAYLOAD_SIZE \<le> r"
  shows "fragment nal pt (seq + 1) (off + MAX_PAYLOAD_SIZE) (r - MAX_PAYLOAD_SIZE) p j
    = fragment nal pt seq off r p (Suc j)"
  using assms fragment_size_Suc [of r j] by (simp add: fragment_def min_absorb1 ac_simps)

lemma pack_nal_loop_closed:
  assumes "cnt + k \<le> length ps"
  shows "\<exists>ps'. pack_nal_loop nal pt k cnt off rem seq ps =
      (cnt + fragments k rem, rem - MAX_PAYLOAD_SIZE * fragments k rem,
       seq + of_nat (fragments k rem), ps') \<and>
    length ps' = length ps \<and>
    (\<forall>i < length ps. ps' ! i =
      (if cnt \<le> i \<and> i < cnt + fragments k rem then fragment nal pt seq off rem (ps ! i) (i - cnt)
       else ps ! i))"
  using assms
proof (induction k arbitrary: cnt off rem seq ps)
  case 0
  show ?case
    by (intro exI [of _ ps]) auto
next
  case (Suc k)
  show ?case
  proof (cases "0 < rem")
    case False
    then show ?thesis
      by (intro exI [of _ ps]) auto
  next
    case True
    let ?m = "min MAX_PAYLOAD_SIZE rem"
    let ?ps = "ps[cnt := fill_packet nal pt seq off ?m (ps ! cnt)]"
    have step: "pack_nal_loop nal pt (Suc k) cnt off rem seq ps
        = pack_nal_loop nal pt k (cnt + 1) (off + ?m) (rem - ?m) (seq + 1) ?ps"
      using True by (simp add: Let_def min_def)
    let ?f = "fragments k (rem - ?m)"
    from Suc.IH [of "cnt + 1" ?ps "off + ?m" "rem - ?m" "seq + 1"] Suc.prems obtain ps' where
      r: "pack_nal_loop nal pt k (cnt + 1) (off + ?m) (rem - ?m) (seq + 1) ?ps =
        (cnt + 1 + ?f, rem - ?m - MAX_PAYLOAD_SIZE * ?f, seq + 1 + of_nat ?f, ps')"
        "length ps' = length ps"
      and nth: "\<And>i. i < length ps \<Longrightarrow> ps' ! i =
        (if cnt + 1 \<le> i \<and> i < cnt + 1 + ?f
         then fragment nal pt (seq + 1) (off + ?m) (rem - ?m) (?ps ! i) (i - (cnt + 1))
         else ?ps ! i)"
      by auto
    have f: "fragments (Suc k) rem = Suc ?f"
      using True by (rule fragments_Suc)
    have rem: "rem - ?m - MAX_PAYLOAD_SIZE * ?f = rem - MAX_PAYLOAD_SIZE * Suc ?f"
      by (cases "MAX_PAYLOAD_SIZE \<le> rem") (simp_all add: min_def)
    have "ps' ! i = (if cnt \<le> i \<and> i < cnt + Suc ?f
        then fragment nal pt seq off rem (ps ! i) (i - cnt) else ps ! i)" if i: "i < length ps" for i
    proof (cases "cnt + 1 \<le> i \<and> i < cnt + 1 + ?f")
      case True
      then have "0 < ?f"
        by linarith
      then have "MAX_PAYLOAD_SIZE \<le> rem"
        by (cases "MAX_PAYLOAD_SIZE \<le> rem") (simp_all add: min_def)
      moreover from True obtain j where "i = cnt + Suc j"
        by (metis add_Suc_right add_Suc_shift le_add_diff_inverse plus_1_eq_Suc add.commute)
      ultimately show ?thesis
        using True i nth [OF i] by (simp add: fragment_Suc min_absorb1)
    next
      case False
      then show ?thesis
        using i nth [OF i] by (cases "i = cnt") (auto simp: fragment_def fragment_size_def)
    qed
    with r rem f step show ?thesis
      by (intro exI [of _ ps']) simp
  qed
qed

lemma concat_chunks:
  "concat (map (\<lambda>j. take (fragment_size n j) (drop (MAX_PAYLOAD_SIZE * j) xs)) [0..<m])
    = take (min n (MAX_PAYLOAD_SIZE * m)) xs"
proof (induction m)
  case 0
  then show ?case by simp
next
  case (Suc m)
  have "min n (MAX_PAYLOAD_SIZE * Suc m) = min n (MAX_PAYLOAD_SIZE * m) + fragment_size n m"
    by (auto simp: fragment_size_def min_def)
  moreover have "take (fragment_size n m) (drop (MAX_PAYLOAD_SIZE * m) xs)
      = take (fragment_size n m) (drop (min n (MAX_PAYLOAD_SIZE * m)) xs)"
    by (cases "MAX_PAYLOAD_SIZE * m \<le> n") (simp_all add: min_def fragment_size_def)
  ultimately show ?case
    using Suc by (simp add: take_add)
qed

section \<open>Reading packets back\<close>

definition packet_payload :: "packet \<Rightarrow> bytes" where
  "packet_payload p = take (unat (payload_size (header p))) (payload_bytes p)"

definition packet_valid :: "packet \<Rightarrow> bool" where
  "packet_valid p \<longleftrightarrow> magic (header p) = PACKET_MAGIC \<and> version (header p) = PACKET_VERSION \<and>
     unat (payload_size (header p)) \<le> MAX_PAYLOAD_SIZE \<and>
     checksum (header p) = protocol_crc16 (packet_payload p) (unat (payload_size (header p)))"

definition header_decode :: "bytes \<Rightarrow> packet_header" where
  "header_decode b =
     \<lparr>magic = le_word (read_bytes b 0 2), version = b ! 2, pkt_type = b ! 3,
      pkt_sequence = le_word (read_bytes b 4 4), timestamp_us = le_word (read_bytes b 8 8),
      payload_size = le_word (read_bytes b 16 4), checksum = le_word (read_bytes b 20 2)\<rparr>"

text \<open>
  On the wire a packet is its header and the \<open>payload_size\<close> bytes after it.  The receiver side of the
  framing reads one header, checks magic, version, size and checksum.
\<close>

definition wire_enc :: "packet_header \<times> bytes \<Rightarrow> bytes" where
  "wire_enc hp = header_bytes (fst hp) @ snd hp"

definition wire_valid :: "packet_header \<times> bytes \<Rightarrow> bool" where
  "wire_valid hp \<longleftrightarrow> packet_valid \<lparr>header = fst hp, payload_bytes = snd hp\<rparr> \<and>
     length (snd hp) = unat (payload_size (fst hp))"

definition wire_parse :: "bytes \<Rightarrow> ((packet_header \<times> bytes) \<times> nat) option" where
  "wire_parse bs =
     (if length bs < SIZEOF_PACKET_HEADER then None
      else let h = header_decode bs; n = unat (payload_size h);
               pl = take n (drop SIZEOF_PACKET_HEADER bs)
           in if wire_valid (h, pl) then Some ((h, pl), SIZEOF_PACKET_HEADER + n) else None)"

lemma length_header_bytes [simp, layout_simps]: "length (header_bytes h) = 22"
  by (simp add: header_bytes_def)

lemma length_handshake_bytes [simp, layout_simps]: "length (handshake_bytes h) = 10"
  by (simp add: handshake_bytes_def)

lemma header_decode_bytes: "header_decode (header_bytes h @ rest) = h"
proof -
  have "read_bytes (header_bytes h @ rest) 0 2 = le_bytes 2 (magic h)"
    "read_bytes (header_bytes h @ rest) 4 4 = le_bytes 4 (pkt_sequence h)"
    "read_bytes (header_bytes h @ rest) 8 8 = le_bytes 8 (timestamp_us h)"
    "read_bytes (header_bytes h @ rest) 16 4 = le_bytes 4 (payload_size h)"
    "read_bytes (header_bytes h @ rest) 20 2 = le_bytes 2 (checksum h)"
    "(header_bytes h @ rest) ! 2 = version h" "(header_bytes h @ rest) ! 3 = pkt_type h"
    by (simp_all add: read_bytes_def header_bytes_def nth_append del: le_bytes.simps)
  then show ?thesis
    by (simp add: header_decode_def del: le_bytes.simps)
qed

interpretation wire: framing wire_valid wire_enc wire_parse
proof unfold_locales
  fix hp :: "packet_header \<times> bytes" and rest
  assume v: "wire_valid hp"
  obtain h pl where hp: "hp = (h, pl)"
    by (cases hp)
  with v have "length pl = unat (payload_size h)"
    by (simp add: wire_valid_def)
  with v show "wire_parse (wire_enc hp @ rest) = Some (hp, length (wire_enc hp))"
    by (simp add: hp wire_parse_def wire_enc_def header_decode_bytes SIZEOF_PACKET_HEADER_def)
  show "wire_enc hp \<noteq> []"
    using length_header_bytes [of h] by (auto simp: hp wire_enc_def simp del: length_header_bytes)
qed

lemma protocol_crc16_take: "protocol_crc16 (take n xs) n = protocol_crc16 xs n"
  by (simp add: protocol_crc16_def)

lemma fragment_size_le: "fragment_size r j \<le> MAX_PAYLOAD_SIZE"
  by (simp add: fragment_size_def)

lemma unat_of_nat_fragment: "n \<le> MAX_PAYLOAD_SIZE \<Longrightarrow> unat (of_nat n :: u32) = n"
  by (intro unat_of_nat_u32) (simp add: MAX_PAYLOAD_SIZE_def)

lemma fill_packet_payload:
  assumes "psize \<le> MAX_PAYLOAD_SIZE" "length (payload_bytes p) = MAX_PAYLOAD_SIZE"
    and "off + psize \<le> length (nal_data nal)"
  shows "packet_payload (fill_packet nal pt seq off psize p) = take psize (drop off (nal_data nal))"
    and "packet_valid (fill_packet nal pt seq off psize p)"
proof -
  let ?pl = "write_bytes (payload_bytes p) 0 (take psize (drop off (nal_data nal)))"
  have pl: "take psize ?pl = take psize (drop off (nal_data nal))"
    using assms by (simp add: write_bytes_def)
  then show "packet_payload (fill_packet nal pt seq off psize p) = take psize (drop off (nal_data nal))"
    using assms(1) by (simp add: packet_payload_def fill_packet_def Let_def unat_of_nat_fragment)
  show "packet_valid (fill_packet nal pt seq off psize p)"
    using assms(1) by (simp add: packet_valid_def packet_payload_def fill_packet_def Let_def
        unat_of_nat_fragment protocol_crc16_take)
qed

lemma fragment_fits:
  assumes "j < fragments k r" "r \<le> length xs"
  shows "MAX_PAYLOAD_SIZE * j + fragment_size r j \<le> length xs" "0 < fragment_size r j"
proof -
  have "j < (r + 4095) div 4096"
    using assms(1) by (simp add: fragments_def MAX_PAYLOAD_SIZE_def)
  then have "4096 * j < r"
    by linarith
  with assms(2) show "MAX_PAYLOAD_SIZE * j + fragment_size r j \<le> length xs" "0 < fragment_size r j"
    by (simp_all add: fragment_size_def MAX_PAYLOAD_SIZE_def)
qed

lemma pack_nal_unit_fragments:
  assumes "1 \<le> max_packets" "nat max_packets \<le> length ps"
    and "protocol_pack_nal_unit (Some nal) (Some ps) max_packets seq = (ret, seq', Some ps')"
  defines "m \<equiv> fragments (nat max_packets) (unat (nal_size nal))"
  shows "ret = int m" "seq' = seq + of_nat m" "length ps' = length ps" "m \<le> length ps"
    "i < length ps \<Longrightarrow> ps' ! i = (if i < m
       then fragment nal (get_packet_type_from_nal (nal_type nal)) seq 0 (unat (nal_size nal)) (ps ! i) i
       else ps ! i)"
proof -
  from pack_nal_loop_closed [of 0 "nat max_packets" ps nal
      "get_packet_type_from_nal (nal_type nal)" 0 "unat (nal_size nal)" seq] assms(2)
  obtain qs where qs: "pack_nal_loop nal (get_packet_type_from_nal (nal_type nal)) (nat max_packets) 0 0
      (unat (nal_size nal)) seq ps = (m, unat (nal_size nal) - MAX_PAYLOAD_SIZE * m, seq + of_nat m, qs)"
    "length qs = length ps"
    "\<forall>i < length ps. qs ! i = (if i < m
       then fragment nal (get_packet_type_from_nal (nal_type nal)) seq 0 (unat (nal_size nal)) (ps ! i) i
       else ps ! i)"
    unfolding m_def by auto
  with assms(1,3) have "ret = int m" "seq' = seq + of_nat m" "ps' = qs"
    by (simp_all add: protocol_pack_nal_unit_def)
  with qs show "ret = int m" "seq' = seq + of_nat m" "length ps' = length ps"
    "i < length ps \<Longrightarrow> ps' ! i = (if i < m
       then fragment nal (get_packet_type_from_nal (nal_type nal)) seq 0 (unat (nal_size nal)) (ps ! i) i
       else ps ! i)"
    by simp_all
  show "m \<le> length ps"
    using assms(2) by (simp add: m_def fragments_def)
qed

section \<open>Properties\<close>

definition blank_packet :: packet where
  "blank_packet = \<lparr>header = \<lparr>magic = 0, version = 0, pkt_type = 0, pkt_sequence = 0,
     timestamp_us = 0, payload_size = 0, checksum = 0\<rparr>, payload_bytes = replicate MAX_PAYLOAD_SIZE 0\<rparr>"

lemma create_handshake_packet:
  assumes "length (payload_bytes p) = MAX_PAYLOAD_SIZE"
  shows "\<exists>q. protocol_create_handshake (Some p) seq = (ERR_OK, seq + 1, Some q) \<and> packet_valid q \<and>
    length (payload_bytes q) = MAX_PAYLOAD_SIZE"
  using assms protocol_crc16_take [of 10]
  by (auto simp: protocol_create_handshake_def Let_def packet_valid_def packet_payload_def
      SIZEOF_HANDSHAKE_def MAX_PAYLOAD_SIZE_def)

definition sample_nal :: h264_nal_unit where
  "sample_nal = \<lparr>nal_data = replicate 5000 7, nal_size = 5000, nal_type = NAL_TYPE_IDR,
     nal_timestamp_us = 33, nal_frame_num = 1\<rparr>"

lemma sample_nal_packs:
  "\<exists>ret seq' ps'. protocol_pack_nal_unit (Some sample_nal) (Some (replicate 3 blank_packet)) 3 9
     = (ret, seq', Some ps')"
  by (auto simp: protocol_pack_nal_unit_def split: prod.splits)

text \<open>C26: a NAL unit is cut into \<open>min max_packets (ceil (size / 4096))\<close> packets, and their payloads in
  order are the first \<open>max_packets * 4096\<close> bytes of the unit: the whole unit when the array is large
  enough, a silently truncated one (with a positive packet count) when it is not.\<close>

theorem pack_nal_reassembly:
  assumes "1 \<le> max_packets" "nat max_packets \<le> length ps"
    and "\<forall>p \<in> set ps. length (payload_bytes p) = MAX_PAYLOAD_SIZE"
    and "unat (nal_size nal) = length (nal_data nal)"
    and "protocol_pack_nal_unit (Some nal) (Some ps) max_packets seq = (ret, seq', Some ps')"
  shows "concat (map packet_payload (take (nat ret) ps'))
      = take (nat max_packets * MAX_PAYLOAD_SIZE) (nal_data nal) \<and>
    ret = int (min (nat max_packets)
      ((length (nal_data nal) + (MAX_PAYLOAD_SIZE - 1)) div MAX_PAYLOAD_SIZE))"
proof
  let ?n = "length (nal_data nal)"
  let ?m = "fragments (nat max_packets) ?n"
  note r = pack_nal_unit_fragments [OF assms(1,2,5), unfolded assms(4)]
  have pay: "packet_payload (ps' ! i)
      = take (fragment_size ?n i) (drop (MAX_PAYLOAD_SIZE * i) (nal_data nal))" if "i < ?m" for i
  proof -
    have "length (payload_bytes (ps ! i)) = MAX_PAYLOAD_SIZE"
      using assms(3) that r(4) by (simp add: less_le_trans)
    with that r(4) fragment_fits(1) [OF that, of "nal_data nal"] show ?thesis
      by (simp add: r(5) fragment_def fill_packet_payload(1) fragment_size_le)
  qed
  have "map packet_payload (take (nat ret) ps')
      = map (\<lambda>j. take (fragment_size ?n j) (drop (MAX_PAYLOAD_SIZE * j) (nal_data nal))) [0..<?m]"
    using r(1,3,4) pay by (intro nth_equalityI) simp_all
  then have "concat (map packet_payload (take (nat ret) ps'))
      = take (min ?n (MAX_PAYLOAD_SIZE * ?m)) (nal_data nal)"
    by (simp only: concat_chunks)
  moreover have "min ?n (MAX_PAYLOAD_SIZE * ?m) = min ?n (nat max_packets * MAX_PAYLOAD_SIZE)"
    unfolding fragments_def MAX_PAYLOAD_SIZE_def by (simp add: min_def) linarith
  ultimately show "concat (map packet_payload (take (nat ret) ps'))
      = take (nat max_packets * MAX_PAYLOAD_SIZE) (nal_data nal)"
    by (metis min.commute take_take take_all order_refl)
  show "ret = int (min (nat max_packets)
      ((?n + (MAX_PAYLOAD_SIZE - 1)) div MAX_PAYLOAD_SIZE))"
    using r(1) by (simp add: fragments_def)
qed

theorem pack_nal_reassembly_witness:
  "\<exists>ret seq' ps'. protocol_pack_nal_unit (Some sample_nal) (Some (replicate 3 blank_packet)) 3 9
      = (ret, seq', Some ps') \<and> ret = 2 \<and>
    concat (map packet_payload (take 2 ps')) = replicate 5000 7"
proof -
  obtain ret seq' ps' where r: "protocol_pack_nal_unit (Some sample_nal)
      (Some (replicate 3 blank_packet)) 3 9 = (ret, seq', Some ps')"
    using sample_nal_packs by blast
  have "ret = 2 \<and> concat (map packet_payload (take 2 ps')) = replicate 5000 7"
    using pack_nal_reassembly [OF _ _ _ _ r]
    by (auto simp: sample_nal_def blank_packet_def MAX_PAYLOAD_SIZE_def)
  with r show ?thesis
    by blast
qed

text \<open>Every packet of a fragmented unit is valid for a receiver (magic, version, size at most 4096,
  checksum), carries the packet type of the unit's NAL type and its timestamp; the packets are
  numbered consecutively from the global sequence number, which advances by the packet count, and no
  packet beyond the count is touched.\<close>

lemma pack_nal_headers:
  assumes "1 \<le> max_packets" "nat max_packets \<le> length ps"
    and "\<forall>p \<in> set ps. length (payload_bytes p) = MAX_PAYLOAD_SIZE"
    and "unat (nal_size nal) = length (nal_data nal)"
    and "protocol_pack_nal_unit (Some nal) (Some ps) max_packets seq = (ret, seq', Some ps')"
  shows "0 \<le> ret \<and> seq' = seq + of_int ret \<and> drop (nat ret) ps' = drop (nat ret) ps \<and>
    (\<forall>i < nat ret. packet_valid (ps' ! i) \<and> pkt_sequence (header (ps' ! i)) = seq + of_nat i \<and>
       timestamp_us (header (ps' ! i)) = nal_timestamp_us nal \<and>
       pkt_type (header (ps' ! i)) = get_packet_type_from_nal (nal_type nal))"
proof -
  let ?m = "fragments (nat max_packets) (length (nal_data nal))"
  note r = pack_nal_unit_fragments [OF assms(1,2,5), unfolded assms(4)]
  have "packet_valid (ps' ! i)" if "i < ?m" for i
  proof -
    have "length (payload_bytes (ps ! i)) = MAX_PAYLOAD_SIZE"
      using assms(3) that r(4) by (simp add: less_le_trans)
    with that r(4) fragment_fits(1) [OF that, of "nal_data nal"] show ?thesis
      by (simp add: r(5) fragment_def fill_packet_payload(2) fragment_size_le)
  qed
  moreover have "drop ?m ps' = drop ?m ps"
    using r(3,4,5) by (intro nth_equalityI) simp_all
  ultimately show ?thesis
    using r by (simp add: fragment_def fill_packet_def Let_def)
qed

text \<open>The handshake packet is valid for a receiver, takes the next sequence number, and its payload
  is the 10-byte structure with the configured width, height, frame rate, codec 1 and bit rate, each
  little endian at its offset.\<close>

lemma handshake_received:
  assumes "length (payload_bytes p) = MAX_PAYLOAD_SIZE"
  shows "\<exists>q. protocol_create_handshake (Some p) seq = (ERR_OK, seq + 1, Some q) \<and>
    packet_valid q \<and> pkt_type (header q) = PKT_TYPE_HANDSHAKE \<and> pkt_sequence (header q) = seq \<and>
    packet_payload q = le_bytes 2 CONFIG_CAMERA_WIDTH @ le_bytes 2 CONFIG_CAMERA_HEIGHT @
      [CONFIG_CAMERA_FPS, 1] @ le_bytes 4 CONFIG_ENCODER_BITRATE \<and>
    parse_stream wire_parse (take (SIZEOF_PACKET_HEADER + SIZEOF_HANDSHAKE) (packet_bytes q))
      = ([(header q, packet_payload q)], [])"
proof -
  let ?h = "handshake_bytes handshake_of_config"
  let ?pl = "write_bytes (payload_bytes p) 0 ?h"
  let ?q = "\<lparr>header = \<lparr>magic = PACKET_MAGIC, version = PACKET_VERSION,
      pkt_type = PKT_TYPE_HANDSHAKE, pkt_sequence = seq, timestamp_us = 0, payload_size = 10,
      checksum = protocol_crc16 ?pl SIZEOF_HANDSHAKE\<rparr>, payload_bytes = ?pl\<rparr>"
  have make: "protocol_create_handshake (Some p) seq = (ERR_OK, seq + 1, Some ?q)"
    by (simp add: protocol_create_handshake_def Let_def SIZEOF_HANDSHAKE_def)
  have take: "take 10 ?pl = ?h"
    using assms write_bytes_0_take [of ?h "payload_bytes p"] by (simp add: MAX_PAYLOAD_SIZE_def)
  have valid: "packet_valid ?q"
    using protocol_crc16_take [of 10 ?pl]
    by (simp add: packet_valid_def packet_payload_def SIZEOF_HANDSHAKE_def MAX_PAYLOAD_SIZE_def)
  have pay: "packet_payload ?q = ?h"
    by (simp add: packet_payload_def take)
  have "wire_valid (header ?q, ?h)"
    using valid unfolding wire_valid_def packet_valid_def pay
    by (simp add: packet_payload_def)
  moreover have "take (SIZEOF_PACKET_HEADER + SIZEOF_HANDSHAKE) (packet_bytes ?q)
      = wire_enc (header ?q, ?h)"
    by (simp add: packet_bytes_def wire_enc_def SIZEOF_PACKET_HEADER_def SIZEOF_HANDSHAKE_def take)
  moreover have "wire_parse [] = None"
    by (simp add: wire_parse_def SIZEOF_PACKET_HEADER_def)
  ultimately have "parse_stream wire_parse (take (SIZEOF_PACKET_HEADER + SIZEOF_HANDSHAKE) (packet_bytes ?q))
      = ([(header ?q, packet_payload ?q)], [])"
    using wire.parse_stream_frames [of "[(header ?q, ?h)]" "[]"] unfolding pay by simp
  with make valid pay show ?thesis
    by (intro exI [of _ ?q]) (simp add: handshake_bytes_def handshake_of_config_def)
qed

end
