(* ===== verification/UsbTransport.thy ===== *)
theory UsbTransport
  imports Os ProtocolHandler
begin

section \<open>The USB CDC transport (usb_transport.c)\<close>

text \<open>
  The transport's global structure, opening the device with retries, and the two write loops.  The
  host's behaviour is an argument: \<open>opens k\<close> is what \<open>open\<close> returns on the \<open>k\<close>-th try (a descriptor or
  -1), \<open>wr k r\<close> what \<open>write\<close> returns on the \<open>k\<close>-th try when \<open>r\<close> bytes are requested.  Every operation
  returns its C result, the structure and the trace of its system calls; the bytes of an \<open>OsWrite\<close>
  event are the ones the device accepted.  Sleeping and logging are left out.  Sizes are natural
  numbers; the theorems bound them by what \<open>ssize_t\<close> holds where it matters.
\<close>

subsection \<open>State\<close>

definition USB_TX_BUFFER_COUNT :: nat where "USB_TX_BUFFER_COUNT = 4"
definition USB_TX_BUFFER_SIZE :: nat where "USB_TX_BUFFER_SIZE = 8192"

record usb_tx_buffer =
  tx_data :: bytes
  tx_size :: u32
  tx_in_use :: bool

record usb_transport =
  usb_fd :: int
  usb_buffers :: "usb_tx_buffer list"
  current_buffer :: u32
  bytes_sent :: u32
  connected :: bool

definition usb_zero :: usb_transport where
  "usb_zero = \<lparr>usb_fd = 0,
     usb_buffers = replicate USB_TX_BUFFER_COUNT
       \<lparr>tx_data = replicate USB_TX_BUFFER_SIZE 0, tx_size = 0, tx_in_use = False\<rparr>,
     current_buffer = 0, bytes_sent = 0, connected = False\<rparr>"

subsection \<open>Operations\<close>

text \<open>The open loop, on the number of tries left; it returns the value of \<open>fd\<close> when it stops.\<close>

fun usb_open_loop :: "(nat \<Rightarrow> int) \<Rightarrow> nat \<Rightarrow> nat \<Rightarrow> int \<times> trace" where
  "usb_open_loop opens 0 retry = (-1, [])"
| "usb_open_loop opens (Suc k) retry =
     (if opens retry \<ge> 0 then (opens retry, [OsOpen (opens retry)])
      else usb_open_loop opens k (retry + 1))"

definition usb_transport_init :: "(nat \<Rightarrow> int) \<Rightarrow> int \<times> usb_transport \<times> trace" where
  "usb_transport_init opens =
     (case usb_open_loop opens 10 0 of (fd, tr) \<Rightarrow>
        if fd < 0 then (ERR_USB_OPEN, usb_zero\<lparr>usb_fd := fd\<rparr>, tr)
        else (ERR_OK, usb_zero\<lparr>usb_fd := fd, connected := True, bytes_sent := 0,
                current_buffer := 0\<rparr>, tr))"

definition usb_transport_wait_connection :: "usb_transport \<Rightarrow> int" where
  "usb_transport_wait_connection s = (if usb_fd s < 0 then ERR_USB_INIT else ERR_OK)"

definition is_temporary :: "int \<Rightarrow> bool" where
  "is_temporary e \<longleftrightarrow> e = EAGAIN \<or> e = EWOULDBLOCK"

fun usb_send_loop ::
  "(nat \<Rightarrow> nat \<Rightarrow> write_result) \<Rightarrow> bytes \<Rightarrow> nat \<Rightarrow> nat \<Rightarrow> nat \<Rightarrow> usb_transport
     \<Rightarrow> int \<times> usb_transport \<times> trace" where
  "usb_send_loop wr data total_size 0 retry s =
     (ERR_USB_DISCONNECTED, s\<lparr>connected := False\<rparr>, [])"
| "usb_send_loop wr data total_size (Suc k) retry s =
     (case wr retry total_size of
        Wrote n \<Rightarrow>
          if n = total_size
          then (int n, s\<lparr>bytes_sent := bytes_sent s + of_nat n\<rparr>, [OsWrite (usb_fd s) (take n data)])
          else (ERR_USB_WRITE, s, [OsWrite (usb_fd s) (take n data)])
      | WriteErr e \<Rightarrow>
          if is_temporary e then usb_send_loop wr data total_size k (retry + 1) s
          else (ERR_USB_WRITE, s, []))"

definition usb_transport_send ::
  "(nat \<Rightarrow> nat \<Rightarrow> write_result) \<Rightarrow> packet option \<Rightarrow> usb_transport \<Rightarrow> int \<times> usb_transport \<times> trace" where
  "usb_transport_send wr packet s =
     (if usb_fd s < 0 then (ERR_USB_INIT, s, [])
      else (case packet of
          None \<Rightarrow> (ERR_USB_WRITE, s, [])
        | Some p \<Rightarrow>
            let total_size = unat (of_nat SIZEOF_PACKET_HEADER + payload_size (header p))
            in usb_send_loop wr (packet_bytes p) total_size CONFIG_MAX_RECONNECT_RETRY 0 s))"

fun usb_send_bytes_loop ::
  "(nat \<Rightarrow> nat \<Rightarrow> write_result) \<Rightarrow> bytes \<Rightarrow> nat \<Rightarrow> nat \<Rightarrow> nat \<Rightarrow> nat \<Rightarrow> usb_transport
     \<Rightarrow> int \<times> usb_transport \<times> trace" where
  "usb_send_bytes_loop wr data n 0 retry total_written s =
     (ERR_USB_DISCONNECTED, s\<lparr>connected := False\<rparr>, [])"
| "usb_send_bytes_loop wr data n (Suc k) retry total_written s =
     (case wr retry (n - total_written) of
        Wrote w \<Rightarrow>
          if w > 0 then
            let total' = total_written + w;
                s' = s\<lparr>bytes_sent := bytes_sent s + of_nat w\<rparr>;
                ev = OsWrite (usb_fd s) (take w (drop total_written data))
            in if total' = n then (int total', s', [ev])
               else (case usb_send_bytes_loop wr data n k (retry + 1) total' s' of
                       (ret, s'', tr) \<Rightarrow> (ret, s'', ev # tr))
          else usb_send_bytes_loop wr data n k (retry + 1) total_written s
      | WriteErr e \<Rightarrow>
          if is_temporary e then usb_send_bytes_loop wr data n k (retry + 1) total_written s
          else (ERR_USB_WRITE, s\<lparr>connected := False\<rparr>, []))"

definition usb_transport_send_bytes ::
  "(nat \<Rightarrow> nat \<Rightarrow> write_result) \<Rightarrow> bytes option \<Rightarrow> nat \<Rightarrow> usb_transport
     \<Rightarrow> int \<times> usb_transport \<times> trace" where
  "usb_transport_send_bytes wr data n s =
     (if usb_fd s < 0 then (ERR_USB_INIT, s, [])
      else if data = None \<or> n = 0 then (ERR_USB_WRITE, s, [])
      else usb_send_bytes_loop wr (the data) n CONFIG_MAX_RECONNECT_RETRY 0 0 s)"

definition usb_transport_is_connected :: "usb_transport \<Rightarrow> bool" where
  "usb_transport_is_connected s \<longleftrightarrow> connected s \<and> usb_fd s \<ge> 0"

definition usb_transport_cleanup :: "usb_transport \<Rightarrow> int \<times> usb_transport \<times> trace" where
  "usb_transport_cleanup s =
     (if usb_fd s \<ge> 0
      then (ERR_OK, s\<lparr>usb_fd := -1, connected := False\<rparr>, [OsClose (usb_fd s)])
      else (ERR_OK, s\<lparr>connected := False\<rparr>, []))"

section \<open>The contract of a byte sink\<close>

text \<open>
  What the senders of the application rely on: a send either succeeds, and then exactly the bytes
  given are on the wire, or fails, and then a proper prefix of them is.  \<open>run_sink\<close> is a sender that
  stops at the first failure: its wire is a prefix of the concatenated messages which ends inside the
  first message that failed.
\<close>

fun run_sink :: "('e \<Rightarrow> bytes \<Rightarrow> 's \<Rightarrow> bool \<times> 's \<times> bytes) \<Rightarrow> ('e \<times> bytes) list \<Rightarrow> 's
    \<Rightarrow> nat \<times> 's \<times> bytes" where
  "run_sink send [] s = (0, s, [])"
| "run_sink send ((e, m) # ms) s =
     (case send e m s of (ok, s', w) \<Rightarrow>
        if ok then (case run_sink send ms s' of (n, s'', ws) \<Rightarrow> (Suc n, s'', w @ ws))
        else (0, s', w))"

locale byte_sink =
  fixes send :: "'e \<Rightarrow> bytes \<Rightarrow> 's \<Rightarrow> bool \<times> 's \<times> bytes"
    and inv :: "'s \<Rightarrow> bool"
    and env_ok :: "'e \<Rightarrow> bool"
  assumes send_ok: "inv s \<Longrightarrow> env_ok e \<Longrightarrow> send e m s = (True, s', w) \<Longrightarrow> w = m"
    and send_fail: "inv s \<Longrightarrow> env_ok e \<Longrightarrow> send e m s = (False, s', w) \<Longrightarrow> \<exists>k \<le> length m. w = take k m"
    and send_inv: "inv s \<Longrightarrow> env_ok e \<Longrightarrow> send e m s = (ok, s', w) \<Longrightarrow> inv s'"
begin

lemma run_sink_wire:
  assumes "inv s" "\<forall>(e, m) \<in> set ms. env_ok e" "run_sink send ms s = (n, s', w)"
  shows "n \<le> length ms \<and> inv s' \<and>
    (n = length ms \<and> w = concat (map snd ms) \<or>
     n < length ms \<and> (\<exists>k \<le> length (snd (ms ! n)).
       w = concat (map snd (take n ms)) @ take k (snd (ms ! n))))"
  using assms
proof (induction ms arbitrary: s n w)
  case Nil
  then show ?case by simp
next
  case (Cons em ms)
  obtain e m where em: "em = (e, m)"
    by (cases em)
  obtain ok s1 w1 where r: "send e m s = (ok, s1, w1)"
    by (cases "send e m s")
  have env: "env_ok e"
    using Cons.prems(2) em by simp
  note inv = send_inv [OF Cons.prems(1) env r]
  show ?case
  proof (cases ok)
    case False
    with r Cons.prems(3) have "n = 0" "s' = s1" "w = w1"
      by (simp_all add: em)
    with send_fail [OF Cons.prems(1) env] r False inv show ?thesis
      by (simp add: em)
  next
    case True
    obtain n2 w2 where rest: "run_sink send ms s1 = (n2, s', w2)" "n = Suc n2" "w = w1 @ w2"
      using r True Cons.prems(3) by (auto simp: em split: prod.splits)
    have "w1 = m"
      using send_ok [OF Cons.prems(1) env, of m s1 w1] r True by simp
    with Cons.IH [OF inv _ rest(1)] Cons.prems(2) rest show ?thesis
      by (auto simp: em)
  qed
qed

end

section \<open>What the write loops do\<close>

text \<open>\<open>write\<close> accepts at most what it is asked to write.\<close>

definition write_contract :: "(nat \<Rightarrow> nat \<Rightarrow> write_result) \<Rightarrow> bool" where
  "write_contract wr \<longleftrightarrow> (\<forall>k r n. wr k r = Wrote n \<longrightarrow> n \<le> r)"

lemma write_contractD: "write_contract wr \<Longrightarrow> wr k r = Wrote n \<Longrightarrow> n \<le> r"
  by (auto simp: write_contract_def)

lemma send_bytes_loop_outcome:
  assumes "write_contract wr" "tot < n" "n \<le> length data"
    and "usb_send_bytes_loop wr data n k retry tot s = (ret, s', tr)"
  shows "\<exists>m. m \<le> n - tot \<and> written (usb_fd s) tr = take m (drop tot data) \<and> writes tr \<le> k \<and>
    usb_fd s' = usb_fd s \<and> bytes_sent s' = bytes_sent s + of_nat m \<and>
    (ret = int n \<and> m = n - tot \<and> connected s' = connected s \<or>
     (ret = ERR_USB_WRITE \<or> ret = ERR_USB_DISCONNECTED) \<and> m < n - tot \<and> \<not> connected s')"
  using assms
proof (induction k arbitrary: retry tot s ret s' tr)
  case 0
  then show ?case
    by (intro exI [of _ 0]) auto
next
  case (Suc k)
  show ?case
  proof (cases "wr retry (n - tot)")
    case (WriteErr e)
    show ?thesis
    proof (cases "is_temporary e")
      case True
      with Suc.IH [of tot "retry + 1" s ret s' tr] Suc.prems WriteErr show ?thesis
        by auto
    next
      case False
      with Suc.prems WriteErr show ?thesis
        by (intro exI [of _ 0]) auto
    qed
  next
    case (Wrote w)
    note le = write_contractD [OF Suc.prems(1) Wrote]
    show ?thesis
    proof (cases "w = 0")
      case True
      with Suc.IH [of tot "retry + 1" s ret s' tr] Suc.prems Wrote show ?thesis
        by auto
    next
      case False
      let ?s = "s\<lparr>bytes_sent := bytes_sent s + of_nat w\<rparr>"
      show ?thesis
      proof (cases "tot + w = n")
        case True
        with Suc.prems Wrote False show ?thesis
          by (intro exI [of _ w]) auto
      next
        case neq: False
        obtain tr' where r: "usb_send_bytes_loop wr data n k (retry + 1) (tot + w) ?s = (ret, s', tr')"
          and tr: "tr = OsWrite (usb_fd s) (take w (drop tot data)) # tr'"
          using Suc.prems(4) Wrote False neq by (auto simp: Let_def split: prod.splits)
        have lt: "tot + w < n"
          using le neq Suc.prems(2) by linarith
        from Suc.IH [OF Suc.prems(1) lt Suc.prems(3) r] obtain m where
          m: "m \<le> n - (tot + w)" "written (usb_fd s) tr' = take m (drop (tot + w) data)"
            "writes tr' \<le> k" "usb_fd s' = usb_fd s" "bytes_sent s' = bytes_sent s + of_nat w + of_nat m"
            "ret = int n \<and> m = n - (tot + w) \<and> connected s' = connected s \<or>
             (ret = ERR_USB_WRITE \<or> ret = ERR_USB_DISCONNECTED) \<and> m < n - (tot + w) \<and> \<not> connected s'"
          by auto
        have "written (usb_fd s) tr = take (w + m) (drop tot data)"
          using m(2) tr by (simp add: take_add [of w m] add.commute [of tot w])
        then show ?thesis
          using m tr lt by (intro exI [of _ "w + m"]) auto
      qed
    qed
  qed
qed

lemma send_bytes_loop_slow:
  assumes "\<And>k r n. wr k r = Wrote n \<Longrightarrow> n \<le> c" "tot + c * k < n"
    and "usb_send_bytes_loop wr data n k retry tot s = (ret, s', tr)"
  shows "ret = ERR_USB_WRITE \<or> ret = ERR_USB_DISCONNECTED"
  using assms(2,3)
proof (induction k arbitrary: retry tot s ret s' tr)
  case 0
  then show ?case by simp
next
  case (Suc k)
  show ?case
  proof (cases "wr retry (n - tot)")
    case (WriteErr e)
    with Suc.IH [of tot "retry + 1" s ret s' tr] Suc.prems show ?thesis
      by (auto split: if_splits)
  next
    case (Wrote w)
    with assms(1) have "w \<le> c"
      by blast
    with Suc.prems(1) have lt: "tot + w + c * k < n"
      by simp
    with Suc.IH [OF lt] Suc.IH [of tot] Suc.prems Wrote show ?thesis
      by (auto simp: Let_def split: if_splits prod.splits)
  qed
qed

lemma send_bytes_outcome:
  assumes "write_contract wr" "0 \<le> usb_fd s" "0 < n" "n \<le> length data"
    and "usb_transport_send_bytes wr (Some data) n s = (ret, s', tr)"
  shows "\<exists>m. m \<le> n \<and> written (usb_fd s) tr = take m data \<and> writes tr \<le> CONFIG_MAX_RECONNECT_RETRY \<and>
    usb_fd s' = usb_fd s \<and> bytes_sent s' = bytes_sent s + of_nat m \<and>
    (ret = int n \<and> m = n \<and> connected s' = connected s \<or>
     (ret = ERR_USB_WRITE \<or> ret = ERR_USB_DISCONNECTED) \<and> m < n \<and> \<not> connected s')"
  using assms send_bytes_loop_outcome [of wr 0 n data CONFIG_MAX_RECONNECT_RETRY 0 s ret s' tr]
  by (simp add: usb_transport_send_bytes_def)

lemma usb_send_loop_outcome:
  assumes "usb_send_loop wr data n k retry s = (ret, s', tr)" "write_contract wr" "n \<le> length data" "0 < n"
  shows "\<exists>m \<le> n. written (usb_fd s) tr = take m data \<and> writes tr \<le> 1 \<and> usb_fd s' = usb_fd s \<and>
    (ret = int n \<and> m = n \<and> s' = s\<lparr>bytes_sent := bytes_sent s + of_nat n\<rparr> \<or>
     ret = ERR_USB_WRITE \<and> m < n \<and> s' = s \<or>
     ret = ERR_USB_DISCONNECTED \<and> m = 0 \<and> s' = s\<lparr>connected := False\<rparr>)"
  using assms
proof (induction wr data n k retry s rule: usb_send_loop.induct)
  case (1 wr data n retry s)
  then show ?case by auto
next
  case (2 wr data n k retry s)
  show ?case
  proof (cases "wr retry n")
    case (Wrote w)
    with write_contractD [OF 2(3) Wrote] 2(2) show ?thesis
      by (cases "w = n") auto
  next
    case (WriteErr e)
    with 2 show ?thesis
      by (cases "is_temporary e") auto
  qed
qed

text \<open>Whatever the host answers, the byte sender keeps the descriptor and makes no call but \<open>write\<close>.\<close>

lemma usb_send_bytes_loop_fd: "usb_fd (fst (snd (usb_send_bytes_loop wr data n k retry tot s))) = usb_fd s"
proof (induction k arbitrary: retry tot s)
  case (Suc k)
  show ?case
  proof (cases "wr retry (n - tot)")
    case (Wrote w)
    then show ?thesis
      using Suc.IH [of "retry + 1" "tot + w" "s\<lparr>bytes_sent := bytes_sent s + of_nat w\<rparr>"] Suc.IH [of "retry + 1" tot s]
      by (simp add: Let_def case_prod_beta)
  next
    case (WriteErr e)
    then show ?thesis
      using Suc.IH [of "retry + 1" tot s] by simp
  qed
qed simp

lemma usb_send_bytes_fd: "usb_transport_send_bytes wr data n s = (ret, s', tr) \<Longrightarrow> usb_fd s' = usb_fd s"
  using usb_send_bytes_loop_fd [of wr "the data" n CONFIG_MAX_RECONNECT_RETRY 0 0 s]
  by (auto simp: usb_transport_send_bytes_def split: if_splits)

lemma usb_send_bytes_loop_balanced: "balanced (snd (snd (usb_send_bytes_loop wr data n k retry tot s)))"
proof (induction k arbitrary: retry tot s)
  case (Suc k)
  show ?case
  proof (cases "wr retry (n - tot)")
    case (Wrote w)
    then show ?thesis
      using Suc.IH [of "retry + 1" "tot + w" "s\<lparr>bytes_sent := bytes_sent s + of_nat w\<rparr>"] Suc.IH [of "retry + 1" tot s]
      by (simp add: Let_def case_prod_beta balanced_def)
  next
    case (WriteErr e)
    then show ?thesis
      using Suc.IH [of "retry + 1" tot s] by simp
  qed
qed simp

lemma usb_send_bytes_balanced: "usb_transport_send_bytes wr data n s = (ret, s', tr) \<Longrightarrow> balanced tr"
  using usb_send_bytes_loop_balanced [of wr "the data" n CONFIG_MAX_RECONNECT_RETRY 0 0 s]
  by (auto simp: usb_transport_send_bytes_def split: if_splits)

text \<open>
  The transport is a byte sink: its environment is the host's answers, its state the descriptor and
  the connection flag.
\<close>

definition sink_send ::
  "(nat \<Rightarrow> nat \<Rightarrow> write_result) \<Rightarrow> bytes \<Rightarrow> usb_transport \<Rightarrow> bool \<times> usb_transport \<times> bytes" where
  "sink_send wr m s =
     (case usb_transport_send_bytes wr (Some m) (length m) s of
        (ret, s', tr) \<Rightarrow> (0 \<le> ret, s', written (usb_fd s) tr))"

lemma sink_send_outcome:
  assumes "0 \<le> usb_fd s" "write_contract wr" "sink_send wr m s = (ok, s', w)"
  shows "0 \<le> usb_fd s' \<and> (if ok then w = m else \<exists>k \<le> length m. w = take k m)"
proof (cases "m = []")
  case True
  with assms show ?thesis
    by (auto simp: sink_send_def usb_transport_send_bytes_def ERR_USB_WRITE_def)
next
  case False
  obtain ret tr where r: "usb_transport_send_bytes wr (Some m) (length m) s = (ret, s', tr)"
    "ok = (0 \<le> ret)" "w = written (usb_fd s) tr"
    using assms(3) by (auto simp: sink_send_def split: prod.splits)
  from send_bytes_outcome [OF assms(2,1) _ _ r(1)] False obtain k where
    "k \<le> length m" "written (usb_fd s) tr = take k m" "usb_fd s' = usb_fd s"
    "ret = int (length m) \<and> k = length m \<or> ret = ERR_USB_WRITE \<or> ret = ERR_USB_DISCONNECTED"
    by auto
  with r assms(1) show ?thesis
    by (auto simp: ERR_USB_WRITE_def ERR_USB_DISCONNECTED_def)
qed

interpretation usb: byte_sink sink_send "\<lambda>s. 0 \<le> usb_fd s" write_contract
  using sink_send_outcome by unfold_locales (metis (full_types))+

section \<open>Opening the device\<close>

lemma usb_open_loop_miss:
  "\<forall>i < k. \<not> 0 \<le> opens (retry + i) \<Longrightarrow> usb_open_loop opens k retry = (-1, [])"
proof (induction k arbitrary: retry)
  case (Suc k)
  from Suc.prems have "\<not> 0 \<le> opens retry" "\<forall>i < k. \<not> 0 \<le> opens (retry + 1 + i)"
    by (force, metis Suc_less_eq add_Suc_right add_Suc_shift plus_1_eq_Suc add.assoc)
  with Suc.IH show ?case
    by simp
qed simp

lemma usb_open_loop_hit:
  "j < k \<Longrightarrow> 0 \<le> opens (retry + j) \<Longrightarrow> \<forall>i < j. \<not> 0 \<le> opens (retry + i) \<Longrightarrow>
     usb_open_loop opens k retry = (opens (retry + j), [OsOpen (opens (retry + j))])"
proof (induction k arbitrary: retry j)
  case (Suc k)
  show ?case
  proof (cases j)
    case (Suc i)
    from Suc.prems(3) Suc have "\<not> 0 \<le> opens retry"
      by force
    moreover have "usb_open_loop opens k (retry + 1) = (opens (retry + 1 + i), [OsOpen (opens (retry + 1 + i))])"
      using Suc.prems Suc by (intro Suc.IH) auto
    ultimately show ?thesis
      using Suc by simp
  qed (use Suc.prems in simp)
qed simp

lemma open_loop_least:
  assumes "(k :: nat) < n" "0 \<le> (opens k :: int)"
  shows "\<exists>j < n. 0 \<le> opens j \<and> (\<forall>i < j. \<not> 0 \<le> opens i)"
proof (intro exI conjI allI impI)
  show "(LEAST k. 0 \<le> opens k) < n"
    using Least_le [of "\<lambda>k. 0 \<le> opens k", OF assms(2)] assms(1) by simp
  show "0 \<le> opens (LEAST k. 0 \<le> opens k)"
    using assms(2) by (rule LeastI)
  show "\<not> 0 \<le> opens i" if "i < (LEAST k. 0 \<le> opens k)" for i
    using that by (rule not_less_Least)
qed

text \<open>The device is a resource: sends keep its descriptor.\<close>

lemma usb_open_loop_trace:
  "usb_open_loop opens k retry = (fd, tr) \<Longrightarrow>
     allocs tr = [] \<and> frees tr = [] \<and> closed_fds tr = {} \<and> open_fds tr = (if 0 \<le> fd then {fd} else {})"
  by (induction opens k retry rule: usb_open_loop.induct) (auto split: if_splits)

interpretation usb_dev: resource usb_transport_init usb_transport_cleanup "\<lambda>opens. True"
  "\<lambda>s s'. usb_fd s' = usb_fd s"
proof unfold_locales
  fix opens r s t
  assume "usb_transport_init opens = (r, s, t)"
  then obtain fd where fd: "usb_open_loop opens 10 0 = (fd, t)"
    "fd < 0 \<and> r = ERR_USB_OPEN \<or> 0 \<le> fd \<and> r = ERR_OK \<and> usb_fd s = fd"
    by (auto simp: usb_transport_init_def split: prod.splits if_splits)
  note tr = usb_open_loop_trace [OF fd(1)]
  show "balanced t" if "r < 0"
    using tr fd(2) that by (auto simp: balanced_def ERR_OK_def)
  show "balanced (t @ t')" if "\<not> r < 0" "usb_fd s' = usb_fd s" "usb_transport_cleanup s' = (r', s'', t')"
    for s' r' s'' t'
    using tr fd(2) that by (auto simp: balanced_def ERR_USB_OPEN_def usb_transport_cleanup_def)
qed

section \<open>Properties\<close>

text \<open>C25: sending raw bytes is all or disconnect. In at most three writes, either the whole buffer is on the
  wire, in order, and its size is returned with the connection state unchanged; or the call fails
  with ERR_USB_WRITE or ERR_USB_DISCONNECTED, only a proper prefix is on the wire and the transport
  is marked disconnected. The byte counter advances by exactly what was accepted.\<close>

theorem usb_send_bytes_all_or_disconnect:
  assumes "write_contract wr" "0 \<le> usb_fd s" "0 < n" "n \<le> length data"
    and "usb_transport_send_bytes wr (Some data) n s = (ret, s', tr)"
  shows "\<exists>m. m \<le> n \<and> written (usb_fd s) tr = take m data \<and> writes tr \<le> CONFIG_MAX_RECONNECT_RETRY \<and>
    usb_fd s' = usb_fd s \<and> bytes_sent s' = bytes_sent s + of_nat m \<and>
    (ret = int n \<and> m = n \<and> connected s' = connected s \<or>
     (ret = ERR_USB_WRITE \<or> ret = ERR_USB_DISCONNECTED) \<and> m < n \<and> \<not> connected s')"
  using assms by (rule send_bytes_outcome)

theorem usb_send_bytes_all_or_disconnect_witness:
  "\<exists>m. m \<le> 4 \<and> written 3 [OsWrite 3 [1, 2], OsWrite 3 [3, 4]] = take m [1, 2, 3, 4] \<and> m = 4"
proof -
  let ?wr = "\<lambda>k r. if k = 0 then Wrote (min 2 r) else Wrote r"
  have c: "write_contract ?wr"
    by (auto simp: write_contract_def split: if_splits)
  have run: "usb_transport_send_bytes ?wr (Some [1, 2, 3, 4]) 4 (usb_zero\<lparr>usb_fd := 3\<rparr>)
      = (4, usb_zero\<lparr>usb_fd := 3, bytes_sent := 4\<rparr>, [OsWrite 3 [1, 2], OsWrite 3 [3, 4]])"
    by (simp add: usb_transport_send_bytes_def CONFIG_MAX_RECONNECT_RETRY_def numeral_3_eq_3 usb_zero_def)
  from usb_send_bytes_all_or_disconnect [OF c _ _ _ run] show ?thesis
    by (auto simp: usb_zero_def ERR_USB_WRITE_def ERR_USB_DISCONNECTED_def)
qed

text \<open>Partial writes use up the three-try budget, so a connected host that accepts at most \<open>c\<close> bytes per
  write can never be sent a buffer longer than three times \<open>c\<close>: the call returns an error even
  though no write fails.\<close>

lemma usb_send_bytes_slow_host_fails:
  assumes "\<And>k r n. wr k r = Wrote n \<Longrightarrow> n \<le> c" and "0 \<le> usb_fd s" "0 < n"
    and "CONFIG_MAX_RECONNECT_RETRY * c < n"
    and "usb_transport_send_bytes wr (Some data) n s = (ret, s', tr)"
  shows "ret = ERR_USB_WRITE \<or> ret = ERR_USB_DISCONNECTED"
  using assms send_bytes_loop_slow [of wr c 0 CONFIG_MAX_RECONNECT_RETRY n data 0 s ret s' tr]
  by (simp add: usb_transport_send_bytes_def mult.commute)

text \<open>A packet send is one accepted write or none. For a packet that a receiver would accept, a
  non-negative result means the receiver parses exactly that packet from the wire; ERR_USB_WRITE
  leaves the transport unchanged with at most a proper prefix sent; ERR_USB_DISCONNECTED (three
  temporary failures) sends nothing and marks the transport disconnected.\<close>

lemma usb_send_packet_received:
  assumes "write_contract wr" "0 \<le> usb_fd s" "packet_valid p"
    and "length (payload_bytes p) = MAX_PAYLOAD_SIZE"
    and "usb_transport_send wr (Some p) s = (ret, s', tr)"
  shows "writes tr \<le> 1 \<and>
    (ret = int (SIZEOF_PACKET_HEADER + unat (payload_size (header p))) \<and>
       parse_stream wire_parse (written (usb_fd s) tr) = ([(header p, packet_payload p)], []) \<and>
       connected s' = connected s \<or>
     ret = ERR_USB_WRITE \<and> s' = s \<or>
     ret = ERR_USB_DISCONNECTED \<and> written (usb_fd s) tr = [] \<and> \<not> connected s')"
proof -
  let ?n = "SIZEOF_PACKET_HEADER + unat (payload_size (header p))"
  have le: "unat (payload_size (header p)) \<le> 4096"
    using assms(3) by (simp add: packet_valid_def MAX_PAYLOAD_SIZE_def)
  then have "unat (of_nat SIZEOF_PACKET_HEADER + payload_size (header p)) = ?n"
    by (simp add: SIZEOF_PACKET_HEADER_def unat_word_ariths)
  with assms(2,5) have run: "usb_send_loop wr (packet_bytes p) ?n CONFIG_MAX_RECONNECT_RETRY 0 s = (ret, s', tr)"
    by (simp add: usb_transport_send_def Let_def)
  have "?n \<le> length (packet_bytes p)" "0 < ?n"
    using le assms(4) by (simp_all add: packet_bytes_def SIZEOF_PACKET_HEADER_def MAX_PAYLOAD_SIZE_def)
  from usb_send_loop_outcome [OF run assms(1) this] obtain m where m: "m \<le> ?n"
    "written (usb_fd s) tr = take m (packet_bytes p)" "writes tr \<le> 1"
    "ret = int ?n \<and> m = ?n \<and> s' = s\<lparr>bytes_sent := bytes_sent s + of_nat ?n\<rparr> \<or>
     ret = ERR_USB_WRITE \<and> m < ?n \<and> s' = s \<or>
     ret = ERR_USB_DISCONNECTED \<and> m = 0 \<and> s' = s\<lparr>connected := False\<rparr>"
    by auto
  have "take ?n (packet_bytes p) = wire_enc (header p, packet_payload p)"
    by (simp add: packet_bytes_def wire_enc_def packet_payload_def SIZEOF_PACKET_HEADER_def)
  moreover have "wire_valid (header p, packet_payload p)"
    using assms(3,4) le by (simp add: wire_valid_def packet_valid_def packet_payload_def MAX_PAYLOAD_SIZE_def)
  moreover have "wire_parse [] = None"
    by (simp add: wire_parse_def SIZEOF_PACKET_HEADER_def)
  ultimately have "parse_stream wire_parse (take ?n (packet_bytes p)) = ([(header p, packet_payload p)], [])"
    using wire.parse_stream_frames [of "[(header p, packet_payload p)]" "[]"] by simp
  with m show ?thesis
    by auto
qed

text \<open>Life cycle of the device. Initialisation succeeds exactly when one of the first ten open calls
  returns a descriptor; it then holds the first such descriptor, is connected, and has opened
  nothing else; otherwise it returns ERR_USB_OPEN, holds no descriptor and has opened nothing.
  Cleanup closes exactly what initialisation opened and leaves the transport disconnected.\<close>

lemma usb_transport_lifecycle:
  assumes "usb_transport_init opens = (ret, s, tr)" "usb_transport_cleanup s = (ret', s', tr')"
  shows "(ret = ERR_OK \<longleftrightarrow> (\<exists>k < 10. 0 \<le> opens k)) \<and> (ret \<noteq> ERR_OK \<longrightarrow> ret = ERR_USB_OPEN) \<and>
    (ret = ERR_OK \<longleftrightarrow> usb_transport_is_connected s) \<and>
    (ret = ERR_OK \<longrightarrow> usb_fd s = opens (LEAST k. 0 \<le> opens k) \<and> open_fds tr = {usb_fd s}) \<and>
    (ret \<noteq> ERR_OK \<longrightarrow> open_fds tr = {}) \<and>
    ret' = ERR_OK \<and> closed_fds tr' = open_fds tr \<and> \<not> usb_transport_is_connected s' \<and> usb_fd s' < 0"
proof (cases "\<exists>k < 10. 0 \<le> opens k")
  case True
  then obtain j where j: "j < 10" "0 \<le> opens j" "\<forall>i < j. \<not> 0 \<le> opens i"
    using open_loop_least by blast
  then have "(LEAST k. 0 \<le> opens k) = j"
    using leI by (intro Least_equality) blast+
  moreover have "usb_open_loop opens 10 0 = (opens j, [OsOpen (opens j)])"
    using j usb_open_loop_hit [of j 10 opens 0] by simp
  moreover from calculation(2) have
    "ret = ERR_OK" "s = usb_zero\<lparr>usb_fd := opens j, connected := True, bytes_sent := 0, current_buffer := 0\<rparr>"
    "tr = [OsOpen (opens j)]"
    using assms(1) j(2) by (simp_all add: usb_transport_init_def)
  moreover from calculation(4) have "ret' = ERR_OK" "s' = s\<lparr>usb_fd := -1, connected := False\<rparr>"
    "tr' = [OsClose (opens j)]"
    using assms(2) j(2) by (simp_all add: usb_transport_cleanup_def)
  ultimately show ?thesis
    using j(2) True by (simp add: usb_transport_is_connected_def)
next
  case False
  then have "usb_open_loop opens 10 0 = (-1, [])"
    using usb_open_loop_miss [of 10 opens 0] by simp
  with assms(1) have i: "ret = ERR_USB_OPEN" "s = usb_zero\<lparr>usb_fd := -1\<rparr>" "tr = []"
    by (simp_all add: usb_transport_init_def)
  then have "ret' = ERR_OK" "s' = usb_zero\<lparr>usb_fd := -1, connected := False\<rparr>" "tr' = []"
    using assms(2) unfolding i(2) by (simp_all add: usb_transport_cleanup_def)
  with False i show ?thesis
    by (simp add: usb_transport_init_def usb_transport_cleanup_def usb_transport_is_connected_def
        ERR_OK_def ERR_USB_OPEN_def usb_zero_def)
qed

end
