(* ===== verification/CameraManager.thy ===== *)
theory CameraManager
  imports Os
begin

section \<open>The camera manager (camera_manager.c)\<close>

text \<open>
  Opening and configuring the V4L2 video device, the three capture buffers handed to the driver, one
  captured frame, and the release of everything.  What the driver, the allocator and the clock answer
  is the environment; addresses are naturals, 0 is NULL.  The loop over the buffers runs up to the
  count the driver returned while the arrays have \<open>CAMERA_BUFFER_NUM\<close> elements: a step outside them is
  undefined behaviour and the value \<open>None\<close>.  Operations return the C result, the manager and the trace.
\<close>

subsection \<open>State and environment\<close>

definition CAMERA_BUFFER_NUM :: nat where "CAMERA_BUFFER_NUM = 3"

record camera_config =
  cfg_width :: u16
  cfg_height :: u16
  cfg_fps :: u8
  cfg_format :: pixfmt
  cfg_hdr_enable :: bool

record camera_frame =
  frm_buf :: nat
  frm_size :: u32
  frm_timestamp_us :: u64
  frm_num :: u32

record camera_buffer =
  buf_start :: nat
  buf_length :: u32

record v4l2_buffer =
  v_index :: nat
  v_userptr :: nat
  v_length :: u32
  v_bytesused :: u32

record camera_manager =
  cam_fd :: int
  cam_config :: camera_config
  cam_buffers :: "v4l2_buffer list"
  cam_mem :: "camera_buffer list"
  cam_frame_count :: u32
  cam_initialized :: bool

record pix_format =
  px_width :: u32
  px_height :: u32
  px_format :: pixfmt
  px_sizeimage :: u32

record camera_env =
  e_video_initialize :: int
  e_open :: int
  e_s_fmt :: "pix_format \<Rightarrow> int \<times> pix_format"
  e_s_parm :: int
  e_reqbufs :: "int \<times> nat"
  e_memalign :: "nat \<Rightarrow> nat"
  e_qbuf :: "nat \<Rightarrow> int"
  e_streamon :: int

definition zero_config :: camera_config where
  "zero_config = \<lparr>cfg_width = 0, cfg_height = 0, cfg_fps = 0, cfg_format = PIX_OTHER 0,
     cfg_hdr_enable = False\<rparr>"

definition camera_zero :: camera_manager where
  "camera_zero = \<lparr>cam_fd = 0, cam_config = zero_config,
     cam_buffers = replicate CAMERA_BUFFER_NUM \<lparr>v_index = 0, v_userptr = 0, v_length = 0, v_bytesused = 0\<rparr>,
     cam_mem = replicate CAMERA_BUFFER_NUM \<lparr>buf_start = 0, buf_length = 0\<rparr>,
     cam_frame_count = 0, cam_initialized = False\<rparr>"

subsection \<open>Initialisation\<close>

text \<open>The buffer size when the driver reports 0; \<open>None\<close> is the unsupported-format exit.\<close>

definition camera_sizeimage :: "pix_format \<Rightarrow> u32 option" where
  "camera_sizeimage f =
     (if px_sizeimage f = 0 then
        (if px_format f = PIX_JPEG then Some 65536
         else if px_format f = PIX_RGB565 \<or> px_format f = PIX_UYVY
         then Some (px_width f * px_height f * 2)
         else None)
      else Some (px_sizeimage f))"

definition free_mem :: "camera_buffer list \<Rightarrow> nat list \<Rightarrow> trace" where
  "free_mem mem is = map (\<lambda>i. OsFree (buf_start (mem ! i))) is"

fun camera_buffers_loop ::
  "camera_env \<Rightarrow> u32 \<Rightarrow> nat \<Rightarrow> nat \<Rightarrow> camera_manager \<Rightarrow> (int \<times> camera_manager \<times> trace) option" where
  "camera_buffers_loop env bufsize 0 i m = Some (ERR_OK, m, [])"
| "camera_buffers_loop env bufsize (Suc k) i m =
     (if CAMERA_BUFFER_NUM \<le> i then None
      else
        let a = e_memalign env i;
            m1 = m\<lparr>cam_mem := (cam_mem m)[i := (cam_mem m ! i)\<lparr>buf_start := a\<rparr>]\<rparr>
        in if a = 0 then Some (ERR_CAMERA_CONFIG, m1, free_mem (cam_mem m1) (rev [0..<i]) @ [OsClose (cam_fd m)])
           else
             let m2 = m1\<lparr>cam_mem := (cam_mem m1)[i := (cam_mem m1 ! i)\<lparr>buf_length := bufsize\<rparr>],
                       cam_buffers := (cam_buffers m)[i := \<lparr>v_index = i, v_userptr = a,
                         v_length = bufsize, v_bytesused = 0\<rparr>]\<rparr>
             in if e_qbuf env i < 0
                then Some (ERR_CAMERA_CONFIG, m2,
                  OsAlloc a # free_mem (cam_mem m2) [0..<Suc i] @ [OsClose (cam_fd m)])
                else (case camera_buffers_loop env bufsize k (i + 1) m2 of
                    None \<Rightarrow> None
                  | Some (ret, m3, tr) \<Rightarrow> Some (ret, m3, OsAlloc a # OsQbuf (cam_fd m) i # tr)))"

definition camera_manager_init ::
  "camera_env \<Rightarrow> camera_config option \<Rightarrow> camera_manager \<Rightarrow> (int \<times> camera_manager \<times> trace) option" where
  "camera_manager_init env config m0 =
     (case config of
        None \<Rightarrow> Some (ERR_CAMERA_INIT, m0, [])
      | Some cfg \<Rightarrow>
          if cam_initialized m0 then Some (ERR_OK, m0, [])
          else
            let m = camera_zero\<lparr>cam_config := cfg\<rparr>
            in if e_video_initialize env < 0 then Some (ERR_CAMERA_INIT, m, [])
               else
                 let fd = e_open env; m1 = m\<lparr>cam_fd := fd\<rparr>
                 in if fd < 0 then Some (ERR_CAMERA_OPEN, m1, [])
                    else (case e_s_fmt env \<lparr>px_width = ucast (cfg_width cfg), px_height = ucast (cfg_height cfg),
                            px_format = cfg_format cfg, px_sizeimage = 0\<rparr> of (ret, fmt) \<Rightarrow>
                      if ret < 0 then Some (ERR_CAMERA_CONFIG, m1, [OsOpen fd, OsClose fd])
                      else (case camera_sizeimage fmt of
                          None \<Rightarrow> Some (ERR_CAMERA_CONFIG, m1, [OsOpen fd, OsClose fd])
                        | Some bufsize \<Rightarrow>
                            if e_s_parm env < 0 then Some (ERR_CAMERA_CONFIG, m1, [OsOpen fd, OsClose fd])
                            else if fst (e_reqbufs env) < 0
                            then Some (ERR_CAMERA_CONFIG, m1, [OsOpen fd, OsClose fd])
                            else (case camera_buffers_loop env bufsize (snd (e_reqbufs env)) 0 m1 of
                                None \<Rightarrow> None
                              | Some (ret, m2, tr) \<Rightarrow>
                                  if ret < 0 then Some (ret, m2, OsOpen fd # tr)
                                  else if e_streamon env < 0
                                  then Some (ERR_CAMERA_INIT, m2, OsOpen fd # tr @ [OsClose fd])
                                  else Some (ERR_OK,
                                    m2\<lparr>cam_initialized := True, cam_frame_count := 0\<rparr>,
                                    OsOpen fd # tr @ [OsStreamOn fd])))))"

subsection \<open>Capturing a frame\<close>

record frame_env =
  f_poll :: int
  f_dqbuf :: "int \<times> v4l2_buffer"
  f_clock :: timespec
  f_qbuf :: int

definition camera_get_frame ::
  "frame_env \<Rightarrow> camera_frame option \<Rightarrow> camera_manager
     \<Rightarrow> int \<times> camera_frame option \<times> camera_manager \<times> trace" where
  "camera_get_frame env frame m =
     (if \<not> cam_initialized m then (ERR_CAMERA_INIT, frame, m, [])
      else (case frame of
          None \<Rightarrow> (ERR_CAMERA_CAPTURE, frame, m, [])
        | Some f \<Rightarrow>
            if f_poll env = 0 then (ERR_TIMEOUT, frame, m, [])
            else if f_poll env < 0 then (ERR_CAMERA_CAPTURE, frame, m, [])
            else (case f_dqbuf env of (ret, buf) \<Rightarrow>
              if ret < 0 then (ERR_CAMERA_CAPTURE, frame, m, [])
              else
                let f' = f\<lparr>frm_buf := v_userptr buf, frm_size := v_bytesused buf,
                      frm_timestamp_us := timespec_us (f_clock env), frm_num := cam_frame_count m\<rparr>;
                    m' = m\<lparr>cam_frame_count := cam_frame_count m + 1\<rparr>;
                    dq = OsDqbuf (cam_fd m) (v_index buf)
                in if f_qbuf env < 0 then (ERR_CAMERA_CAPTURE, Some f', m', [dq])
                   else (ERR_OK, Some f', m', [dq, OsQbuf (cam_fd m) (v_index buf)]))))"

subsection \<open>Release\<close>

definition camera_manager_cleanup :: "camera_manager \<Rightarrow> int \<times> camera_manager \<times> trace" where
  "camera_manager_cleanup m =
     (if \<not> cam_initialized m then (ERR_OK, m, [])
      else
        let frees = map (\<lambda>b. OsFree (buf_start b)) (filter (\<lambda>b. buf_start b \<noteq> 0) (cam_mem m));
            mem = map (\<lambda>b. b\<lparr>buf_start := 0\<rparr>) (cam_mem m);
            tr = OsStreamOff (cam_fd m) # frees
        in if cam_fd m \<ge> 0
           then (ERR_OK, m\<lparr>cam_mem := mem, cam_fd := -1, cam_initialized := False\<rparr>, tr @ [OsClose (cam_fd m)])
           else (ERR_OK, m\<lparr>cam_mem := mem, cam_initialized := False\<rparr>, tr))"

section \<open>The buffer loop\<close>

lemma free_mem_trace [simp]:
  "allocs (free_mem mem is) = []" "frees (free_mem mem is) = map (\<lambda>i. buf_start (mem ! i)) is"
  "open_fds (free_mem mem is) = {}" "closed_fds (free_mem mem is) = {}"
  "driver_owned D (free_mem mem is) = D"
  by (induction "is") (simp_all add: free_mem_def)

definition loop_done :: "camera_env \<Rightarrow> nat \<Rightarrow> nat \<Rightarrow> camera_manager \<Rightarrow> camera_manager \<Rightarrow> trace \<Rightarrow> bool" where
  "loop_done env i k m m' tr \<longleftrightarrow>
     allocs tr = map (e_memalign env) [i..<i + k] \<and> frees tr = [] \<and> open_fds tr = {} \<and>
     closed_fds tr = {} \<and> (\<forall>D. driver_owned D tr = D \<union> {i..<i + k}) \<and>
     (\<forall>j. i \<le> j \<and> j < i + k \<longrightarrow> e_memalign env j \<noteq> 0 \<and> buf_start (cam_mem m' ! j) = e_memalign env j) \<and>
     (\<forall>j. j < i \<or> i + k \<le> j \<longrightarrow> cam_mem m' ! j = cam_mem m ! j) \<and>
     length (cam_mem m') = length (cam_mem m) \<and> cam_fd m' = cam_fd m \<and>
     cam_initialized m' = cam_initialized m \<and> cam_config m' = cam_config m"

definition loop_failed :: "camera_env \<Rightarrow> nat \<Rightarrow> camera_manager \<Rightarrow> camera_manager \<Rightarrow> trace \<Rightarrow> bool" where
  "loop_failed env i m m' tr \<longleftrightarrow>
     mset (map (e_memalign env) [0..<i] @ allocs tr) = mset (frees tr) \<and> open_fds tr = {} \<and>
     closed_fds tr = {cam_fd m} \<and> cam_initialized m' = cam_initialized m"

lemma loop_done_step:
  assumes "loop_done env (i + 1) k m2 m' tr" "e_memalign env i \<noteq> 0"
    and "buf_start (cam_mem m2 ! i) = e_memalign env i" "length (cam_mem m2) = length (cam_mem m)"
    and "\<forall>j. j \<noteq> i \<longrightarrow> cam_mem m2 ! j = cam_mem m ! j"
    and "cam_fd m2 = cam_fd m" "cam_initialized m2 = cam_initialized m" "cam_config m2 = cam_config m"
  shows "loop_done env i (Suc k) m m' (OsAlloc (e_memalign env i) # OsQbuf fd i # tr)"
proof -
  note d = assms(1) [unfolded loop_done_def]
  have up: "[i..<i + Suc k] = i # [i + 1..<i + 1 + k]" "{i..<i + Suc k} = insert i {i + 1..<i + 1 + k}"
    by (auto simp: upt_conv_Cons)
  have "e_memalign env j \<noteq> 0 \<and> buf_start (cam_mem m' ! j) = e_memalign env j"
    if "i \<le> j" "j < i + Suc k" for j
    using that assms(2,3) d by (cases "j = i") auto
  moreover have "cam_mem m' ! j = cam_mem m ! j" if "j < i \<or> i + Suc k \<le> j" for j
    using that assms(5) d by auto
  moreover have "driver_owned (insert i D) tr = D \<union> {i..<i + Suc k}" for D
    using d unfolding up by simp
  ultimately show ?thesis
    using d assms(4,6-8) unfolding loop_done_def up by simp
qed

lemma camera_buffers_loop_spec:
  assumes "length (cam_mem m) = CAMERA_BUFFER_NUM" "i + k \<le> CAMERA_BUFFER_NUM"
    and "\<forall>j < i. buf_start (cam_mem m ! j) = e_memalign env j"
  shows "\<exists>ret m' tr. camera_buffers_loop env bufsize k i m = Some (ret, m', tr) \<and>
    (ret = ERR_OK \<and> loop_done env i k m m' tr \<or> ret = ERR_CAMERA_CONFIG \<and> loop_failed env i m m' tr)"
  using assms
proof (induction k arbitrary: i m)
  case 0
  then show ?case
    by (simp add: loop_done_def)
next
  case (Suc k)
  let ?a = "e_memalign env i"
  let ?m1 = "m\<lparr>cam_mem := (cam_mem m)[i := (cam_mem m ! i)\<lparr>buf_start := ?a\<rparr>]\<rparr>"
  let ?m2 = "?m1\<lparr>cam_mem := (cam_mem ?m1)[i := (cam_mem ?m1 ! i)\<lparr>buf_length := bufsize\<rparr>],
      cam_buffers := (cam_buffers m)[i := \<lparr>v_index = i, v_userptr = ?a, v_length = bufsize, v_bytesused = 0\<rparr>]\<rparr>"
  have i: "i < CAMERA_BUFFER_NUM" "i < length (cam_mem m)"
    using Suc.prems by simp_all
  have starts: "map (\<lambda>j. buf_start (cam_mem ?m1 ! j)) [0..<i] = map (e_memalign env) [0..<i]"
    using Suc.prems(3) by simp
  have starts2: "map (\<lambda>j. buf_start (cam_mem ?m2 ! j)) [0..<Suc i] = map (e_memalign env) [0..<Suc i]"
    using Suc.prems(3) i by (simp add: nth_list_update)
  show ?case
  proof (cases "?a = 0")
    case True
    then have "camera_buffers_loop env bufsize (Suc k) i m
        = Some (ERR_CAMERA_CONFIG, ?m1, free_mem (cam_mem ?m1) (rev [0..<i]) @ [OsClose (cam_fd m)])"
      using i by (simp add: Let_def)
    moreover have "loop_failed env i m ?m1 (free_mem (cam_mem ?m1) (rev [0..<i]) @ [OsClose (cam_fd m)])"
      using arg_cong [OF starts, of mset] by (simp add: loop_failed_def)
    ultimately show ?thesis
      by blast
  next
    case a: False
    show ?thesis
    proof (cases "e_qbuf env i < 0")
      case True
      then have "camera_buffers_loop env bufsize (Suc k) i m = Some (ERR_CAMERA_CONFIG, ?m2,
          OsAlloc ?a # free_mem (cam_mem ?m2) [0..<Suc i] @ [OsClose (cam_fd m)])"
        using i a by (simp add: Let_def)
      moreover have "loop_failed env i m ?m2
          (OsAlloc ?a # free_mem (cam_mem ?m2) [0..<Suc i] @ [OsClose (cam_fd m)])"
        using arg_cong [OF starts2, of mset] by (simp add: loop_failed_def)
      ultimately show ?thesis
        by blast
    next
      case q: False
      have "length (cam_mem ?m2) = CAMERA_BUFFER_NUM" "i + 1 + k \<le> CAMERA_BUFFER_NUM"
        using Suc.prems by simp_all
      moreover have "\<forall>j < i + 1. buf_start (cam_mem ?m2 ! j) = e_memalign env j"
        using Suc.prems(3) i by (auto simp: nth_list_update less_Suc_eq)
      ultimately obtain ret m' tr where
        r: "camera_buffers_loop env bufsize k (i + 1) ?m2 = Some (ret, m', tr)" and
        s: "ret = ERR_OK \<and> loop_done env (i + 1) k ?m2 m' tr \<or>
            ret = ERR_CAMERA_CONFIG \<and> loop_failed env (i + 1) ?m2 m' tr"
        using Suc.IH by blast
      have "camera_buffers_loop env bufsize (Suc k) i m
          = Some (ret, m', OsAlloc ?a # OsQbuf (cam_fd m) i # tr)"
        using i a q r by (simp add: Let_def)
      moreover have "loop_done env (i + 1) k ?m2 m' tr \<Longrightarrow>
          loop_done env i (Suc k) m m' (OsAlloc ?a # OsQbuf (cam_fd m) i # tr)"
        using i a by (intro loop_done_step [of env i k ?m2 m' tr m]) simp_all
      moreover have "loop_failed env (i + 1) ?m2 m' tr \<Longrightarrow>
          loop_failed env i m m' (OsAlloc ?a # OsQbuf (cam_fd m) i # tr)"
        by (simp add: loop_failed_def)
      ultimately show ?thesis
        using s by blast
    qed
  qed
qed

lemma camera_buffers_loop_overflow:
  assumes "i + k > CAMERA_BUFFER_NUM" "i \<le> CAMERA_BUFFER_NUM"
    and "\<forall>j. i \<le> j \<and> j < CAMERA_BUFFER_NUM \<longrightarrow> e_memalign env j \<noteq> 0 \<and> \<not> e_qbuf env j < 0"
  shows "camera_buffers_loop env bufsize k i m = None"
  using assms
proof (induction k arbitrary: i m)
  case (Suc k)
  show ?case
  proof (cases "i = CAMERA_BUFFER_NUM")
    case False
    with Suc.prems have "e_memalign env i \<noteq> 0" "\<not> e_qbuf env i < 0" "i < CAMERA_BUFFER_NUM"
      by simp_all
    moreover have "camera_buffers_loop env bufsize k (i + 1) m' = None" for m'
      using Suc.prems \<open>i < CAMERA_BUFFER_NUM\<close> by (intro Suc.IH) auto
    ultimately show ?thesis
      by (simp add: Let_def)
  qed simp
qed simp

section \<open>Initialisation as a whole\<close>

text \<open>The driver honours the requested count; the descriptor stays the one opened.\<close>

abbreviation count_ok :: "camera_env \<Rightarrow> bool" where
  "count_ok env \<equiv> snd (e_reqbufs env) \<le> CAMERA_BUFFER_NUM"

definition camera_ready :: "camera_env \<Rightarrow> camera_config \<Rightarrow> camera_manager \<Rightarrow> trace \<Rightarrow> bool" where
  "camera_ready env cfg m tr \<longleftrightarrow>
     (let n = snd (e_reqbufs env) in
      cam_initialized m \<and> cam_fd m = e_open env \<and> 0 \<le> cam_fd m \<and> cam_config m = cfg \<and> cam_frame_count m = 0 \<and>
      length (cam_mem m) = CAMERA_BUFFER_NUM \<and>
      map buf_start (cam_mem m) = map (e_memalign env) [0..<n] @ replicate (CAMERA_BUFFER_NUM - n) 0 \<and>
      (\<forall>j < n. e_memalign env j \<noteq> 0) \<and>
      allocs tr = map (e_memalign env) [0..<n] \<and> frees tr = [] \<and> open_fds tr = {e_open env} \<and>
      closed_fds tr = {} \<and> driver_owned {} tr = {0..<n})"

definition camera_failed :: "camera_env \<Rightarrow> int \<Rightarrow> camera_manager \<Rightarrow> trace \<Rightarrow> bool" where
  "camera_failed env ret m tr \<longleftrightarrow>
     ret < 0 \<and> \<not> cam_initialized m \<and>
     (balanced tr \<or>
      e_streamon env < 0 \<and> ret = ERR_CAMERA_INIT \<and> frees tr = [] \<and>
      allocs tr = map (e_memalign env) [0..<snd (e_reqbufs env)] \<and>
      open_fds tr = {e_open env} \<and> closed_fds tr = {e_open env})"

lemma camera_stream_cases:
  assumes "count_ok env" "0 \<le> e_open env"
    and "camera_buffers_loop env bufsize (snd (e_reqbufs env)) 0
      (camera_zero\<lparr>cam_config := cfg, cam_fd := e_open env\<rparr>) = Some (ret, m, tr)"
  shows "ret < 0 \<Longrightarrow> camera_failed env ret m (OsOpen (e_open env) # tr)"
    and "\<not> ret < 0 \<Longrightarrow> e_streamon env < 0 \<Longrightarrow>
      camera_failed env ERR_CAMERA_INIT m (OsOpen (e_open env) # tr @ [OsClose (e_open env)])"
    and "\<not> ret < 0 \<Longrightarrow> \<not> e_streamon env < 0 \<Longrightarrow>
      camera_ready env cfg (m\<lparr>cam_initialized := True, cam_frame_count := 0\<rparr>)
        (OsOpen (e_open env) # tr @ [OsStreamOn (e_open env)])"
proof -
  let ?n = "snd (e_reqbufs env)"
  let ?m1 = "camera_zero\<lparr>cam_config := cfg, cam_fd := e_open env\<rparr>"
  have "length (cam_mem ?m1) = CAMERA_BUFFER_NUM" "0 + ?n \<le> CAMERA_BUFFER_NUM"
    using assms(1) by (simp_all add: camera_zero_def)
  then have spec: "ret = ERR_OK \<and> loop_done env 0 ?n ?m1 m tr \<or>
      ret = ERR_CAMERA_CONFIG \<and> loop_failed env 0 ?m1 m tr"
    using camera_buffers_loop_spec [of ?m1 0 ?n env bufsize] assms(3) by auto
  show "camera_failed env ret m (OsOpen (e_open env) # tr)" if "ret < 0"
  proof -
    have "loop_failed env 0 ?m1 m tr"
      using spec that by (auto simp: ERR_OK_def)
    then show ?thesis
      using that by (simp add: camera_failed_def loop_failed_def balanced_def camera_zero_def)
  qed
  assume "\<not> ret < 0"
  then have d: "loop_done env 0 ?n ?m1 m tr"
    using spec by (auto simp: ERR_CAMERA_CONFIG_def)
  show "camera_failed env ERR_CAMERA_INIT m (OsOpen (e_open env) # tr @ [OsClose (e_open env)])"
    if "e_streamon env < 0"
    using d that by (simp add: camera_failed_def loop_done_def ERR_CAMERA_INIT_def camera_zero_def)
  have "map buf_start (cam_mem m) = map (e_memalign env) [0..<?n] @ replicate (CAMERA_BUFFER_NUM - ?n) 0"
  proof (rule nth_equalityI)
    show "length (map buf_start (cam_mem m))
        = length (map (e_memalign env) [0..<?n] @ replicate (CAMERA_BUFFER_NUM - ?n) 0)"
      using d assms(1) by (simp add: loop_done_def camera_zero_def)
    show "map buf_start (cam_mem m) ! j
        = (map (e_memalign env) [0..<?n] @ replicate (CAMERA_BUFFER_NUM - ?n) 0) ! j"
      if "j < length (map buf_start (cam_mem m))" for j
      using d that by (cases "j < ?n") (auto simp: loop_done_def camera_zero_def nth_append)
  qed
  then show "camera_ready env cfg (m\<lparr>cam_initialized := True, cam_frame_count := 0\<rparr>)
        (OsOpen (e_open env) # tr @ [OsStreamOn (e_open env)])" if "\<not> e_streamon env < 0"
    using d assms(2) by (simp add: camera_ready_def loop_done_def camera_zero_def)
qed

lemma camera_init_cases:
  assumes "\<not> cam_initialized m0" "count_ok env"
    and "camera_manager_init env (Some cfg) m0 = Some (ret, m, tr)"
  shows "ret = ERR_OK \<and> camera_ready env cfg m tr \<or> camera_failed env ret m tr"
proof -
  let ?m1 = "camera_zero\<lparr>cam_config := cfg, cam_fd := e_open env\<rparr>"
  have fail: "camera_failed env r camera_zero [] \<and> camera_failed env r (camera_zero\<lparr>cam_config := cfg\<rparr>) [] \<and>
      camera_failed env r ?m1 [] \<and> camera_failed env r ?m1 [OsOpen (e_open env), OsClose (e_open env)]"
    if "r < 0" for r
    using that by (simp add: camera_failed_def camera_zero_def balanced_def)
  have neg: "ERR_CAMERA_INIT < 0" "ERR_CAMERA_OPEN < 0" "ERR_CAMERA_CONFIG < 0"
    by (simp_all add: err_defs)
  show ?thesis
    using assms(1,3) fail [OF neg(1)] fail [OF neg(2)] fail [OF neg(3)]
      camera_stream_cases [OF assms(2)]
    by (simp add: camera_manager_init_def Let_def not_less split: if_splits prod.splits option.splits) fastforce+
qed

text \<open>Everything up to the buffer loop succeeds, with buffers of the given size.\<close>

definition driver_accepts :: "camera_env \<Rightarrow> camera_config \<Rightarrow> u32 \<Rightarrow> bool" where
  "driver_accepts env cfg bufsize \<longleftrightarrow>
     0 \<le> e_video_initialize env \<and> 0 \<le> e_open env \<and>
     (case e_s_fmt env \<lparr>px_width = ucast (cfg_width cfg), px_height = ucast (cfg_height cfg),
          px_format = cfg_format cfg, px_sizeimage = 0\<rparr> of
        (ret, fmt) \<Rightarrow> 0 \<le> ret \<and> camera_sizeimage fmt = Some bufsize) \<and>
     0 \<le> e_s_parm env \<and> 0 \<le> fst (e_reqbufs env)"

lemma camera_init_streaming:
  assumes "\<not> cam_initialized m0" "driver_accepts env cfg bufsize"
  shows "camera_manager_init env (Some cfg) m0 =
    (case camera_buffers_loop env bufsize (snd (e_reqbufs env)) 0
        (camera_zero\<lparr>cam_config := cfg, cam_fd := e_open env\<rparr>) of
       None \<Rightarrow> None
     | Some (ret, m2, tr) \<Rightarrow>
         if ret < 0 then Some (ret, m2, OsOpen (e_open env) # tr)
         else if e_streamon env < 0
         then Some (ERR_CAMERA_INIT, m2, OsOpen (e_open env) # tr @ [OsClose (e_open env)])
         else Some (ERR_OK, m2\<lparr>cam_initialized := True, cam_frame_count := 0\<rparr>,
           OsOpen (e_open env) # tr @ [OsStreamOn (e_open env)]))"
  using assms by (auto simp: camera_manager_init_def driver_accepts_def Let_def split: prod.splits)

lemma camera_loop_ok:
  assumes "i + k \<le> CAMERA_BUFFER_NUM" "length (cam_mem m) = CAMERA_BUFFER_NUM"
    and "\<forall>j < i. buf_start (cam_mem m ! j) = e_memalign env j"
    and "\<forall>j < i + k. e_memalign env j \<noteq> 0 \<and> 0 \<le> e_qbuf env j"
  shows "\<exists>m' tr. camera_buffers_loop env bufsize k i m = Some (ERR_OK, m', tr)"
  using assms
proof (induction k arbitrary: i m)
  case (Suc k)
  then have i: "i < CAMERA_BUFFER_NUM" "e_memalign env i \<noteq> 0" "\<not> e_qbuf env i < 0"
    by (simp_all add: not_less)
  have "\<exists>m'' tr. camera_buffers_loop env bufsize k (i + 1) m' = Some (ERR_OK, m'', tr)"
    if "length (cam_mem m') = CAMERA_BUFFER_NUM" "\<forall>j < i + 1. buf_start (cam_mem m' ! j) = e_memalign env j" for m'
    using that Suc.prems(1,4) by (intro Suc.IH) auto
  from this [of "m\<lparr>cam_mem := (cam_mem m)[i := (cam_mem m ! i)\<lparr>buf_start := e_memalign env i\<rparr>,
        i := ((cam_mem m)[i := (cam_mem m ! i)\<lparr>buf_start := e_memalign env i\<rparr>] ! i)\<lparr>buf_length := bufsize\<rparr>],
      cam_buffers := (cam_buffers m)[i := \<lparr>v_index = i, v_userptr = e_memalign env i,
        v_length = bufsize, v_bytesused = 0\<rparr>]\<rparr>"]
  show ?case
    using i Suc.prems(2,3) by (auto simp: Let_def nth_list_update less_Suc_eq)
qed simp

section \<open>Capturing and releasing\<close>

text \<open>What captures leave alone: everything the clean-up looks at.\<close>

definition same_resources :: "camera_manager \<Rightarrow> camera_manager \<Rightarrow> bool" where
  "same_resources m m' \<longleftrightarrow> cam_fd m' = cam_fd m \<and> cam_mem m' = cam_mem m \<and>
     cam_initialized m' = cam_initialized m"

lemma get_frame_same_resources:
  "camera_get_frame env frame m = (ret, frame', m', tr) \<Longrightarrow> same_resources m m' \<and> balanced tr"
  by (auto simp: camera_get_frame_def same_resources_def balanced_def Let_def
      split: if_splits option.splits prod.splits)

lemma cleanup_trace [simp]:
  "allocs (map (\<lambda>b. OsFree (buf_start b)) bs) = []" "frees (map (\<lambda>b. OsFree (buf_start b)) bs) = map buf_start bs"
  "open_fds (map (\<lambda>b. OsFree (buf_start b)) bs) = {}" "closed_fds (map (\<lambda>b. OsFree (buf_start b)) bs) = {}"
  by (induction bs) simp_all

lemma camera_ready_cleanup:
  assumes "camera_ready env cfg m tr" "same_resources m m'" "camera_manager_cleanup m' = (ret, m'', tr')"
  shows "ret = ERR_OK \<and> balanced (tr @ tr') \<and> \<not> cam_initialized m'' \<and> cam_fd m'' < 0 \<and>
    mset (frees tr') = mset (map (e_memalign env) [0..<snd (e_reqbufs env)])"
proof -
  let ?n = "snd (e_reqbufs env)"
  have "map buf_start (filter (\<lambda>b. buf_start b \<noteq> 0) (cam_mem m)) = filter (\<lambda>a. a \<noteq> 0) (map buf_start (cam_mem m))"
    by (simp add: filter_map o_def)
  also have "\<dots> = map (e_memalign env) [0..<?n]"
    using assms(1) by (simp add: camera_ready_def Let_def filter_id_conv)
  finally show ?thesis
    using assms by (auto simp: camera_ready_def camera_manager_cleanup_def same_resources_def
        balanced_def Let_def ERR_OK_def)
qed

text \<open>The camera is a resource, as long as the driver honours the count and the stream starts.\<close>

definition camera_init :: "camera_env \<times> camera_config \<Rightarrow> int \<times> camera_manager \<times> trace" where
  "camera_init ec = the (camera_manager_init (fst ec) (Some (snd ec)) camera_zero)"

definition camera_env_ok :: "camera_env \<times> camera_config \<Rightarrow> bool" where
  "camera_env_ok ec \<longleftrightarrow> count_ok (fst ec) \<and> 0 \<le> e_streamon (fst ec)"

lemma camera_init_defined:
  assumes "count_ok env"
  shows "\<exists>ret m tr. camera_manager_init env config m0 = Some (ret, m, tr)"
proof -
  have "\<exists>ret m' tr. camera_buffers_loop env b (snd (e_reqbufs env)) 0
      (camera_zero\<lparr>cam_config := cfg, cam_fd := e_open env\<rparr>) = Some (ret, m', tr)" for b cfg
    using camera_buffers_loop_spec [of "camera_zero\<lparr>cam_config := cfg, cam_fd := e_open env\<rparr>" 0
        "snd (e_reqbufs env)" env b] assms
    by (auto simp: camera_zero_def)
  then show ?thesis
    by (auto simp: camera_manager_init_def Let_def split: option.splits prod.splits) (metis option.distinct(1))
qed

interpretation camera: resource camera_init camera_manager_cleanup camera_env_ok same_resources
proof unfold_locales
  fix ec r s t
  assume ok: "camera_env_ok ec" and init: "camera_init ec = (r, s, t)"
  obtain env cfg where ec: "ec = (env, cfg)"
    by (cases ec)
  from ok ec have c: "count_ok env" "0 \<le> e_streamon env"
    by (simp_all add: camera_env_ok_def)
  from camera_init_defined [OF c(1)] init ec
  have run: "camera_manager_init env (Some cfg) camera_zero = Some (r, s, t)"
    by (metis camera_init_def fst_conv option.sel snd_conv)
  note cases = camera_init_cases [OF _ c(1) run]
  show "balanced t" if "r < 0"
    using cases that c(2) by (auto simp: camera_failed_def camera_zero_def ERR_OK_def)
  show "balanced (t @ t')" if "\<not> r < 0" "same_resources s s'" "camera_manager_cleanup s' = (r', s'', t')"
    for s' r' s'' t'
    using cases camera_ready_cleanup [OF _ that(2,3)] that(1) by (auto simp: camera_failed_def camera_zero_def)
qed

section \<open>Properties\<close>

definition sample_env :: "nat \<Rightarrow> int \<Rightarrow> camera_env" where
  "sample_env n stream = \<lparr>e_video_initialize = 0, e_open = 5, e_s_fmt = (\<lambda>f. (0, f)), e_s_parm = 0,
     e_reqbufs = (0, n), e_memalign = (\<lambda>i. 100 + i), e_qbuf = (\<lambda>i. 0), e_streamon = stream\<rparr>"

definition sample_config :: camera_config where
  "sample_config = \<lparr>cfg_width = 640, cfg_height = 480, cfg_fps = 30, cfg_format = PIX_JPEG,
     cfg_hdr_enable = False\<rparr>"

lemma sample_accepts: "driver_accepts (sample_env n stream) sample_config 65536"
  by (simp add: driver_accepts_def sample_env_def sample_config_def camera_sizeimage_def)



text \<open>The leak. When the driver accepts every call up to VIDIOC_STREAMON and rejects that one, the
  initialisation returns ERR_CAMERA_INIT with all granted buffers allocated and none freed, and since
  the manager is left uninitialised the clean-up does nothing: the blocks are lost.\<close>

lemma camera_manager_init_streamon_leak:
  assumes "\<not> cam_initialized m0" "driver_accepts env cfg bufsize"
    and "snd (e_reqbufs env) \<le> CAMERA_BUFFER_NUM" "e_streamon env < 0"
    and "\<forall>j < snd (e_reqbufs env). e_memalign env j \<noteq> 0 \<and> 0 \<le> e_qbuf env j"
  shows "\<exists>m tr. camera_manager_init env (Some cfg) m0 = Some (ERR_CAMERA_INIT, m, tr) \<and>
    length (allocs tr) = snd (e_reqbufs env) \<and> frees tr = [] \<and> camera_manager_cleanup m = (ERR_OK, m, [])"
proof -
  let ?m1 = "camera_zero\<lparr>cam_config := cfg, cam_fd := e_open env\<rparr>"
  obtain m tr where loop: "camera_buffers_loop env bufsize (snd (e_reqbufs env)) 0 ?m1 = Some (ERR_OK, m, tr)"
    using camera_loop_ok [of 0 "snd (e_reqbufs env)" ?m1 env bufsize] assms(3,5) by (auto simp: camera_zero_def)
  have "0 \<le> e_open env"
    using assms(2) by (simp add: driver_accepts_def)
  from camera_stream_cases(2) [OF assms(3) this loop _ assms(4)]
  have f: "camera_failed env ERR_CAMERA_INIT m (OsOpen (e_open env) # tr @ [OsClose (e_open env)])"
    by (simp add: ERR_OK_def)
  have "loop_done env 0 (snd (e_reqbufs env)) ?m1 m tr"
    using camera_buffers_loop_spec [of ?m1 0 "snd (e_reqbufs env)" env bufsize] assms(3) loop
    by (auto simp: camera_zero_def err_defs)
  with f loop assms show ?thesis
    by (auto simp: camera_init_streaming ERR_OK_def camera_failed_def camera_manager_cleanup_def loop_done_def)
qed

text \<open>The buffer arrays have three elements but the loop trusts the count the driver returned: with a
  larger count, and no allocation or queueing failure to stop it, initialisation writes past them
  (undefined behaviour). With a count of at most three it never does.\<close>

lemma camera_manager_init_overflow:
  assumes "\<not> cam_initialized m0" "driver_accepts env cfg bufsize"
    and "\<forall>j < CAMERA_BUFFER_NUM. e_memalign env j \<noteq> 0 \<and> 0 \<le> e_qbuf env j"
  shows "camera_manager_init env (Some cfg) m0 = None \<longleftrightarrow> CAMERA_BUFFER_NUM < snd (e_reqbufs env)"
proof (cases "CAMERA_BUFFER_NUM < snd (e_reqbufs env)")
  case True
  then have "camera_buffers_loop env bufsize (snd (e_reqbufs env)) 0
      (camera_zero\<lparr>cam_config := cfg, cam_fd := e_open env\<rparr>) = None"
    using assms(3) by (intro camera_buffers_loop_overflow) (auto simp: not_less)
  with True show ?thesis
    by (simp add: camera_init_streaming [OF assms(1,2)])
next
  case False
  then show ?thesis
    using camera_init_defined [of env "Some cfg" m0] by auto
qed

text \<open>Every branch of a capture. On an initialised manager the result is ERR_TIMEOUT exactly when poll
  times out, ERR_CAMERA_CAPTURE exactly when poll, dequeue or requeue fails, ERR_OK otherwise. A
  successful capture numbers the frame with the running count; and the buffer it points to has by
  then been queued back, so the driver owns it again while the caller reads it. The resources the
  clean-up releases are untouched.\<close>

lemma camera_get_frame_result:
  assumes "cam_initialized m" "camera_get_frame env (Some f) m = (ret, frame, m', tr)"
  shows "(ret = ERR_TIMEOUT \<longleftrightarrow> f_poll env = 0) \<and>
    (ret = ERR_CAMERA_CAPTURE \<longleftrightarrow> f_poll env < 0 \<or>
       0 < f_poll env \<and> (fst (f_dqbuf env) < 0 \<or> f_qbuf env < 0)) \<and>
    (ret = ERR_OK \<or> ret = ERR_TIMEOUT \<or> ret = ERR_CAMERA_CAPTURE) \<and>
    (ret = ERR_OK \<longrightarrow> (\<exists>g. frame = Some g \<and> frm_buf g = v_userptr (snd (f_dqbuf env)) \<and>
       frm_size g = v_bytesused (snd (f_dqbuf env)) \<and> frm_num g = cam_frame_count m \<and>
       cam_frame_count m' = cam_frame_count m + 1 \<and>
       v_index (snd (f_dqbuf env)) \<in> driver_owned D tr)) \<and>
    cam_fd m' = cam_fd m \<and> cam_mem m' = cam_mem m \<and> cam_initialized m'"
  using assms by (auto simp: camera_get_frame_def Let_def err_defs split: if_splits prod.splits)



end
