(* ===== verification/EncoderManager.thy ===== *)
theory EncoderManager
  imports CameraManager ProtocolHandler
begin

section \<open>The H.264 encoder manager (encoder_manager.c)\<close>

text \<open>
  Opening and configuring the encoder device, encoding one frame into a NAL unit, and closing.  The
  environment gives the results of the system calls; \<open>x_read\<close> is what \<open>read\<close> returned, an error or the
  bytes it put in the 64 KB buffer.  The data of a NAL unit is its byte string; the block it occupies
  appears in the trace as an allocation that passes to the caller.
\<close>

definition ENCODE_BUF_SIZE :: nat where "ENCODE_BUF_SIZE = 64 * 1024"

record encoder_config =
  enc_width :: u16
  enc_height :: u16
  enc_bitrate :: u32
  enc_fps :: u8
  enc_gop_size :: u8
  enc_profile :: u8

record encoder_manager =
  enc_fd :: int
  enc_config :: encoder_config
  enc_initialized :: bool
  enc_frame_count :: u32

record encoder_init_env =
  x_open :: int
  x_set_input :: int
  x_set_output :: int

record encode_env =
  x_malloc_buf :: nat
  x_write :: write_result
  x_read :: "bytes res"
  x_malloc_nal :: nat

definition encoder_zero :: encoder_manager where
  "encoder_zero = \<lparr>enc_fd = 0, enc_config = \<lparr>enc_width = 0, enc_height = 0, enc_bitrate = 0,
     enc_fps = 0, enc_gop_size = 0, enc_profile = 0\<rparr>, enc_initialized = False, enc_frame_count = 0\<rparr>"

definition get_nal_type :: "bytes option \<Rightarrow> u32 \<Rightarrow> u8" where
  "get_nal_type data n =
     (case data of None \<Rightarrow> 0 | Some d \<Rightarrow> if n < 1 then 0 else d ! 0 AND 0x1F)"

definition encoder_manager_init ::
  "encoder_init_env \<Rightarrow> encoder_config option \<Rightarrow> encoder_manager \<Rightarrow> int \<times> encoder_manager \<times> trace" where
  "encoder_manager_init env config m0 =
     (case config of
        None \<Rightarrow> (ERR_ENCODER_INIT, m0, [])
      | Some cfg \<Rightarrow>
          if enc_initialized m0 then (ERR_OK, m0, [])
          else
            let fd = x_open env; m = encoder_zero\<lparr>enc_config := cfg, enc_fd := fd\<rparr>
            in if fd < 0 then (ERR_ENCODER_OPEN, m, [])
               else if x_set_input env < 0 then (ERR_ENCODER_CONFIG, m, [OsOpen fd, OsClose fd])
               else if x_set_output env < 0 then (ERR_ENCODER_CONFIG, m, [OsOpen fd, OsClose fd])
               else (ERR_OK, m\<lparr>enc_initialized := True, enc_frame_count := 0\<rparr>, [OsOpen fd]))"

definition encoder_encode_frame ::
  "encode_env \<Rightarrow> camera_frame option \<Rightarrow> h264_nal_unit list option \<Rightarrow> int \<Rightarrow> encoder_manager
     \<Rightarrow> int \<times> h264_nal_unit list option \<times> encoder_manager \<times> trace" where
  "encoder_encode_frame env yuv_frame nal_units max_nal_count m =
     (if \<not> enc_initialized m then (ERR_ENCODER_INIT, nal_units, m, [])
      else (case (yuv_frame, nal_units) of
          (Some yuv, Some nals) \<Rightarrow>
            if max_nal_count < 1 then (ERR_ENCODER_ENCODE, nal_units, m, [])
            else
              let b = x_malloc_buf env
              in if b = 0 then (ERR_NOMEM, nal_units, m, [])
                 else (case x_write env of
                     WriteErr e \<Rightarrow> (ERR_ENCODER_ENCODE, nal_units, m, [OsAlloc b, OsFree b])
                   | Wrote w \<Rightarrow>
                       (case x_read env of
                          Inl e \<Rightarrow> (ERR_ENCODER_ENCODE, nal_units, m, [OsAlloc b, OsFree b])
                        | Inr bs \<Rightarrow>
                            if length bs = 0 then (0, nal_units, m, [OsAlloc b, OsFree b])
                            else
                              let d = x_malloc_nal env
                              in if d = 0 then (ERR_NOMEM, nal_units, m, [OsAlloc b, OsFree b])
                                 else (1,
                                   Some (nals[0 := \<lparr>nal_data = bs, nal_size = of_nat (length bs),
                                     nal_type = get_nal_type (Some bs) (of_nat (length bs)),
                                     nal_timestamp_us = frm_timestamp_us yuv, nal_frame_num = frm_num yuv\<rparr>]),
                                   m\<lparr>enc_frame_count := enc_frame_count m + 1\<rparr>,
                                   [OsAlloc b, OsAlloc d, OsFree b])))
        | _ \<Rightarrow> (ERR_ENCODER_ENCODE, nal_units, m, [])))"

definition encoder_manager_cleanup :: "encoder_manager \<Rightarrow> int \<times> encoder_manager \<times> trace" where
  "encoder_manager_cleanup m =
     (if \<not> enc_initialized m then (ERR_OK, m, [])
      else if enc_fd m \<ge> 0
      then (ERR_OK, m\<lparr>enc_fd := -1, enc_initialized := False\<rparr>, [OsClose (enc_fd m)])
      else (ERR_OK, m\<lparr>enc_initialized := False\<rparr>, []))"

section \<open>The encoder as a resource\<close>

interpretation encoder: resource "\<lambda>(env, cfg). encoder_manager_init env (Some cfg) encoder_zero"
  encoder_manager_cleanup "\<lambda>e. True"
  "\<lambda>m m'. enc_fd m' = enc_fd m \<and> enc_initialized m' = enc_initialized m"
proof unfold_locales
  fix e r s t
  assume i: "(case e of (env, cfg) \<Rightarrow> encoder_manager_init env (Some cfg) encoder_zero) = (r, s, t)"
  show "balanced t" if "r < 0"
    using i that by (cases e) (auto simp: encoder_manager_init_def encoder_zero_def Let_def balanced_def
        ERR_OK_def split: if_splits)
  show "balanced (t @ t')"
    if "\<not> r < 0" "enc_fd s' = enc_fd s \<and> enc_initialized s' = enc_initialized s"
      "encoder_manager_cleanup s' = (r', s'', t')" for s' r' s'' t'
    using i that by (cases e) (auto simp: encoder_manager_init_def encoder_manager_cleanup_def encoder_zero_def
        Let_def balanced_def err_defs split: if_splits)
qed

lemma encode_keeps:
  "encoder_encode_frame env y n k m = (ret, n', m', tr) \<Longrightarrow>
     enc_fd m' = enc_fd m \<and> enc_initialized m' = enc_initialized m"
  by (auto simp: encoder_encode_frame_def Let_def
      split: if_splits option.splits write_result.splits sum.splits)

section \<open>Properties\<close>

text \<open>Every exit of the encoder gives its scratch buffer back. The result is 1 exactly when both blocks
  were allocated and the device accepted the frame and returned bytes; then entry 0 of the array
  holds exactly those bytes with the frame's time stamp and number, the frame counter advances, and
  the one block still allocated is the unit's data, which the caller must free. On any other result
  nothing is outstanding and neither the array nor the manager has changed.\<close>

lemma encoder_encode_frame_result:
  assumes "enc_initialized m" "1 \<le> max_nal" "nals \<noteq> []"
    and "encoder_encode_frame env (Some yuv) (Some nals) max_nal m = (ret, nals', m', tr)"
  shows "(ret = 1 \<longleftrightarrow> x_malloc_buf env \<noteq> 0 \<and> x_malloc_nal env \<noteq> 0 \<and> (\<exists>w. x_write env = Wrote w) \<and>
       (\<exists>bs. x_read env = Inr bs \<and> bs \<noteq> [])) \<and>
    (ret = 1 \<longrightarrow> (\<exists>bs n. x_read env = Inr bs \<and> nals' = Some (n # tl nals) \<and> nal_data n = bs \<and>
       nal_timestamp_us n = frm_timestamp_us yuv \<and> nal_frame_num n = frm_num yuv \<and>
       m' = m\<lparr>enc_frame_count := enc_frame_count m + 1\<rparr> \<and>
       mset (allocs tr) = add_mset (x_malloc_nal env) (mset (frees tr)))) \<and>
    (ret \<noteq> 1 \<longrightarrow> ret \<in> {0, ERR_ENCODER_ENCODE, ERR_NOMEM} \<and> nals' = Some nals \<and> m' = m \<and>
       mset (allocs tr) = mset (frees tr))"
  using assms by (cases nals) (auto simp: encoder_encode_frame_def Let_def err_defs
      split: if_splits write_result.splits sum.splits)

text \<open>The NAL type is read from the first byte the device returns, so for a unit in Annex B form (a start
  code of zeros before the NAL header) it is 0 and the packet protocol labels the unit as a slice,
  whatever its real type: parameter sets and key frames lose their packet type.\<close>

lemma annexb_unit_labelled_slice:
  assumes "enc_initialized m" "1 \<le> max_nal" "nals \<noteq> []"
    and "x_read env = Inr (0 # 0 # 0 # 1 # hdr # body)"
    and "encoder_encode_frame env (Some yuv) (Some nals) max_nal m = (1, Some (n # rest), m', tr)"
  shows "nal_type n = 0 \<and> get_packet_type_from_nal (nal_type n) = PKT_TYPE_VIDEO_SLICE"
proof -
  have "nal_type n = 0"
    using assms by (cases nals) (auto simp: encoder_encode_frame_def Let_def get_nal_type_def err_defs
        split: if_splits write_result.splits)
  then show ?thesis
    by (simp add: get_packet_type_from_nal_def packet_consts)
qed

text \<open>The encoder device's life cycle. A failed initialisation has closed what it opened; after a
  successful one and any encoding, the clean-up closes the one descriptor and the manager can be
  initialised again.\<close>

lemma encoder_lifecycle_balanced:
  assumes "encoder_manager_init env (Some cfg) encoder_zero = (ret, m, tr)"
    and "encoder_encode_frame env1 yuv nals k m = (ret1, nals1, m1, tr1)"
    and "encoder_manager_cleanup m1 = (ret2, m2, tr2)"
  shows "ret2 = ERR_OK \<and> \<not> enc_initialized m2 \<and>
    (ret = ERR_OK \<longleftrightarrow> 0 \<le> x_open env \<and> 0 \<le> x_set_input env \<and> 0 \<le> x_set_output env) \<and>
    open_fds (tr @ tr2) = closed_fds (tr @ tr2)"
proof -
  note k = encode_keeps [OF assms(2)]
  have i: "ret = ERR_OK \<longleftrightarrow> 0 \<le> x_open env \<and> 0 \<le> x_set_input env \<and> 0 \<le> x_set_output env"
    "enc_initialized m \<longleftrightarrow> ret = ERR_OK" "ret = ERR_OK \<or> ret < 0"
    using assms(1) by (auto simp: encoder_manager_init_def encoder_zero_def Let_def err_defs split: if_splits)
  have "balanced (tr @ tr2)"
  proof (cases "ret < 0")
    case True
    then have "tr2 = []"
      using i k assms(3) by (auto simp: encoder_manager_cleanup_def ERR_OK_def)
    then show ?thesis
      using encoder.init_fail [of "(env, cfg)" ret m tr] assms(1) True by simp
  next
    case False
    then show ?thesis
      using encoder.init_cleanup [of "(env, cfg)" ret m tr m1 ret2 m2 tr2] assms(1,3) k by simp
  qed
  with i assms(3) show ?thesis
    by (auto simp: balanced_def encoder_manager_cleanup_def split: if_splits)
qed

end
