(* ===== verification/PerfLogger.thy ===== *)
theory PerfLogger
  imports Os
begin

section \<open>The performance logger (perf_logger.c)\<close>

text \<open>
  The statistics window, the recording of a frame and the report that closes a window.  Clock readings
  are arguments.  A report is the integer statistics the log lines print; the floating-point figures
  of the log (rates, percentages) are derived from them at the call site, stored nowhere, and left
  out.
\<close>

subsection \<open>State\<close>

definition PERF_LOG_INTERVAL_FRAMES :: nat where "PERF_LOG_INTERVAL_FRAMES = 30"
definition UINT32_MAX :: u32 where "UINT32_MAX = 0xFFFFFFFF"

record perf_frame_metrics =
  frame_num :: u32
  ts_frame_start :: u64
  ts_camera_poll_start :: u64
  ts_camera_poll_end :: u64
  ts_camera_dqbuf_start :: u64
  ts_camera_dqbuf_end :: u64
  ts_pack_start :: u64
  ts_pack_end :: u64
  ts_usb_write_start :: u64
  ts_usb_write_end :: u64
  ts_frame_end :: u64
  jpeg_size :: u32
  packet_size :: u32
  usb_written :: u32
  latency_camera_poll :: u32
  latency_camera_dqbuf :: u32
  latency_pack :: u32
  latency_usb_write :: u32
  latency_total :: u32
  interval_us :: u32
  usb_retry_count :: u8

record perf_stats =
  window_start_us :: u64
  frames_in_window :: u32
  total_jpeg_bytes :: u64
  total_packet_bytes :: u64
  total_usb_bytes :: u64
  avg_latency_camera :: u32
  avg_latency_pack :: u32
  avg_latency_usb :: u32
  avg_latency_total :: u32
  avg_interval :: u32
  min_jpeg_size :: u32
  max_jpeg_size :: u32
  min_interval :: u32
  max_interval :: u32
  total_usb_retries :: u32
  camera_timeouts :: u32
  dropped_frames :: u32

record perf_logger =
  g_perf_stats :: perf_stats
  g_last_frame_timestamp :: u64
  g_total_frames :: u32

definition stats_zero :: perf_stats where
  "stats_zero = \<lparr>window_start_us = 0, frames_in_window = 0, total_jpeg_bytes = 0,
     total_packet_bytes = 0, total_usb_bytes = 0, avg_latency_camera = 0, avg_latency_pack = 0,
     avg_latency_usb = 0, avg_latency_total = 0, avg_interval = 0, min_jpeg_size = 0,
     max_jpeg_size = 0, min_interval = 0, max_interval = 0, total_usb_retries = 0,
     camera_timeouts = 0, dropped_frames = 0\<rparr>"

subsection \<open>Operations\<close>

definition perf_logger_get_timestamp_us :: "timespec \<Rightarrow> u64" where
  "perf_logger_get_timestamp_us ts = timespec_us ts"

definition reset_stats :: "timespec \<Rightarrow> perf_stats" where
  "reset_stats now = stats_zero\<lparr>window_start_us := perf_logger_get_timestamp_us now,
     min_jpeg_size := UINT32_MAX, max_jpeg_size := 0, min_interval := UINT32_MAX, max_interval := 0\<rparr>"

definition perf_logger_init :: "timespec \<Rightarrow> perf_logger" where
  "perf_logger_init now =
     \<lparr>g_perf_stats = reset_stats now, g_last_frame_timestamp = 0, g_total_frames = 0\<rparr>"

text \<open>
  \<open>force\<close>, the clock when the duration is taken and when the window is reset; the report is the
  statistics with the averages divided, and the window's duration.
\<close>

definition divide_averages :: "perf_stats \<Rightarrow> perf_stats" where
  "divide_averages s =
     (let frames = frames_in_window s
      in s\<lparr>avg_latency_camera := avg_latency_camera s div frames,
           avg_latency_pack := avg_latency_pack s div frames,
           avg_latency_usb := avg_latency_usb s div frames,
           avg_latency_total := avg_latency_total s div frames,
           avg_interval := avg_interval s div frames\<rparr>)"

definition perf_logger_print_stats ::
  "bool \<Rightarrow> timespec \<Rightarrow> timespec \<Rightarrow> perf_stats \<Rightarrow> perf_stats \<times> (u64 \<times> perf_stats) option" where
  "perf_logger_print_stats force now1 now2 s =
     (let frames = frames_in_window s
      in if frames = 0 \<or> (\<not> force \<and> unat frames < PERF_LOG_INTERVAL_FRAMES) then (s, None)
         else
           let window_duration_us = perf_logger_get_timestamp_us now1 - window_start_us s
           in if window_duration_us = 0 then (s, None)
              else (reset_stats now2, Some (window_duration_us, divide_averages s)))"

definition accumulate :: "perf_frame_metrics \<Rightarrow> perf_stats \<Rightarrow> perf_stats" where
  "accumulate m s =
     s\<lparr>frames_in_window := frames_in_window s + 1,
       total_jpeg_bytes := total_jpeg_bytes s + ucast (jpeg_size m),
       total_packet_bytes := total_packet_bytes s + ucast (packet_size m),
       total_usb_bytes := total_usb_bytes s + ucast (usb_written m),
       avg_latency_camera := avg_latency_camera s + (latency_camera_poll m + latency_camera_dqbuf m),
       avg_latency_pack := avg_latency_pack s + latency_pack m,
       avg_latency_usb := avg_latency_usb s + latency_usb_write m,
       avg_latency_total := avg_latency_total s + latency_total m,
       avg_interval := avg_interval s + interval_us m,
       min_jpeg_size := (if jpeg_size m < min_jpeg_size s then jpeg_size m else min_jpeg_size s),
       max_jpeg_size := (if max_jpeg_size s < jpeg_size m then jpeg_size m else max_jpeg_size s),
       min_interval := (if interval_us m < min_interval s \<and> interval_us m > 0 then interval_us m
                        else min_interval s),
       max_interval := (if max_interval s < interval_us m then interval_us m else max_interval s),
       total_usb_retries := total_usb_retries s + ucast (usb_retry_count m)\<rparr>"

definition perf_logger_record_frame ::
  "timespec \<Rightarrow> timespec \<Rightarrow> perf_frame_metrics option \<Rightarrow> perf_logger
     \<Rightarrow> perf_logger \<times> (u64 \<times> perf_stats) option" where
  "perf_logger_record_frame now1 now2 metrics g =
     (case metrics of
        None \<Rightarrow> (g, None)
      | Some m \<Rightarrow>
          let g1 = g\<lparr>g_total_frames := g_total_frames g + 1\<rparr>; s = accumulate m (g_perf_stats g)
          in if unat (frames_in_window s) \<ge> PERF_LOG_INTERVAL_FRAMES
             then (case perf_logger_print_stats False now1 now2 s of
                     (s', rep) \<Rightarrow> (g1\<lparr>g_perf_stats := s'\<rparr>, rep))
             else (g1\<lparr>g_perf_stats := s\<rparr>, None))"

definition perf_logger_cleanup ::
  "timespec \<Rightarrow> timespec \<Rightarrow> perf_logger \<Rightarrow> perf_logger \<times> (u64 \<times> perf_stats) option" where
  "perf_logger_cleanup now1 now2 g =
     (case perf_logger_print_stats True now1 now2 (g_perf_stats g) of
        (s', rep) \<Rightarrow> (g\<lparr>g_perf_stats := s'\<rparr>, rep))"

text \<open>Recording a sequence of frames, each with the two clock readings its call would take.\<close>

fun perf_run :: "(timespec \<times> timespec \<times> perf_frame_metrics) list \<Rightarrow> perf_logger
    \<Rightarrow> perf_logger \<times> (u64 \<times> perf_stats) list" where
  "perf_run [] g = (g, [])"
| "perf_run ((t1, t2, m) # ms) g =
     (case perf_logger_record_frame t1 t2 (Some m) g of
        (g', rep) \<Rightarrow> (case perf_run ms g' of
           (g'', reps) \<Rightarrow> (g'', (case rep of None \<Rightarrow> reps | Some r \<Rightarrow> r # reps))))"

section \<open>The window as sums, minima and maxima\<close>

text \<open>
  The statistics a window of frames \<open>ms\<close> should have, computed from the list: sums in words (so modulo
  their width), minimum and maximum over the list.
\<close>

definition min_pos :: "u32 \<Rightarrow> u32 list \<Rightarrow> u32" where
  "min_pos d xs = Min (insert d {x \<in> set xs. 0 < x})"

definition window_of :: "u64 \<Rightarrow> perf_frame_metrics list \<Rightarrow> perf_stats" where
  "window_of start ms =
     \<lparr>window_start_us = start, frames_in_window = of_nat (length ms),
      total_jpeg_bytes = sum_list (map (\<lambda>m. ucast (jpeg_size m)) ms),
      total_packet_bytes = sum_list (map (\<lambda>m. ucast (packet_size m)) ms),
      total_usb_bytes = sum_list (map (\<lambda>m. ucast (usb_written m)) ms),
      avg_latency_camera = sum_list (map (\<lambda>m. latency_camera_poll m + latency_camera_dqbuf m) ms),
      avg_latency_pack = sum_list (map latency_pack ms),
      avg_latency_usb = sum_list (map latency_usb_write ms),
      avg_latency_total = sum_list (map latency_total ms),
      avg_interval = sum_list (map interval_us ms),
      min_jpeg_size = Min (insert UINT32_MAX (set (map jpeg_size ms))),
      max_jpeg_size = Max (insert 0 (set (map jpeg_size ms))),
      min_interval = min_pos UINT32_MAX (map interval_us ms),
      max_interval = Max (insert 0 (set (map interval_us ms))),
      total_usb_retries = sum_list (map (\<lambda>m. ucast (usb_retry_count m)) ms),
      camera_timeouts = 0, dropped_frames = 0\<rparr>"

lemma window_of_Nil: "reset_stats now = window_of (timespec_us now) []"
  by (simp add: reset_stats_def window_of_def stats_zero_def min_pos_def perf_logger_get_timestamp_us_def)

lemma if_less_min: "(if j < x then j else x) = min j (x :: u32)"
  and if_less_max: "(if x < j then j else x) = max j (x :: u32)"
  by (auto simp: min_def max_def)

lemma accumulate_window: "accumulate m (window_of start ms) = window_of start (ms @ [m])"
proof -
  have 1: "(if j < Min (insert d S) then j else Min (insert d S)) = Min (insert d (insert j S))"
    if "finite S" for j d :: u32 and S
  proof -
    have "Min (insert d (insert j S)) = min j (Min (insert d S))"
      using that by (subst insert_commute) (rule Min_insert, auto)
    then show ?thesis
      by (simp only: if_less_min)
  qed
  have 2: "(if Max (insert d S) < j then j else Max (insert d S)) = Max (insert d (insert j S))"
    if "finite S" for j d :: u32 and S
  proof -
    have "Max (insert d (insert j S)) = max j (Max (insert d S))"
      using that by (subst insert_commute) (rule Max_insert, auto)
    then show ?thesis
      by (simp only: if_less_max)
  qed
  have 3: "{x. (x = j \<or> x \<in> T) \<and> 0 < x} = (if 0 < j then insert j {x \<in> T. 0 < x} else {x \<in> T. 0 < x})"
    for j :: u32 and T
    by auto
  have 4: "(if j < Min (insert d {x \<in> T. 0 < x}) \<and> 0 < j then j else Min (insert d {x \<in> T. 0 < x}))
      = Min (insert d {x. (x = j \<or> x \<in> T) \<and> 0 < x})" if "finite T" for j d :: u32 and T
  proof (cases "0 < j")
    case True
    have "finite {x \<in> T. 0 < x}"
      using that by simp
    from 1 [OF this, of j d] True show ?thesis
      by (simp only: 3 if_True simp_thms)
  next
    case False
    then show ?thesis
      by (simp only: 3 if_False simp_thms)
  qed
  show ?thesis
    by (simp add: accumulate_def window_of_def min_pos_def 1 [symmetric] 2 [symmetric] 4 [symmetric]
        cong: if_cong split del: if_split del: Min_insert Max_insert Min_gr_iff Max_less_iff Min_less_iff Max_gr_iff)
qed

abbreviation metrics_of :: "(timespec \<times> timespec \<times> perf_frame_metrics) list \<Rightarrow> perf_frame_metrics list" where
  "metrics_of w \<equiv> map (\<lambda>(t1, t2, m). m) w"

lemma frames_window [simp]: "frames_in_window (window_of start ms) = of_nat (length ms)"
  and start_window [simp]: "window_start_us (window_of start ms) = start"
  by (simp_all add: window_of_def)

lemma record_below:
  assumes "g_perf_stats g = window_of start ms" "length ms + 1 < PERF_LOG_INTERVAL_FRAMES"
  shows "perf_logger_record_frame t1 t2 (Some m) g =
    (g\<lparr>g_total_frames := g_total_frames g + 1, g_perf_stats := window_of start (ms @ [m])\<rparr>, None)"
  using assms by (simp add: perf_logger_record_frame_def Let_def accumulate_window unat_of_nat_u32
      PERF_LOG_INTERVAL_FRAMES_def del: of_nat_Suc of_nat_add)

lemma record_full:
  assumes "g_perf_stats g = window_of start ms" "length ms + 1 = PERF_LOG_INTERVAL_FRAMES"
    and "timespec_us t1 \<noteq> start"
  shows "perf_logger_record_frame t1 t2 (Some m) g =
    (g\<lparr>g_total_frames := g_total_frames g + 1, g_perf_stats := window_of (timespec_us t2) []\<rparr>,
     Some (timespec_us t1 - start, divide_averages (window_of start (ms @ [m]))))"
proof -
  have "unat (of_nat (length (ms @ [m])) :: u32) = PERF_LOG_INTERVAL_FRAMES"
    using assms(2) by (simp add: unat_of_nat_u32 PERF_LOG_INTERVAL_FRAMES_def del: of_nat_Suc of_nat_add)
  moreover have "(of_nat (length (ms @ [m])) :: u32) \<noteq> 0"
    using calculation by (auto simp: PERF_LOG_INTERVAL_FRAMES_def)
  ultimately show ?thesis
    using assms(1,3) by (simp add: perf_logger_record_frame_def Let_def accumulate_window
        perf_logger_print_stats_def window_of_Nil perf_logger_get_timestamp_us_def
        del: of_nat_Suc of_nat_add length_append)
qed

lemma perf_run_below:
  assumes "g_perf_stats g = window_of start ms" "length ms + length w < PERF_LOG_INTERVAL_FRAMES"
  shows "perf_run (w @ rest) g =
    perf_run rest (g\<lparr>g_total_frames := g_total_frames g + of_nat (length w),
      g_perf_stats := window_of start (ms @ metrics_of w)\<rparr>)"
  using assms
proof (induction w arbitrary: g ms)
  case Nil
  then show ?case
    by (simp add: Nil.prems(1) [symmetric])
next
  case (Cons e w)
  obtain t1 t2 m where e: "e = (t1, t2, m)"
    by (metis prod_cases3)
  let ?g = "g\<lparr>g_total_frames := g_total_frames g + 1, g_perf_stats := window_of start (ms @ [m])\<rparr>"
  have "perf_run (w @ rest) ?g = perf_run rest (?g\<lparr>g_total_frames := g_total_frames ?g + of_nat (length w),
      g_perf_stats := window_of start ((ms @ [m]) @ metrics_of w)\<rparr>)"
    using Cons.prems(2) by (intro Cons.IH) simp_all
  moreover have "perf_logger_record_frame t1 t2 (Some m) g = (?g, None)"
    using Cons.prems by (intro record_below) simp_all
  ultimately show ?case
    by (simp add: e ac_simps)
qed

lemma perf_run_window:
  assumes "g_perf_stats g = window_of start []" "length w = PERF_LOG_INTERVAL_FRAMES"
    and "timespec_us (fst (last w)) \<noteq> start"
  shows "perf_run (w @ rest) g =
    (case perf_run rest (g\<lparr>g_total_frames := g_total_frames g + 30,
        g_perf_stats := window_of (timespec_us (fst (snd (last w)))) []\<rparr>) of (g', reps) \<Rightarrow>
       (g', (timespec_us (fst (last w)) - start, divide_averages (window_of start (metrics_of w))) # reps))"
proof -
  from assms(2) obtain v t1 t2 m where w: "w = v @ [(t1, t2, m)]" "length v = 29"
    by (cases w rule: rev_cases) (auto simp: PERF_LOG_INTERVAL_FRAMES_def)
  let ?g = "g\<lparr>g_total_frames := g_total_frames g + of_nat (length v), g_perf_stats := window_of start (metrics_of v)\<rparr>"
  have "perf_run (w @ rest) g = perf_run ((t1, t2, m) # rest) ?g"
    using perf_run_below [OF assms(1), of v "(t1, t2, m) # rest"] w
    by (simp add: PERF_LOG_INTERVAL_FRAMES_def)
  moreover have "perf_logger_record_frame t1 t2 (Some m) ?g =
      (?g\<lparr>g_total_frames := g_total_frames ?g + 1, g_perf_stats := window_of (timespec_us t2) []\<rparr>,
       Some (timespec_us t1 - start, divide_averages (window_of start (metrics_of v @ [m]))))"
    using assms(3) w by (intro record_full) (simp_all add: PERF_LOG_INTERVAL_FRAMES_def)
  ultimately show ?thesis
    using w by (simp add: add.commute [of 30] split: prod.splits)
qed

text \<open>The reports a run of full windows should print, and that the clock moves across each window.\<close>

type_synonym timed_window = "(timespec \<times> timespec \<times> perf_frame_metrics) list"

fun reports :: "u64 \<Rightarrow> timed_window list \<Rightarrow> (u64 \<times> perf_stats) list" where
  "reports start [] = []"
| "reports start (w # ws) =
     (timespec_us (fst (last w)) - start, divide_averages (window_of start (metrics_of w)))
       # reports (timespec_us (fst (snd (last w)))) ws"

fun clock_moves :: "u64 \<Rightarrow> timed_window list \<Rightarrow> bool" where
  "clock_moves start [] = True"
| "clock_moves start (w # ws) \<longleftrightarrow>
     timespec_us (fst (last w)) \<noteq> start \<and> clock_moves (timespec_us (fst (snd (last w)))) ws"

fun last_start :: "u64 \<Rightarrow> timed_window list \<Rightarrow> u64" where
  "last_start start [] = start"
| "last_start start (w # ws) = last_start (timespec_us (fst (snd (last w)))) ws"

lemma perf_run_windows:
  assumes "g_perf_stats g = window_of start []" "\<forall>w \<in> set ws. length w = PERF_LOG_INTERVAL_FRAMES"
    and "clock_moves start ws" "length rest < PERF_LOG_INTERVAL_FRAMES"
  shows "\<exists>g'. perf_run (concat ws @ rest) g = (g', reports start ws) \<and>
    g_perf_stats g' = window_of (last_start start ws) (metrics_of rest) \<and>
    g_total_frames g' = g_total_frames g + of_nat (length (concat ws @ rest))"
  using assms
proof (induction start ws arbitrary: g rule: reports.induct)
  case (1 start)
  then show ?case
    using perf_run_below [OF 1(1), of rest "[]"] by simp
next
  case (2 start w ws)
  let ?g = "g\<lparr>g_total_frames := g_total_frames g + 30,
        g_perf_stats := window_of (timespec_us (fst (snd (last w)))) []\<rparr>"
  have "g_perf_stats ?g = window_of (timespec_us (fst (snd (last w)))) []"
    by simp
  from "2.IH" [OF this] "2.prems" obtain g' where g': "perf_run (concat ws @ rest) ?g = (g', reports (timespec_us (fst (snd (last w)))) ws)"
    "g_perf_stats g' = window_of (last_start (timespec_us (fst (snd (last w)))) ws) (metrics_of rest)"
    "g_total_frames g' = g_total_frames ?g + of_nat (length (concat ws @ rest))"
    by auto
  have "length w = PERF_LOG_INTERVAL_FRAMES" "timespec_us (fst (last w)) \<noteq> start"
    using "2.prems" by simp_all
  from perf_run_window [OF "2.prems"(1) this, of "concat ws @ rest"] g' this(1) show ?case
    by (simp add: PERF_LOG_INTERVAL_FRAMES_def)
qed

lemma unat_sum_list:
  "(\<Sum>m\<leftarrow>ms. unat (f m :: u32)) < 2 ^ 32 \<Longrightarrow> unat (\<Sum>m\<leftarrow>ms. f m) = (\<Sum>m\<leftarrow>ms. unat (f m))"
proof (induction ms)
  case (Cons m ms)
  then have "unat (\<Sum>m\<leftarrow>ms. f m) = (\<Sum>m\<leftarrow>ms. unat (f m))"
    by simp
  with Cons.prems show ?case
    by (simp add: unat_word_ariths)
qed simp

section \<open>Properties\<close>

text \<open>Reports partition the frames into consecutive windows of exactly 30. After initialisation, recording
  full windows of 30 frames (with a clock that moves across each) and then fewer than 30 more prints
  one report per window, with that window's sums, minima and maxima and nothing of its neighbours;
  the unfinished window is held, and the clean-up reports it if it has a frame and the clock has
  moved. The frame total counts every frame.\<close>

lemma perf_reports_partition_frames:
  assumes "\<forall>w \<in> set ws. length w = PERF_LOG_INTERVAL_FRAMES" "clock_moves (timespec_us t0) ws"
    and "length rest < PERF_LOG_INTERVAL_FRAMES"
    and "perf_run (concat ws @ rest) (perf_logger_init t0) = (g, reps)"
  shows "reps = reports (timespec_us t0) ws \<and> g_total_frames g = of_nat (length (concat ws @ rest)) \<and>
    snd (perf_logger_cleanup t1 t2 g) =
      (if rest = [] \<or> timespec_us t1 = last_start (timespec_us t0) ws then None
       else Some (timespec_us t1 - last_start (timespec_us t0) ws,
         divide_averages (window_of (last_start (timespec_us t0) ws) (metrics_of rest))))"
proof -
  have "g_perf_stats (perf_logger_init t0) = window_of (timespec_us t0) []"
    by (simp add: perf_logger_init_def window_of_Nil)
  from perf_run_windows [OF this assms(1,2,3)] assms(4)
  have g: "reps = reports (timespec_us t0) ws"
    "g_perf_stats g = window_of (last_start (timespec_us t0) ws) (metrics_of rest)"
    "g_total_frames g = of_nat (length (concat ws @ rest))"
    by (simp_all add: perf_logger_init_def)
  have "(of_nat (length rest) :: u32) = 0 \<longleftrightarrow> rest = []"
    using assms(3) unat_of_nat_u32 [of "length rest"] by (auto simp: PERF_LOG_INTERVAL_FRAMES_def)
  with g show ?thesis
    by (simp add: perf_logger_cleanup_def perf_logger_print_stats_def Let_def perf_logger_get_timestamp_us_def
        split: prod.splits)
qed

text \<open>The averages of a report are the true averages. The 32-bit accumulators wrap, but as long as a
  window's latencies sum to less than 2^32 microseconds the reported value is the integer quotient of
  the sum by the number of frames.\<close>

lemma perf_averages_exact:
  assumes "ms \<noteq> []" "length ms < 2 ^ 32"
    and "(\<Sum>m\<leftarrow>ms. unat (latency_total m)) < 2 ^ 32" "(\<Sum>m\<leftarrow>ms. unat (latency_usb_write m)) < 2 ^ 32"
    and "(\<Sum>m\<leftarrow>ms. unat (interval_us m)) < 2 ^ 32"
  shows "unat (avg_latency_total (divide_averages (window_of start ms)))
      = (\<Sum>m\<leftarrow>ms. unat (latency_total m)) div length ms \<and>
    unat (avg_latency_usb (divide_averages (window_of start ms)))
      = (\<Sum>m\<leftarrow>ms. unat (latency_usb_write m)) div length ms \<and>
    unat (avg_interval (divide_averages (window_of start ms)))
      = (\<Sum>m\<leftarrow>ms. unat (interval_us m)) div length ms"
  using assms by (simp add: divide_averages_def Let_def window_of_def unat_div unat_of_nat_u32 unat_sum_list)

end
