(* ===== verification/PipelineSpec.thy ===== *)
theory PipelineSpec
  imports MjpegProtocol "HOL-Library.Sublist" "HOL-Library.Multiset"
begin

section \<open>The capture pipeline as an abstract protocol\<close>

text \<open>
  The specification the threads of \<open>camera_threads.c\<close> implement: a camera thread and a USB thread that
  pass a fixed set of buffers round two FIFO queues under one mutex and one condition variable, and a
  main thread that starts, stops and joins them.  Queues are lists of buffer addresses, the contents
  of a buffer the packet it holds.  A step is one thread executing up to its next blocking point or
  critical section; a critical section is one step, as the mutex makes it.  \<open>p_packed\<close> and \<open>p_sent\<close>
  are history: the packets queued for sending, and for each packet taken by the USB thread what the
  device accepted of it.
\<close>

datatype cam_pc =
    CLoop | CLock | CWaiting | CHave nat | CPack nat | CPush nat | CMetrics
  | CReturn nat | CFatal nat | CFatalReturn nat | CDone

datatype usb_pc =
    UNone | ULoop | ULock | UWaiting | UHave nat | UReturn nat | UFatal nat | UFatalReturn nat | UDone

datatype main_pc =
    MCreateUsb | MAbort | MAbortJoin | MAbortFree | MSequential
  | MMonitor | MPoll | MShutdown | MCleanup | MJoinCam | MJoinUsb | MFree | MDone

record pipe =
  p_empty :: "nat list"
  p_action :: "nat list"
  p_cam :: cam_pc
  p_usb :: usb_pc
  p_main :: main_pc
  p_running :: bool
  p_shutdown :: bool
  p_seq :: u32
  p_pkt :: "nat \<Rightarrow> bytes"
  p_packed :: "bytes list"
  p_sent :: "(bytes \<times> bytes) list"

definition wake_cam :: "pipe \<Rightarrow> pipe" where
  "wake_cam p = p\<lparr>p_cam := (if p_cam p = CWaiting then CLock else p_cam p)\<rparr>"

definition wake_usb :: "pipe \<Rightarrow> pipe" where
  "wake_usb p = p\<lparr>p_usb := (if p_usb p = UWaiting then ULock else p_usb p)\<rparr>"

text \<open>\<open>pthread_cond_signal\<close> wakes one of the waiters if there is one.\<close>

definition signalled :: "pipe \<Rightarrow> pipe \<Rightarrow> bool" where
  "signalled p p' \<longleftrightarrow>
     (if p_cam p = CWaiting \<and> p_usb p = UWaiting then p' = wake_cam p \<or> p' = wake_usb p
      else p' = wake_cam (wake_usb p))"

definition broadcast :: "pipe \<Rightarrow> pipe" where
  "broadcast p = wake_cam (wake_usb p)"

inductive cam_step :: "pipe \<Rightarrow> pipe \<Rightarrow> bool" where
  cam_test: "p_cam p = CLoop \<Longrightarrow>
    cam_step p (p\<lparr>p_cam := (if p_shutdown p then CDone else CLock)\<rparr>)"
| cam_wait: "p_cam p = CLock \<Longrightarrow> p_empty p = [] \<Longrightarrow> \<not> p_shutdown p \<Longrightarrow>
    cam_step p (p\<lparr>p_cam := CWaiting\<rparr>)"
| cam_quit: "p_cam p = CLock \<Longrightarrow> p_shutdown p \<Longrightarrow> cam_step p (p\<lparr>p_cam := CDone\<rparr>)"
| cam_pull: "p_cam p = CLock \<Longrightarrow> p_empty p = b # es \<Longrightarrow> \<not> p_shutdown p \<Longrightarrow>
    cam_step p (p\<lparr>p_empty := es, p_cam := CHave b\<rparr>)"
| cam_capture: "p_cam p = CHave b \<Longrightarrow> cam_step p (p\<lparr>p_cam := CPack b\<rparr>)"
| cam_retry: "p_cam p = CHave b \<Longrightarrow> cam_step p (p\<lparr>p_cam := CReturn b\<rparr>)"
| cam_give_up: "p_cam p = CHave b \<Longrightarrow> cam_step p (p\<lparr>p_cam := CFatal b\<rparr>)"
| cam_reject: "p_cam p = CPack b \<Longrightarrow> cam_step p (p\<lparr>p_cam := CReturn b\<rparr>)"
| cam_pack: "p_cam p = CPack b \<Longrightarrow> frame_valid (p_seq p, jpeg) \<Longrightarrow>
    cam_step p (p\<lparr>p_cam := CPush b, p_pkt := (p_pkt p)(b := frame_enc (p_seq p, jpeg)),
      p_seq := p_seq p + 1\<rparr>)"
| cam_push: "p_cam p = CPush b \<Longrightarrow>
    signalled (p\<lparr>p_action := p_action p @ [b], p_packed := p_packed p @ [p_pkt p b], p_cam := CMetrics\<rparr>) p' \<Longrightarrow>
    cam_step p p'"
| cam_metrics: "p_cam p = CMetrics \<Longrightarrow> cam_step p (p\<lparr>p_cam := CLoop\<rparr>)"
| cam_return: "p_cam p = CReturn b \<Longrightarrow>
    cam_step p (p\<lparr>p_empty := p_empty p @ [b], p_cam := CLoop\<rparr>)"
| cam_fatal: "p_cam p = CFatal b \<Longrightarrow>
    cam_step p (broadcast (p\<lparr>p_shutdown := True, p_cam := CFatalReturn b\<rparr>))"
| cam_fatal_return: "p_cam p = CFatalReturn b \<Longrightarrow>
    cam_step p (p\<lparr>p_empty := p_empty p @ [b], p_cam := CDone\<rparr>)"

inductive usb_step :: "pipe \<Rightarrow> pipe \<Rightarrow> bool" where
  usb_test: "p_usb p = ULoop \<Longrightarrow>
    usb_step p (p\<lparr>p_usb := (if p_shutdown p then UDone else ULock)\<rparr>)"
| usb_wait: "p_usb p = ULock \<Longrightarrow> p_action p = [] \<Longrightarrow> \<not> p_shutdown p \<Longrightarrow>
    usb_step p (p\<lparr>p_usb := UWaiting\<rparr>)"
| usb_quit: "p_usb p = ULock \<Longrightarrow> p_shutdown p \<Longrightarrow> usb_step p (p\<lparr>p_usb := UDone\<rparr>)"
| usb_pull: "p_usb p = ULock \<Longrightarrow> p_action p = b # bs \<Longrightarrow> \<not> p_shutdown p \<Longrightarrow>
    usb_step p (p\<lparr>p_action := bs, p_usb := UHave b\<rparr>)"
| usb_sent: "p_usb p = UHave b \<Longrightarrow>
    usb_step p (p\<lparr>p_usb := UReturn b, p_sent := p_sent p @ [(p_pkt p b, p_pkt p b)]\<rparr>)"
| usb_retry: "p_usb p = UHave b \<Longrightarrow> strict_prefix w (p_pkt p b) \<Longrightarrow>
    usb_step p (p\<lparr>p_usb := UReturn b, p_sent := p_sent p @ [(p_pkt p b, w)]\<rparr>)"
| usb_give_up: "p_usb p = UHave b \<Longrightarrow> strict_prefix w (p_pkt p b) \<Longrightarrow>
    usb_step p (p\<lparr>p_usb := UFatal b, p_sent := p_sent p @ [(p_pkt p b, w)]\<rparr>)"
| usb_return: "p_usb p = UReturn b \<Longrightarrow>
    signalled (p\<lparr>p_empty := p_empty p @ [b], p_usb := ULoop\<rparr>) p' \<Longrightarrow> usb_step p p'"
| usb_fatal: "p_usb p = UFatal b \<Longrightarrow>
    usb_step p (broadcast (p\<lparr>p_shutdown := True, p_usb := UFatalReturn b\<rparr>))"
| usb_fatal_return: "p_usb p = UFatalReturn b \<Longrightarrow>
    usb_step p (p\<lparr>p_empty := p_empty p @ [b], p_usb := UDone\<rparr>)"

text \<open>
  The main thread: creation of the USB thread (the camera thread already runs), the abort path when
  that fails, the monitor loop, shutdown and the two joins.  Freeing the queues empties both.
\<close>

inductive main_step :: "pipe \<Rightarrow> pipe \<Rightarrow> bool" where
  main_create: "p_main p = MCreateUsb \<Longrightarrow> main_step p (p\<lparr>p_usb := ULoop, p_main := MMonitor\<rparr>)"
| main_create_failed: "p_main p = MCreateUsb \<Longrightarrow> main_step p (p\<lparr>p_main := MAbort\<rparr>)"
| main_abort: "p_main p = MAbort \<Longrightarrow>
    main_step p (broadcast (p\<lparr>p_shutdown := True, p_main := MAbortJoin\<rparr>))"
| main_abort_join: "p_main p = MAbortJoin \<Longrightarrow> p_cam p = CDone \<Longrightarrow> main_step p (p\<lparr>p_main := MAbortFree\<rparr>)"
| main_abort_free: "p_main p = MAbortFree \<Longrightarrow>
    main_step p (p\<lparr>p_empty := [], p_action := [], p_shutdown := True, p_main := MSequential\<rparr>)"
| main_monitor: "p_main p = MMonitor \<Longrightarrow>
    main_step p (p\<lparr>p_main := (if p_running p then MPoll else MShutdown)\<rparr>)"
| main_poll: "p_main p = MPoll \<Longrightarrow>
    main_step p (if p_shutdown p then p\<lparr>p_running := False, p_main := MShutdown\<rparr>
      else p\<lparr>p_main := (if p_running p then MMonitor else MShutdown)\<rparr>)"
| main_shutdown: "p_main p = MShutdown \<Longrightarrow>
    main_step p (broadcast (p\<lparr>p_shutdown := True, p_main := MCleanup\<rparr>))"
| main_cleanup: "p_main p = MCleanup \<Longrightarrow>
    main_step p (broadcast (p\<lparr>p_shutdown := True, p_main := MJoinCam\<rparr>))"
| main_join_cam: "p_main p = MJoinCam \<Longrightarrow> p_cam p = CDone \<Longrightarrow> main_step p (p\<lparr>p_main := MJoinUsb\<rparr>)"
| main_join_usb: "p_main p = MJoinUsb \<Longrightarrow> p_usb p = UDone \<Longrightarrow> main_step p (p\<lparr>p_main := MFree\<rparr>)"
| main_free: "p_main p = MFree \<Longrightarrow>
    main_step p (p\<lparr>p_empty := [], p_action := [], p_shutdown := True, p_main := MDone\<rparr>)"

text \<open>The environment: a termination signal while the queues exist, and spurious wake-ups.\<close>

inductive env_step :: "pipe \<Rightarrow> pipe \<Rightarrow> bool" where
  env_signal: "p_main p \<notin> {MSequential, MDone} \<Longrightarrow>
    env_step p (broadcast (p\<lparr>p_running := False, p_shutdown := True\<rparr>))"
| env_wake_cam: "env_step p (wake_cam p)"
| env_wake_usb: "env_step p (wake_usb p)"

definition pipe_step :: "pipe \<Rightarrow> pipe \<Rightarrow> bool" where
  "pipe_step p p' \<longleftrightarrow> cam_step p p' \<or> usb_step p p' \<or> main_step p p' \<or> env_step p p'"

definition pipe_start :: "nat list \<Rightarrow> u32 \<Rightarrow> pipe \<Rightarrow> bool" where
  "pipe_start pool seq p \<longleftrightarrow>
     p_empty p = pool \<and> p_action p = [] \<and> p_cam p = CLoop \<and> p_usb p = UNone \<and> p_main p = MCreateUsb \<and>
     \<not> p_shutdown p \<and> p_seq p = seq \<and> p_packed p = [] \<and> p_sent p = []"

section \<open>Invariants\<close>

primrec cam_holds :: "cam_pc \<Rightarrow> nat list" where
  "cam_holds CLoop = []" | "cam_holds CLock = []" | "cam_holds CWaiting = []"
| "cam_holds (CHave b) = [b]" | "cam_holds (CPack b) = [b]" | "cam_holds (CPush b) = [b]"
| "cam_holds CMetrics = []" | "cam_holds (CReturn b) = [b]" | "cam_holds (CFatal b) = [b]"
| "cam_holds (CFatalReturn b) = [b]" | "cam_holds CDone = []"

primrec usb_holds :: "usb_pc \<Rightarrow> nat list" where
  "usb_holds UNone = []" | "usb_holds ULoop = []" | "usb_holds ULock = []" | "usb_holds UWaiting = []"
| "usb_holds (UHave b) = [b]" | "usb_holds (UReturn b) = [b]" | "usb_holds (UFatal b) = [b]"
| "usb_holds (UFatalReturn b) = [b]" | "usb_holds UDone = []"

text \<open>Ownership: while the queues exist, every buffer of the pool is in exactly one place.\<close>

definition owned :: "nat list \<Rightarrow> pipe \<Rightarrow> bool" where
  "owned pool p \<longleftrightarrow>
     (if p_main p \<in> {MSequential, MDone} then p_cam p = CDone \<and> p_usb p \<in> {UNone, UDone}
      else mset (p_empty p @ p_action p @ cam_holds (p_cam p) @ usb_holds (p_usb p)) = mset pool)"

text \<open>Waiting: a thread that waits has nothing to do, and is not asked to stop.\<close>

definition waits_ok :: "pipe \<Rightarrow> bool" where
  "waits_ok p \<longleftrightarrow>
     (p_cam p = CWaiting \<longrightarrow> p_empty p = [] \<and> \<not> p_shutdown p) \<and>
     (p_usb p = UWaiting \<longrightarrow> p_action p = [] \<and> \<not> p_shutdown p)"

text \<open>Control: the main thread's position and the threads' life cycle agree.\<close>

definition control_ok :: "pipe \<Rightarrow> bool" where
  "control_ok p \<longleftrightarrow>
     (p_usb p = UNone \<longleftrightarrow> p_main p \<in> {MCreateUsb, MAbort, MAbortJoin, MAbortFree, MSequential}) \<and>
     (p_main p \<in> {MAbortJoin, MAbortFree, MCleanup, MJoinCam, MJoinUsb, MFree} \<longrightarrow> p_shutdown p) \<and>
     (p_main p \<in> {MAbortFree, MJoinUsb, MFree} \<longrightarrow> p_cam p = CDone) \<and>
     (p_main p = MFree \<longrightarrow> p_usb p = UDone) \<and>
     (p_cam p = CDone \<or> p_usb p = UDone \<longrightarrow> p_shutdown p) \<and>
     ((\<exists>b. p_cam p = CFatalReturn b) \<or> (\<exists>b. p_usb p = UFatalReturn b) \<longrightarrow> p_shutdown p)"

text \<open>
  Data: the packets queued so far, and the one about to be queued, are the encodings of consecutively
  numbered frames; the packets sent are those queued, in order, up to the ones still in the queue.
\<close>

primrec usb_sending :: "usb_pc \<Rightarrow> nat list" where
  "usb_sending UNone = []" | "usb_sending ULoop = []" | "usb_sending ULock = []" | "usb_sending UWaiting = []"
| "usb_sending (UHave b) = [b]" | "usb_sending (UReturn b) = []" | "usb_sending (UFatal b) = []"
| "usb_sending (UFatalReturn b) = []" | "usb_sending UDone = []"

primrec cam_filled :: "cam_pc \<Rightarrow> nat list" where
  "cam_filled CLoop = []" | "cam_filled CLock = []" | "cam_filled CWaiting = []"
| "cam_filled (CHave b) = []" | "cam_filled (CPack b) = []" | "cam_filled (CPush b) = [b]"
| "cam_filled CMetrics = []" | "cam_filled (CReturn b) = []" | "cam_filled (CFatal b) = []"
| "cam_filled (CFatalReturn b) = []" | "cam_filled CDone = []"

definition usb_taken :: "pipe \<Rightarrow> bytes list" where
  "usb_taken p = map (p_pkt p) (usb_sending (p_usb p))"

definition cam_pending :: "pipe \<Rightarrow> bytes list" where
  "cam_pending p = map (p_pkt p) (cam_filled (p_cam p))"

definition numbered_frames :: "u32 \<Rightarrow> bytes list \<Rightarrow> u32 \<Rightarrow> bool" where
  "numbered_frames seq ps nxt \<longleftrightarrow>
     (\<exists>js. ps = map frame_enc (numbered seq js) \<and> (\<forall>f \<in> set (numbered seq js). frame_valid f) \<and>
        nxt = seq + of_nat (length js))"

definition data_ok :: "u32 \<Rightarrow> pipe \<Rightarrow> bool" where
  "data_ok seq p \<longleftrightarrow>
     numbered_frames seq (p_packed p @ cam_pending p) (p_seq p) \<and>
     (p_main p \<notin> {MSequential, MDone} \<longrightarrow>
        p_packed p = map fst (p_sent p) @ usb_taken p @ map (p_pkt p) (p_action p)) \<and>
     prefix (map fst (p_sent p)) (p_packed p) \<and>
     (\<forall>(m, w) \<in> set (p_sent p). prefix w m)"

definition pipe_inv :: "nat list \<Rightarrow> u32 \<Rightarrow> pipe \<Rightarrow> bool" where
  "pipe_inv pool seq p \<longleftrightarrow> owned pool p \<and> waits_ok p \<and> control_ok p \<and> data_ok seq p"

named_theorems wake_simps \<open>waking leaves everything but the waiting positions alone\<close>

lemma wake_fields [wake_simps]:
  "p_empty (wake_cam p) = p_empty p" "p_action (wake_cam p) = p_action p" "p_usb (wake_cam p) = p_usb p"
  "p_main (wake_cam p) = p_main p" "p_running (wake_cam p) = p_running p" "p_shutdown (wake_cam p) = p_shutdown p"
  "p_seq (wake_cam p) = p_seq p" "p_pkt (wake_cam p) = p_pkt p" "p_packed (wake_cam p) = p_packed p"
  "p_sent (wake_cam p) = p_sent p" "p_cam (wake_cam p) = (if p_cam p = CWaiting then CLock else p_cam p)"
  "p_empty (wake_usb p) = p_empty p" "p_action (wake_usb p) = p_action p" "p_cam (wake_usb p) = p_cam p"
  "p_main (wake_usb p) = p_main p" "p_running (wake_usb p) = p_running p" "p_shutdown (wake_usb p) = p_shutdown p"
  "p_seq (wake_usb p) = p_seq p" "p_pkt (wake_usb p) = p_pkt p" "p_packed (wake_usb p) = p_packed p"
  "p_sent (wake_usb p) = p_sent p" "p_usb (wake_usb p) = (if p_usb p = UWaiting then ULock else p_usb p)"
  by (simp_all add: wake_cam_def wake_usb_def)

lemma wake_cam_id: "p_cam p \<noteq> CWaiting \<Longrightarrow> wake_cam p = p"
  and wake_usb_id: "p_usb p \<noteq> UWaiting \<Longrightarrow> wake_usb p = p"
  by (simp_all add: wake_cam_def wake_usb_def)

text \<open>What each invariant looks at.\<close>

lemma data_ok_cong:
  assumes "data_ok seq p" "p_packed p' = p_packed p" "cam_pending p' = cam_pending p" "usb_taken p' = usb_taken p"
    and "p_seq p' = p_seq p" "p_sent p' = p_sent p" "p_pkt p' = p_pkt p" "p_action p' = p_action p"
    and "p_main p \<in> {MSequential, MDone} \<Longrightarrow> p_main p' \<in> {MSequential, MDone}"
  shows "data_ok seq p'"
  using assms unfolding data_ok_def by metis

lemma owned_cong:
  assumes "owned pool p" "cam_holds (p_cam p') = cam_holds (p_cam p)" "usb_holds (p_usb p') = usb_holds (p_usb p)"
    and "p_empty p' = p_empty p" "p_action p' = p_action p" "p_main p' = p_main p"
    and "p_cam p = CDone \<Longrightarrow> p_cam p' = CDone" "p_usb p \<in> {UNone, UDone} \<Longrightarrow> p_usb p' = p_usb p"
  shows "owned pool p'"
  using assms unfolding owned_def by (metis insertE insertI1 insert_iff)

lemma wake_cam_keeps:
  assumes "owned pool p" "control_ok p" "data_ok seq p"
  shows "owned pool (wake_cam p)" "control_ok (wake_cam p)" "data_ok seq (wake_cam p)"
proof -
  show "owned pool (wake_cam p)"
    by (rule owned_cong [OF assms(1)]) (simp_all add: wake_fields)
  show "control_ok (wake_cam p)"
    using assms(2) by (cases "p_cam p = CWaiting") (simp_all add: control_ok_def wake_fields)
  show "data_ok seq (wake_cam p)"
    by (rule data_ok_cong [OF assms(3)]) (simp_all add: wake_fields usb_taken_def cam_pending_def)
qed

lemma wake_usb_keeps:
  assumes "owned pool p" "control_ok p" "data_ok seq p"
  shows "owned pool (wake_usb p)" "control_ok (wake_usb p)" "data_ok seq (wake_usb p)"
proof -
  show "owned pool (wake_usb p)"
    by (rule owned_cong [OF assms(1)]) (auto simp: wake_fields)
  show "control_ok (wake_usb p)"
    using assms(2) by (cases "p_usb p = UWaiting") (simp_all add: control_ok_def wake_fields)
  show "data_ok seq (wake_usb p)"
    by (rule data_ok_cong [OF assms(3)]) (simp_all add: wake_fields usb_taken_def cam_pending_def)
qed

lemma broadcast_waits: "waits_ok (broadcast p)"
  by (simp add: broadcast_def waits_ok_def wake_fields)

lemma broadcast_inv:
  assumes "owned pool p" "control_ok p" "data_ok seq p"
  shows "pipe_inv pool seq (broadcast p)"
  using wake_cam_keeps [OF wake_usb_keeps [OF assms]] broadcast_waits [of p]
  by (simp add: pipe_inv_def broadcast_def)

lemma wake_inv:
  assumes "pipe_inv pool seq p"
  shows "pipe_inv pool seq (wake_cam p)" "pipe_inv pool seq (wake_usb p)"
proof -
  have "owned pool p" "control_ok p" "data_ok seq p" "waits_ok p"
    using assms by (simp_all add: pipe_inv_def)
  moreover have "waits_ok (wake_cam p)" "waits_ok (wake_usb p)"
    using \<open>waits_ok p\<close> by (simp_all add: waits_ok_def wake_fields)
  ultimately show "pipe_inv pool seq (wake_cam p)" "pipe_inv pool seq (wake_usb p)"
    using wake_cam_keeps [of pool p seq] wake_usb_keeps [of pool p seq] by (simp_all add: pipe_inv_def)
qed

lemma signalled_one: "signalled p p' \<Longrightarrow> p_cam p \<noteq> CWaiting \<or> p_usb p \<noteq> UWaiting \<Longrightarrow> p' = broadcast p"
  by (auto simp: signalled_def broadcast_def)

section \<open>The invariant is kept by every step\<close>

lemma cam_step_main: "cam_step p p' \<Longrightarrow> p_main p' = p_main p"
  by (induction rule: cam_step.induct) (auto simp: broadcast_def signalled_def wake_simps split: if_splits)

lemma numbered_snoc: "numbered seq (js @ [j]) = numbered seq js @ [(seq + of_nat (length js), j)]"
  by (induction js arbitrary: seq) (simp_all add: ac_simps)

lemmas pipe_inv_defs = pipe_inv_def owned_def waits_ok_def control_ok_def data_ok_def
  cam_pending_def usb_taken_def

lemma owned_distinct:
  assumes "owned pool p" "distinct pool" "p_main p \<notin> {MSequential, MDone}"
  shows "distinct (p_empty p @ p_action p @ cam_holds (p_cam p) @ usb_holds (p_usb p))"
    and "set (p_empty p @ p_action p @ cam_holds (p_cam p) @ usb_holds (p_usb p)) = set pool"
proof -
  have m: "mset (p_empty p @ p_action p @ cam_holds (p_cam p) @ usb_holds (p_usb p)) = mset pool"
    using assms(1,3) by (simp add: owned_def)
  show "distinct (p_empty p @ p_action p @ cam_holds (p_cam p) @ usb_holds (p_usb p))"
    using mset_eq_imp_distinct_iff [OF m] assms(2) by blast
  show "set (p_empty p @ p_action p @ cam_holds (p_cam p) @ usb_holds (p_usb p)) = set pool"
    using m by (rule mset_eq_setD)
qed

lemma owned_working: "owned pool p \<Longrightarrow> cam_holds (p_cam p) \<noteq> [] \<or> usb_holds (p_usb p) \<noteq> [] \<Longrightarrow>
    p_main p \<notin> {MSequential, MDone}"
  by (auto simp: owned_def)

lemma data_okD:
  assumes "data_ok seq p"
  shows "numbered_frames seq (p_packed p @ cam_pending p) (p_seq p)"
    and "p_main p \<notin> {MSequential, MDone} \<Longrightarrow>
      p_packed p = map fst (p_sent p) @ usb_taken p @ map (p_pkt p) (p_action p)"
    and "prefix (map fst (p_sent p)) (p_packed p)" and "\<forall>(m, w) \<in> set (p_sent p). prefix w m"
  using assms unfolding data_ok_def by blast+

lemma data_okI:
  assumes "numbered_frames seq (p_packed p @ cam_pending p) (p_seq p)"
    and "p_packed p = map fst (p_sent p) @ usb_taken p @ map (p_pkt p) (p_action p)"
    and "\<forall>(m, w) \<in> set (p_sent p). prefix w m"
  shows "data_ok seq p"
proof -
  have "prefix (map fst (p_sent p)) (p_packed p)"
    by (subst assms(2)) simp
  then show ?thesis
    unfolding data_ok_def by (intro conjI impI assms)
qed

lemma numbered_frames_snoc:
  assumes "numbered_frames seq ps nxt" "frame_valid (nxt, jpeg)"
  shows "numbered_frames seq (ps @ [frame_enc (nxt, jpeg)]) (nxt + 1)"
proof -
  from assms(1) obtain js where "ps = map frame_enc (numbered seq js)"
    "\<forall>f \<in> set (numbered seq js). frame_valid f" "nxt = seq + of_nat (length js)"
    by (auto simp: numbered_frames_def)
  with assms(2) show ?thesis
    unfolding numbered_frames_def by (intro exI [of _ "js @ [jpeg]"]) (simp add: numbered_snoc)
qed

lemma cam_pack_data:
  assumes "owned pool p" "distinct pool" "data_ok seq p" "p_cam p = CPack b" "frame_valid (p_seq p, jpeg)"
  shows "data_ok seq (p\<lparr>p_cam := CPush b, p_pkt := (p_pkt p)(b := frame_enc (p_seq p, jpeg)), p_seq := p_seq p + 1\<rparr>)"
proof -
  have main: "p_main p \<notin> {MSequential, MDone}"
    using owned_working [OF assms(1)] assms(4) by simp
  have b: "b \<notin> set (p_action p)" "b \<notin> set (usb_sending (p_usb p))"
    using owned_distinct(1) [OF assms(1,2) main] assms(4) by (auto, cases "p_usb p", auto)
  have "numbered_frames seq (p_packed p @ [frame_enc (p_seq p, jpeg)]) (p_seq p + 1)"
    using assms(3,4,5) numbered_frames_snoc [of seq "p_packed p" "p_seq p" jpeg]
    by (simp add: data_ok_def cam_pending_def)
  moreover have "map ((p_pkt p)(b := x)) (p_action p) = map (p_pkt p) (p_action p)"
    "map ((p_pkt p)(b := x)) (usb_sending (p_usb p)) = map (p_pkt p) (usb_sending (p_usb p))" for x
    using b by auto
  ultimately show ?thesis
    using assms(3) main by (simp add: data_ok_def cam_pending_def usb_taken_def del: map_fun_upd)
qed

lemma usb_send_data:
  assumes "data_ok seq p" "p_usb p = UHave b" "p_main p \<notin> {MSequential, MDone}" "usb_sending pc = []"
    and "prefix w (p_pkt p b)"
  shows "data_ok seq (p\<lparr>p_usb := pc, p_sent := p_sent p @ [(p_pkt p b, w)]\<rparr>)"
proof -
  let ?q = "p\<lparr>p_usb := pc, p_sent := p_sent p @ [(p_pkt p b, w)]\<rparr>"
  have "p_packed p = map fst (p_sent p) @ usb_taken p @ map (p_pkt p) (p_action p)"
    using data_okD(2) [OF assms(1,3)] .
  then have "p_packed ?q = map fst (p_sent ?q) @ usb_taken ?q @ map (p_pkt ?q) (p_action ?q)"
    using assms(2,4) by (simp add: usb_taken_def)
  moreover have "numbered_frames seq (p_packed ?q @ cam_pending ?q) (p_seq ?q)"
    using data_okD(1) [OF assms(1)] by (simp add: cam_pending_def)
  moreover have "\<forall>(m, w) \<in> set (p_sent ?q). prefix w m"
    using data_okD(4) [OF assms(1)] assms(5) by simp
  ultimately show ?thesis
    by (intro data_okI)
qed

lemma pipe_inv_control:
  assumes "pipe_inv pool seq p" "owned pool p'" "waits_ok p'" "control_ok p'"
    and "p_packed p' = p_packed p" "cam_filled (p_cam p') = cam_filled (p_cam p)"
    and "usb_sending (p_usb p') = usb_sending (p_usb p)" "p_seq p' = p_seq p" "p_sent p' = p_sent p"
    and "p_pkt p' = p_pkt p" "p_action p' = p_action p"
    and "p_main p \<in> {MSequential, MDone} \<Longrightarrow> p_main p' \<in> {MSequential, MDone}"
  shows "pipe_inv pool seq p'"
  using assms data_ok_cong [of seq p p'] by (simp add: pipe_inv_def cam_pending_def usb_taken_def)

lemma pipe_inv_broadcast:
  assumes "pipe_inv pool seq p" "owned pool q" "control_ok q"
    and "p_packed q = p_packed p" "cam_filled (p_cam q) = cam_filled (p_cam p)"
    and "usb_sending (p_usb q) = usb_sending (p_usb p)" "p_seq q = p_seq p" "p_sent q = p_sent p"
    and "p_pkt q = p_pkt p" "p_action q = p_action p"
    and "p_main p \<in> {MSequential, MDone} \<Longrightarrow> p_main q \<in> {MSequential, MDone}"
  shows "pipe_inv pool seq (broadcast q)"
proof (rule broadcast_inv)
  show "data_ok seq q"
    using assms data_ok_cong [of seq p q] by (simp add: pipe_inv_def cam_pending_def usb_taken_def)
qed (use assms in simp_all)

lemmas pipe_inv_parts = pipe_inv_def owned_def waits_ok_def control_ok_def

lemma cam_step_inv:
  assumes "cam_step p p'" "pipe_inv pool seq p" "distinct pool"
  shows "pipe_inv pool seq p'"
  using assms
proof (induction rule: cam_step.induct)
  case (cam_pack p b jpeg)
  then have "data_ok seq (p\<lparr>p_cam := CPush b, p_pkt := (p_pkt p)(b := frame_enc (p_seq p, jpeg)),
      p_seq := p_seq p + 1\<rparr>)"
    by (intro cam_pack_data) (auto simp: pipe_inv_def)
  with cam_pack show ?case
    by (simp add: pipe_inv_parts split: if_splits)
next
  case (cam_push p b p')
  let ?q = "p\<lparr>p_action := p_action p @ [b], p_packed := p_packed p @ [p_pkt p b], p_cam := CMetrics\<rparr>"
  have main: "p_main p \<notin> {MSequential, MDone}"
    using owned_working [of pool p] cam_push by (simp add: pipe_inv_def)
  have "owned pool ?q" "control_ok ?q"
    using cam_push main by (simp_all add: pipe_inv_parts split: if_splits)
  moreover have "data_ok seq ?q"
  proof -
    have d: "data_ok seq p"
      using cam_push by (simp add: pipe_inv_def)
    have pend: "cam_pending p = [p_pkt p b]" "cam_pending ?q = []"
      using cam_push by (simp_all add: cam_pending_def)
    have "numbered_frames seq (p_packed ?q @ cam_pending ?q) (p_seq ?q)"
      using data_okD(1) [OF d] unfolding pend by simp
    moreover have "p_packed ?q = map fst (p_sent ?q) @ usb_taken ?q @ map (p_pkt ?q) (p_action ?q)"
      using data_okD(2) [OF d main] by (simp add: usb_taken_def)
    moreover have "\<forall>(m, w) \<in> set (p_sent ?q). prefix w m"
      using data_okD(4) [OF d] by simp
    ultimately show ?thesis
      by (rule data_okI)
  qed
  ultimately show ?case
    using signalled_one [OF cam_push(2)] broadcast_inv [of pool ?q seq] by simp
next
  case (cam_fatal p b)
  then show ?case
    by - (rule pipe_inv_broadcast [of pool seq p], simp_all add: pipe_inv_parts split: if_splits)
next
  case (cam_capture p b)
  then show ?case
    by - (rule pipe_inv_control [of pool seq p], simp_all add: pipe_inv_parts split: if_splits)
next
  case (cam_retry p b)
  then show ?case
    by - (rule pipe_inv_control [of pool seq p], simp_all add: pipe_inv_parts split: if_splits)
next
  case (cam_give_up p b)
  then show ?case
    by - (rule pipe_inv_control [of pool seq p], simp_all add: pipe_inv_parts split: if_splits)
next
  case (cam_test p)
  then show ?case
    by - (rule pipe_inv_control [of pool seq p], simp_all add: pipe_inv_parts split: if_splits)
next
  case (cam_wait p)
  then show ?case
    by - (rule pipe_inv_control [of pool seq p], simp_all add: pipe_inv_parts split: if_splits)
next
  case (cam_quit p)
  then show ?case
    by - (rule pipe_inv_control [of pool seq p], simp_all add: pipe_inv_parts split: if_splits)
next
  case (cam_pull p b es)
  then show ?case
    by - (rule pipe_inv_control [of pool seq p], simp_all add: pipe_inv_parts split: if_splits)
next
  case (cam_reject p b)
  then show ?case
    by - (rule pipe_inv_control [of pool seq p], simp_all add: pipe_inv_parts split: if_splits)
next
  case (cam_metrics p)
  then show ?case
    by - (rule pipe_inv_control [of pool seq p], simp_all add: pipe_inv_parts split: if_splits)
next
  case (cam_return p b)
  then show ?case
    by - (rule pipe_inv_control [of pool seq p], simp_all add: pipe_inv_parts split: if_splits)
next
  case (cam_fatal_return p b)
  then have "p_usb p \<noteq> UWaiting"
    by (auto simp: pipe_inv_def waits_ok_def control_ok_def)
  with cam_fatal_return show ?case
    by - (rule pipe_inv_control [of pool seq p], simp_all add: pipe_inv_parts split: if_splits)
qed

lemma usb_step_inv:
  assumes "usb_step p p'" "pipe_inv pool seq p"
  shows "pipe_inv pool seq p'"
  using assms
proof (induction rule: usb_step.induct)
  case (usb_test p)
  then show ?case
    by - (rule pipe_inv_control [of pool seq p], simp_all add: pipe_inv_parts split: if_splits)
next
  case (usb_wait p)
  then show ?case
    by - (rule pipe_inv_control [of pool seq p], simp_all add: pipe_inv_parts split: if_splits)
next
  case (usb_quit p)
  then show ?case
    by - (rule pipe_inv_control [of pool seq p], simp_all add: pipe_inv_parts split: if_splits)
next
  case (usb_pull p b bs)
  have main: "p_main p \<notin> {MSequential, MDone}"
    using usb_pull by (auto simp: pipe_inv_def owned_def)
  let ?q = "p\<lparr>p_action := bs, p_usb := UHave b\<rparr>"
  have d: "data_ok seq p"
    using usb_pull by (simp add: pipe_inv_def)
  have "usb_taken ?q @ map (p_pkt ?q) (p_action ?q) = usb_taken p @ map (p_pkt p) (p_action p)"
    using usb_pull by (simp add: usb_taken_def)
  then have "data_ok seq ?q"
    using data_okD [OF d] main by (intro data_okI) (simp_all add: cam_pending_def)
  moreover have "owned pool ?q"
    using usb_pull main by (simp add: pipe_inv_def owned_def ac_simps)
  ultimately show ?case
    using usb_pull by (simp add: pipe_inv_def waits_ok_def control_ok_def)
next
  case (usb_sent p b)
  have main: "p_main p \<notin> {MSequential, MDone}"
    using owned_working [of pool p] usb_sent by (simp add: pipe_inv_def)
  have "data_ok seq (p\<lparr>p_usb := UReturn b, p_sent := p_sent p @ [(p_pkt p b, p_pkt p b)]\<rparr>)"
    using usb_sent main by (intro usb_send_data) (simp_all add: pipe_inv_def strict_prefix_def)
  moreover have "owned pool (p\<lparr>p_usb := UReturn b, p_sent := p_sent p @ [(p_pkt p b, p_pkt p b)]\<rparr>)"
    using usb_sent main by (simp add: pipe_inv_def owned_def ac_simps)
  ultimately show ?case
    using usb_sent by (simp add: pipe_inv_def waits_ok_def control_ok_def)
next
  case (usb_retry p b w)
  have main: "p_main p \<notin> {MSequential, MDone}"
    using owned_working [of pool p] usb_retry by (simp add: pipe_inv_def)
  have "data_ok seq (p\<lparr>p_usb := UReturn b, p_sent := p_sent p @ [(p_pkt p b, w)]\<rparr>)"
    using usb_retry main by (intro usb_send_data) (simp_all add: pipe_inv_def strict_prefix_def)
  moreover have "owned pool (p\<lparr>p_usb := UReturn b, p_sent := p_sent p @ [(p_pkt p b, w)]\<rparr>)"
    using usb_retry main by (simp add: pipe_inv_def owned_def ac_simps)
  ultimately show ?case
    using usb_retry by (simp add: pipe_inv_def waits_ok_def control_ok_def)
next
  case (usb_give_up p b w)
  have main: "p_main p \<notin> {MSequential, MDone}"
    using owned_working [of pool p] usb_give_up by (simp add: pipe_inv_def)
  have "data_ok seq (p\<lparr>p_usb := UFatal b, p_sent := p_sent p @ [(p_pkt p b, w)]\<rparr>)"
    using usb_give_up main by (intro usb_send_data) (simp_all add: pipe_inv_def strict_prefix_def)
  moreover have "owned pool (p\<lparr>p_usb := UFatal b, p_sent := p_sent p @ [(p_pkt p b, w)]\<rparr>)"
    using usb_give_up main by (simp add: pipe_inv_def owned_def ac_simps)
  ultimately show ?case
    using usb_give_up by (simp add: pipe_inv_def waits_ok_def control_ok_def)
next
  case (usb_return p b p')
  have "pipe_inv pool seq (broadcast (p\<lparr>p_empty := p_empty p @ [b], p_usb := ULoop\<rparr>))"
    using usb_return by - (rule pipe_inv_broadcast [of pool seq p], simp_all add: pipe_inv_parts split: if_splits)
  with signalled_one [OF usb_return(2)] show ?case
    by simp
next
  case (usb_fatal p b)
  then show ?case
    by - (rule pipe_inv_broadcast [of pool seq p], simp_all add: pipe_inv_parts split: if_splits)
next
  case (usb_fatal_return p b)
  then have "p_cam p \<noteq> CWaiting"
    by (auto simp: pipe_inv_def waits_ok_def control_ok_def)
  with usb_fatal_return show ?case
    by - (rule pipe_inv_control [of pool seq p], simp_all add: pipe_inv_parts split: if_splits)
qed

lemma pipe_inv_move:
  assumes "pipe_inv pool seq p" "p_main p \<notin> {MSequential, MDone}" "m \<notin> {MSequential, MDone}"
    and "control_ok (p\<lparr>p_running := r, p_main := m\<rparr>)"
  shows "pipe_inv pool seq (p\<lparr>p_running := r, p_main := m\<rparr>)"
proof -
  have "data_ok seq (p\<lparr>p_running := r, p_main := m\<rparr>)"
    by (rule data_ok_cong [of seq p]) (use assms in \<open>simp_all add: pipe_inv_def cam_pending_def usb_taken_def\<close>)
  then show ?thesis
    using assms by (simp add: pipe_inv_def owned_def waits_ok_def)
qed

lemma pipe_inv_freed:
  assumes "pipe_inv pool seq p" "p_cam p = CDone" "p_usb p \<in> {UNone, UDone}" "m \<in> {MSequential, MDone}"
    and "p_usb p = UNone \<longleftrightarrow> m = MSequential"
  shows "pipe_inv pool seq (p\<lparr>p_empty := [], p_action := [], p_shutdown := True, p_main := m\<rparr>)"
proof -
  let ?q = "p\<lparr>p_empty := [], p_action := [], p_shutdown := True, p_main := m\<rparr>"
  have d: "data_ok seq p"
    using assms(1) by (simp add: pipe_inv_def)
  have "data_ok seq ?q"
    using data_okD(1,3,4) [OF d] assms(4) by (simp add: data_ok_def cam_pending_def)
  moreover have "owned pool ?q" "waits_ok ?q"
    using assms(2-4) by (auto simp: owned_def waits_ok_def)
  moreover have "control_ok ?q"
    using assms(2-5) by (auto simp: control_ok_def)
  ultimately show ?thesis
    by (simp add: pipe_inv_def)
qed

lemma main_step_inv:
  assumes "main_step p p'" "pipe_inv pool seq p"
  shows "pipe_inv pool seq p'"
  using assms
proof (induction rule: main_step.induct)
  case (main_create p)
  then have "p_usb p = UNone"
    by (simp add: pipe_inv_def control_ok_def)
  with main_create show ?case
    by - (rule pipe_inv_control [of pool seq p], auto simp: pipe_inv_parts)
next
  case (main_create_failed p)
  then have "pipe_inv pool seq (p\<lparr>p_running := p_running p, p_main := MAbort\<rparr>)"
    by - (rule pipe_inv_move, auto simp: pipe_inv_def control_ok_def)
  then show ?case
    by simp
next
  case (main_abort p)
  then show ?case
    by - (rule pipe_inv_broadcast [of pool seq p], auto simp: pipe_inv_def owned_def control_ok_def)
next
  case (main_abort_join p)
  then have "pipe_inv pool seq (p\<lparr>p_running := p_running p, p_main := MAbortFree\<rparr>)"
    by - (rule pipe_inv_move, auto simp: pipe_inv_def control_ok_def)
  then show ?case
    by simp
next
  case (main_abort_free p)
  then show ?case
    by (intro pipe_inv_freed) (auto simp: pipe_inv_def control_ok_def)
next
  case (main_monitor p)
  then have "pipe_inv pool seq (p\<lparr>p_running := p_running p, p_main := (if p_running p then MPoll else MShutdown)\<rparr>)"
    by - (rule pipe_inv_move, auto simp: pipe_inv_def control_ok_def)
  then show ?case
    by simp
next
  case (main_poll p)
  have "pipe_inv pool seq (p\<lparr>p_running := r, p_main := m\<rparr>)" if "m \<in> {MMonitor, MShutdown}" for r m
    using main_poll that by - (rule pipe_inv_move, auto simp: pipe_inv_def control_ok_def)
  from this [of MShutdown False] this [of MShutdown "p_running p"] this [of MMonitor "p_running p"]
  show ?case
    by simp
next
  case (main_shutdown p)
  then show ?case
    by - (rule pipe_inv_broadcast [of pool seq p], auto simp: pipe_inv_def owned_def control_ok_def)
next
  case (main_cleanup p)
  then show ?case
    by - (rule pipe_inv_broadcast [of pool seq p], auto simp: pipe_inv_def owned_def control_ok_def)
next
  case (main_join_cam p)
  then have "pipe_inv pool seq (p\<lparr>p_running := p_running p, p_main := MJoinUsb\<rparr>)"
    by - (rule pipe_inv_move, auto simp: pipe_inv_def control_ok_def)
  then show ?case
    by simp
next
  case (main_join_usb p)
  then have "pipe_inv pool seq (p\<lparr>p_running := p_running p, p_main := MFree\<rparr>)"
    by - (rule pipe_inv_move, auto simp: pipe_inv_def control_ok_def)
  then show ?case
    by simp
next
  case (main_free p)
  then show ?case
    by (intro pipe_inv_freed) (auto simp: pipe_inv_def control_ok_def)
qed

lemma env_step_inv:
  assumes "env_step p p'" "pipe_inv pool seq p"
  shows "pipe_inv pool seq p'"
  using assms
proof (induction rule: env_step.induct)
  case (env_signal p)
  then show ?case
    by - (rule pipe_inv_broadcast [of pool seq p], auto simp: pipe_inv_def owned_def control_ok_def)
qed (simp_all add: wake_inv)

lemma pipe_step_inv:
  "pipe_step p p' \<Longrightarrow> pipe_inv pool seq p \<Longrightarrow> distinct pool \<Longrightarrow> pipe_inv pool seq p'"
  using cam_step_inv usb_step_inv main_step_inv env_step_inv by (auto simp: pipe_step_def)

lemma numbered_frames_Nil: "numbered_frames seq [] seq"
  unfolding numbered_frames_def by (intro exI [of _ "[]"]) simp

lemma pipe_start_inv: "pipe_start pool seq p \<Longrightarrow> pipe_inv pool seq p"
  by (simp add: pipe_start_def pipe_inv_parts data_ok_def cam_pending_def usb_taken_def numbered_frames_Nil)

end
