(* ===== verification/CameraThreads.thy ===== *)
theory CameraThreads
  imports PipelineSpec FrameQueue UsbTransport CameraManager
begin

section \<open>The camera and USB threads (camera_threads.c)\<close>

text \<open>
  The two worker threads over the shared heap of the frame queues, the metrics packet, the creation of
  the threads and their shutdown.  A thread is a position (the program counters of \<open>PipelineSpec\<close>) and
  its local variables; a step function runs a thread from one position to the next.  Code between
  \<open>pthread_mutex_lock\<close> and \<open>pthread_mutex_unlock\<close> is one step, waiting on the condition variable is a
  position that only a wake-up leaves, and every call that talks to a device takes the device's answer
  from the step's input.  A step is \<open>Blocked\<close> when the thread has to wait, \<open>Fault\<close> when the code would
  access memory it must not (an unallocated structure or block, an endless list walk, a mutex that does
  not exist), and \<open>Next\<close> of the new state otherwise.  Logging and sleeping are left out; of the logged
  statistics the ones whose computation reads the queues are kept.
\<close>

subsection \<open>State\<close>

definition METRICS_INTERVAL_MS :: nat where "METRICS_INTERVAL_MS = 1000"
definition STATS_INTERVAL :: u32 where "STATS_INTERVAL = 30"

datatype 'a outcome = Blocked | Fault | Next 'a

record thread_context =
  ctx_camera_fd :: int
  ctx_usb_fd :: int
  ctx_buffer_count :: int
  ctx_packet_buffer_size :: u32

record metrics =
  g_metrics_sequence :: u32
  g_total_camera_frames :: u32
  g_total_usb_packets :: u32
  g_total_packet_bytes :: u64
  g_total_errors :: u32
  g_start_time :: timespec
  g_last_metrics_time :: timespec

record cam_thread =
  cam_pc :: cam_pc
  ct_frame :: camera_frame
  ct_error_count :: u32
  ct_frame_count :: u32
  ct_jpeg_validation_error_count :: u32
  ct_consecutive_jpeg_errors :: u32
  ct_total_jpeg_bytes :: u64

record usb_thread =
  usb_pc :: usb_pc
  ut_error_count :: u32
  ut_packet_count :: u32
  ut_total_bytes :: u32

text \<open>
  The whole system.  \<open>h_packed\<close> and \<open>h_sent\<close> are history variables the code does not have: the packets
  pushed to the action queue, and for each packet the USB thread took what the device accepted of it.
\<close>

record sys =
  s_fq :: fq_state
  s_cam :: cam_thread
  s_usb :: usb_thread
  s_main :: main_pc
  s_running :: bool
  s_ctx :: thread_context
  s_seq :: u32
  s_mgr :: camera_manager
  s_tp :: usb_transport
  s_metrics :: metrics
  s_trace :: trace
  h_packed :: "bytes list"
  h_sent :: "(bytes \<times> bytes) list"

subsection \<open>Time\<close>

text \<open>
  \<open>(uint64_t)(now.tv_sec - start.tv_sec) * 1000 + (uint64_t)(now.tv_nsec - start.tv_nsec) / 1000000\<close>:
  each difference is converted to 64 unsigned bits before the division.
\<close>

definition elapsed_ms :: "timespec \<Rightarrow> timespec \<Rightarrow> u64" where
  "elapsed_ms now start =
     of_int (tv_sec now - tv_sec start) * 1000 + of_int (tv_nsec now - tv_nsec start) div 1000000"

definition get_uptime_ms :: "timespec \<Rightarrow> metrics \<Rightarrow> u32" where
  "get_uptime_ms now m = ucast (elapsed_ms now (g_start_time m))"

subsection \<open>The metrics packet\<close>

definition avg_packet_bytes :: "metrics \<Rightarrow> u32" where
  "avg_packet_bytes m =
     (if g_total_usb_packets m > 0
      then ucast (g_total_packet_bytes m div ucast (g_total_usb_packets m)) else 0)"

text \<open>\<open>None\<close> when the depth count walks a broken list; otherwise the C result, the counters, the write.\<close>

definition send_metrics_packet ::
  "timespec \<Rightarrow> write_result \<Rightarrow> int \<Rightarrow> fq_state \<Rightarrow> metrics \<Rightarrow> (int \<times> metrics \<times> trace) option" where
  "send_metrics_packet now wr fd q m =
     (case frame_queue_depth (fq_heap q) (g_action_queue q) of
        None \<Rightarrow> None
      | Some depth \<Rightarrow>
          (case mjpeg_pack_metrics (get_uptime_ms now m) (g_total_camera_frames m) (g_total_usb_packets m)
              (of_int depth) (avg_packet_bytes m) (g_total_errors m) (Some (g_metrics_sequence m))
              (Some (replicate METRICS_PACKET_SIZE 0)) of
             Inl e \<Rightarrow> Some (e, m, [])
           | Inr (n, seq', buf) \<Rightarrow>
               let m' = m\<lparr>g_metrics_sequence := seq'\<rparr>
               in (case wr of
                     WriteErr e \<Rightarrow> Some (- e, m', [])
                   | Wrote w \<Rightarrow>
                       Some (if w \<noteq> METRICS_PACKET_SIZE then - EIO else 0, m',
                         [OsWrite fd (take w (take METRICS_PACKET_SIZE buf))]))))"

subsection \<open>Waking\<close>

definition wake_cam_thread :: "sys \<Rightarrow> sys" where
  "wake_cam_thread s =
     (if cam_pc (s_cam s) = CWaiting then s\<lparr>s_cam := (s_cam s)\<lparr>cam_pc := CLock\<rparr>\<rparr> else s)"

definition wake_usb_thread :: "sys \<Rightarrow> sys" where
  "wake_usb_thread s =
     (if usb_pc (s_usb s) = UWaiting then s\<lparr>s_usb := (s_usb s)\<lparr>usb_pc := ULock\<rparr>\<rparr> else s)"

text \<open>\<open>pthread_cond_signal\<close> wakes one waiter; when both wait, the input says which.\<close>

definition cond_signal :: "bool \<Rightarrow> sys \<Rightarrow> sys" where
  "cond_signal first_cam s =
     (if cam_pc (s_cam s) = CWaiting \<and> usb_pc (s_usb s) = UWaiting
      then (if first_cam then wake_cam_thread s else wake_usb_thread s)
      else wake_cam_thread (wake_usb_thread s))"

definition cond_broadcast :: "sys \<Rightarrow> sys" where
  "cond_broadcast s = wake_cam_thread (wake_usb_thread s)"

text \<open>A critical section: the mutex and the condition variable must exist.\<close>

definition critical :: "sys \<Rightarrow> sys outcome \<Rightarrow> sys outcome" where
  "critical s r =
     (if g_queue_mutex_ready (s_fq s) \<and> g_queue_cond_ready (s_fq s) then r else Fault)"

definition request_shutdown :: "sys \<Rightarrow> sys" where
  "request_shutdown s = cond_broadcast (s\<lparr>s_fq := (s_fq s)\<lparr>g_shutdown_requested := True\<rparr>\<rparr>)"

definition push_empty :: "nat \<Rightarrow> sys \<Rightarrow> sys outcome" where
  "push_empty b s =
     (case frame_queue_push (fq_heap (s_fq s)) (g_empty_queue (s_fq s)) (Some b) of
        None \<Rightarrow> Fault
      | Some (h, q) \<Rightarrow> Next (s\<lparr>s_fq := (s_fq s)\<lparr>fq_heap := h, g_empty_queue := q\<rparr>\<rparr>))"

definition push_action :: "nat \<Rightarrow> sys \<Rightarrow> sys outcome" where
  "push_action b s =
     (case frame_queue_push (fq_heap (s_fq s)) (g_action_queue (s_fq s)) (Some b) of
        None \<Rightarrow> Fault
      | Some (h, q) \<Rightarrow> Next (s\<lparr>s_fq := (s_fq s)\<lparr>fq_heap := h, g_action_queue := q\<rparr>\<rparr>))"

fun and_then :: "'a outcome \<Rightarrow> ('a \<Rightarrow> 'b outcome) \<Rightarrow> 'b outcome" where
  "and_then Blocked f = Blocked"
| "and_then Fault f = Fault"
| "and_then (Next x) f = f x"

definition cam_goto :: "cam_pc \<Rightarrow> sys \<Rightarrow> sys" where
  "cam_goto pc s = s\<lparr>s_cam := (s_cam s)\<lparr>cam_pc := pc\<rparr>\<rparr>"

definition usb_goto :: "usb_pc \<Rightarrow> sys \<Rightarrow> sys" where
  "usb_goto pc s = s\<lparr>s_usb := (s_usb s)\<lparr>usb_pc := pc\<rparr>\<rparr>"

text \<open>The data block of a buffer: \<open>None\<close> a bad access, \<open>Some None\<close> a NULL data pointer.\<close>

definition buffer_block :: "fq_state \<Rightarrow> frame_buffer \<Rightarrow> bytes option option" where
  "buffer_block q fb =
     (case fb_data fb of
        None \<Rightarrow> Some None
      | Some a \<Rightarrow> (case fq_blocks q a of None \<Rightarrow> None | Some bs \<Rightarrow> Some (Some bs)))"

definition buffer_bytes :: "fq_state \<Rightarrow> nat \<Rightarrow> bytes" where
  "buffer_bytes q b =
     (case fq_heap q b of
        None \<Rightarrow> []
      | Some fb \<Rightarrow> (case buffer_block q fb of Some (Some bs) \<Rightarrow> take (unat (fb_used fb)) bs | _ \<Rightarrow> []))"

subsection \<open>The camera thread\<close>

record cam_input =
  ci_frame :: frame_env
  ci_mem :: bytes
  ci_now :: timespec
  ci_uptime :: timespec
  ci_write :: write_result
  ci_first_cam :: bool

text \<open>Pulling an empty buffer: the wait loop's test, the shutdown test and the pull, under the mutex.\<close>

definition cam_acquire :: "sys \<Rightarrow> sys outcome" where
  "cam_acquire s = critical s
     (let q = s_fq s
      in if frame_queue_is_empty (g_empty_queue q) \<and> \<not> g_shutdown_requested q then Next (cam_goto CWaiting s)
         else if g_shutdown_requested q then Next (cam_goto CDone s)
         else (case frame_queue_pull (fq_heap q) (g_empty_queue q) of
             None \<Rightarrow> Fault
           | Some (h, p, buf) \<Rightarrow>
               let s' = s\<lparr>s_fq := q\<lparr>fq_heap := h, g_empty_queue := p\<rparr>\<rparr>
               in (case buf of None \<Rightarrow> Next (cam_goto CLoop s') | Some b \<Rightarrow> Next (cam_goto (CHave b) s'))))"

definition cam_count_error :: "sys \<Rightarrow> sys" where
  "cam_count_error s =
     s\<lparr>s_cam := (s_cam s)\<lparr>ct_error_count := ct_error_count (s_cam s) + 1\<rparr>,
       s_metrics := (s_metrics s)\<lparr>g_total_errors := g_total_errors (s_metrics s) + 1\<rparr>\<rparr>"

definition cam_capture_frame :: "cam_input \<Rightarrow> nat \<Rightarrow> sys \<Rightarrow> sys outcome" where
  "cam_capture_frame inp b s =
     (case camera_get_frame (ci_frame inp) (Some (ct_frame (s_cam s))) (s_mgr s) of
        (ret, frame, mgr, tr) \<Rightarrow>
          let s1 = s\<lparr>s_mgr := mgr, s_trace := s_trace s @ tr,
                s_cam := (s_cam s)\<lparr>ct_frame := (case frame of Some f \<Rightarrow> f | None \<Rightarrow> ct_frame (s_cam s))\<rparr>\<rparr>
          in if ret < 0 then
               (if ret = ERR_TIMEOUT then Next (cam_goto (CReturn b) s1)
                else let s2 = cam_count_error s1
                     in if 3 \<le> ct_error_count (s_cam s2) then Next (cam_goto (CFatal b) s2)
                        else Next (cam_goto (CReturn b) s2))
             else Next (cam_goto (CPack b) (s1\<lparr>s_cam := (s_cam s1)\<lparr>ct_error_count := 0\<rparr>\<rparr>)))"

definition cam_count_invalid :: "sys \<Rightarrow> sys" where
  "cam_count_invalid s =
     s\<lparr>s_cam := (s_cam s)\<lparr>ct_jpeg_validation_error_count := ct_jpeg_validation_error_count (s_cam s) + 1,
         ct_consecutive_jpeg_errors := ct_consecutive_jpeg_errors (s_cam s) + 1\<rparr>,
       s_metrics := (s_metrics s)\<lparr>g_total_errors := g_total_errors (s_metrics s) + 1\<rparr>\<rparr>"

definition cam_pack_frame :: "cam_input \<Rightarrow> nat \<Rightarrow> sys \<Rightarrow> sys outcome" where
  "cam_pack_frame inp b s =
     (let q = s_fq s; f = ct_frame (s_cam s)
      in case fq_heap q b of
           None \<Rightarrow> Fault
         | Some fb \<Rightarrow>
             (case buffer_block q fb of
                None \<Rightarrow> Fault
              | Some pkt \<Rightarrow>
                  (case mjpeg_pack_frame (if frm_buf f = 0 then None else Some (ci_mem inp)) (frm_size f)
                      (Some (s_seq s)) pkt (unat (fb_length fb)) of
                     Inl e \<Rightarrow> Next (cam_goto (CReturn b) (cam_count_invalid s))
                   | Inr (packet_size, seq', pkt') \<Rightarrow>
                       Next (cam_goto (CPush b)
                         (s\<lparr>s_seq := seq',
                            s_fq := q\<lparr>fq_heap := (fq_heap q)(b \<mapsto> fb\<lparr>fb_used := of_nat packet_size\<rparr>),
                              fq_blocks := (fq_blocks q)(the (fb_data fb) \<mapsto> pkt')\<rparr>,
                            s_cam := (s_cam s)\<lparr>ct_consecutive_jpeg_errors := 0,
                              ct_total_jpeg_bytes := ct_total_jpeg_bytes (s_cam s) + ucast (frm_size f)\<rparr>,
                            s_metrics := (s_metrics s)\<lparr>g_total_camera_frames :=
                              g_total_camera_frames (s_metrics s) + 1\<rparr>\<rparr>)))))"

text \<open>The statistics every 30 frames walk both queues, still under the mutex.\<close>

definition cam_stats :: "sys \<Rightarrow> sys outcome" where
  "cam_stats s =
     (if ct_frame_count (s_cam s) mod STATS_INTERVAL = 0 then
        (case (frame_queue_depth (fq_heap (s_fq s)) (g_action_queue (s_fq s)),
               frame_queue_depth (fq_heap (s_fq s)) (g_empty_queue (s_fq s))) of
           (Some a, Some e) \<Rightarrow> Next s | _ \<Rightarrow> Fault)
      else Next s)"

definition cam_push_filled :: "cam_input \<Rightarrow> nat \<Rightarrow> sys \<Rightarrow> sys outcome" where
  "cam_push_filled inp b s = critical s
     (and_then (push_action b (s\<lparr>h_packed := h_packed s @ [buffer_bytes (s_fq s) b]\<rparr>)) (\<lambda>s1.
        let s2 = cond_signal (ci_first_cam inp) (cam_goto CMetrics s1)
        in cam_stats (s2\<lparr>s_cam := (s_cam s2)\<lparr>ct_frame_count := ct_frame_count (s_cam s2) + 1\<rparr>\<rparr>)))"

definition cam_send_metrics :: "cam_input \<Rightarrow> sys \<Rightarrow> sys outcome" where
  "cam_send_metrics inp s =
     (if METRICS_INTERVAL_MS \<le> unat (elapsed_ms (ci_now inp) (g_last_metrics_time (s_metrics s))) then
        (case send_metrics_packet (ci_uptime inp) (ci_write inp) (ctx_usb_fd (s_ctx s)) (s_fq s) (s_metrics s) of
           None \<Rightarrow> Fault
         | Some (ret, m, tr) \<Rightarrow>
             Next (cam_goto CLoop (s\<lparr>s_metrics := m\<lparr>g_last_metrics_time := ci_now inp\<rparr>,
               s_trace := s_trace s @ tr\<rparr>)))
      else Next (cam_goto CLoop s))"

fun camera_thread_step :: "cam_input \<Rightarrow> cam_pc \<Rightarrow> sys \<Rightarrow> sys outcome" where
  "camera_thread_step inp CLoop s =
     Next (cam_goto (if g_shutdown_requested (s_fq s) then CDone else CLock) s)"
| "camera_thread_step inp CLock s = cam_acquire s"
| "camera_thread_step inp CWaiting s = Blocked"
| "camera_thread_step inp (CHave b) s = cam_capture_frame inp b s"
| "camera_thread_step inp (CPack b) s = cam_pack_frame inp b s"
| "camera_thread_step inp (CPush b) s = cam_push_filled inp b s"
| "camera_thread_step inp CMetrics s = cam_send_metrics inp s"
| "camera_thread_step inp (CReturn b) s =
     critical s (and_then (push_empty b s) (\<lambda>s1. Next (cam_goto CLoop s1)))"
| "camera_thread_step inp (CFatal b) s = critical s (Next (request_shutdown (cam_goto (CFatalReturn b) s)))"
| "camera_thread_step inp (CFatalReturn b) s =
     critical s (and_then (push_empty b s) (\<lambda>s1. Next (cam_goto CDone s1)))"
| "camera_thread_step inp CDone s = Blocked"

definition camera_thread_func :: "cam_input \<Rightarrow> sys \<Rightarrow> sys outcome" where
  "camera_thread_func inp s = camera_thread_step inp (cam_pc (s_cam s)) s"

subsection \<open>The USB thread\<close>

record usb_input =
  ui_write :: "nat \<Rightarrow> nat \<Rightarrow> write_result"
  ui_first_cam :: bool

definition usb_acquire :: "sys \<Rightarrow> sys outcome" where
  "usb_acquire s = critical s
     (let q = s_fq s
      in if frame_queue_is_empty (g_action_queue q) \<and> \<not> g_shutdown_requested q then Next (usb_goto UWaiting s)
         else if g_shutdown_requested q then Next (usb_goto UDone s)
         else (case frame_queue_pull (fq_heap q) (g_action_queue q) of
             None \<Rightarrow> Fault
           | Some (h, p, buf) \<Rightarrow>
               let s' = s\<lparr>s_fq := q\<lparr>fq_heap := h, g_action_queue := p\<rparr>\<rparr>
               in (case buf of None \<Rightarrow> Next (usb_goto ULoop s') | Some b \<Rightarrow> Next (usb_goto (UHave b) s'))))"

definition usb_count_sent :: "u32 \<Rightarrow> sys \<Rightarrow> sys" where
  "usb_count_sent used s =
     s\<lparr>s_usb := (s_usb s)\<lparr>ut_error_count := 0, ut_packet_count := ut_packet_count (s_usb s) + 1,
         ut_total_bytes := ut_total_bytes (s_usb s) + used\<rparr>,
       s_metrics := (s_metrics s)\<lparr>g_total_usb_packets := g_total_usb_packets (s_metrics s) + 1,
         g_total_packet_bytes := g_total_packet_bytes (s_metrics s) + ucast used\<rparr>\<rparr>"

definition usb_send_buffer :: "usb_input \<Rightarrow> nat \<Rightarrow> sys \<Rightarrow> sys outcome" where
  "usb_send_buffer inp b s =
     (case fq_heap (s_fq s) b of
        None \<Rightarrow> Fault
      | Some fb \<Rightarrow>
          (case buffer_block (s_fq s) fb of
             None \<Rightarrow> Fault
           | Some data \<Rightarrow>
               if (case data of None \<Rightarrow> False | Some bs \<Rightarrow> length bs < unat (fb_used fb)) then Fault
               else (case usb_transport_send_bytes (ui_write inp) data (unat (fb_used fb)) (s_tp s) of
                  (ret, tp, tr) \<Rightarrow>
                    let s1 = s\<lparr>s_tp := tp, s_trace := s_trace s @ tr,
                          h_sent := h_sent s @ [(buffer_bytes (s_fq s) b, written (usb_fd (s_tp s)) tr)]\<rparr>
                    in if ret < 0 then
                         (if ret = - ENXIO \<or> ret = - EIO \<or> ret = ERR_USB_DISCONNECTED
                          then Next (usb_goto (UFatal b) s1)
                          else let s2 = s1\<lparr>s_usb := (s_usb s1)\<lparr>ut_error_count := ut_error_count (s_usb s1) + 1\<rparr>\<rparr>
                               in if 10 \<le> ut_error_count (s_usb s2) then Next (usb_goto (UFatal b) s2)
                                  else Next (usb_goto (UReturn b) s2))
                       else Next (usb_goto (UReturn b) (usb_count_sent (fb_used fb) s1)))))"

fun usb_thread_step :: "usb_input \<Rightarrow> usb_pc \<Rightarrow> sys \<Rightarrow> sys outcome" where
  "usb_thread_step inp UNone s = Blocked"
| "usb_thread_step inp ULoop s =
     Next (usb_goto (if g_shutdown_requested (s_fq s) then UDone else ULock) s)"
| "usb_thread_step inp ULock s = usb_acquire s"
| "usb_thread_step inp UWaiting s = Blocked"
| "usb_thread_step inp (UHave b) s = usb_send_buffer inp b s"
| "usb_thread_step inp (UReturn b) s =
     critical s (and_then (push_empty b s) (\<lambda>s1. Next (cond_signal (ui_first_cam inp) (usb_goto ULoop s1))))"
| "usb_thread_step inp (UFatal b) s = critical s (Next (request_shutdown (usb_goto (UFatalReturn b) s)))"
| "usb_thread_step inp (UFatalReturn b) s =
     critical s (and_then (push_empty b s) (\<lambda>s1. Next (usb_goto UDone s1)))"
| "usb_thread_step inp UDone s = Blocked"

definition usb_thread_func :: "usb_input \<Rightarrow> sys \<Rightarrow> sys outcome" where
  "usb_thread_func inp s = usb_thread_step inp (usb_pc (s_usb s)) s"

subsection \<open>Creating the threads\<close>

record init_input =
  ii_now :: timespec
  ii_attr :: int
  ii_proto :: int
  ii_mutex :: int
  ii_cond :: int
  ii_pool :: ptr
  ii_align :: "nat \<Rightarrow> (nat \<times> bytes) option"
  ii_create_cam :: int

definition fresh_cam_thread :: "camera_frame \<Rightarrow> cam_thread" where
  "fresh_cam_thread f = \<lparr>cam_pc = CLoop, ct_frame = f, ct_error_count = 0, ct_frame_count = 0,
     ct_jpeg_validation_error_count = 0, ct_consecutive_jpeg_errors = 0, ct_total_jpeg_bytes = 0\<rparr>"

definition fresh_usb_thread :: usb_thread where
  "fresh_usb_thread = \<lparr>usb_pc = ULoop, ut_error_count = 0, ut_packet_count = 0, ut_total_bytes = 0\<rparr>"

text \<open>
  \<open>camera_threads_init\<close> up to the creation of the camera thread, which then runs beside the rest of the
  function.  The result is the C return value (0 when the function goes on) and the system; \<open>f\<close> is the
  unspecified initial value of the thread's local \<open>frame\<close>.
\<close>

definition threads_cleanup_queues :: "int \<Rightarrow> sys \<Rightarrow> (int \<times> sys) outcome" where
  "threads_cleanup_queues ret s =
     (case frame_queue_cleanup (s_fq s) of None \<Rightarrow> Fault | Some q \<Rightarrow> Next (ret, s\<lparr>s_fq := q\<rparr>))"

definition camera_threads_init ::
  "init_input \<Rightarrow> camera_frame \<Rightarrow> thread_context option \<Rightarrow> sys \<Rightarrow> (int \<times> sys) outcome" where
  "camera_threads_init inp f ctx s =
     (case ctx of
        None \<Rightarrow> Next (- EINVAL, s)
      | Some c \<Rightarrow>
          let s0 = s\<lparr>s_ctx := c, s_metrics := (s_metrics s)\<lparr>g_start_time := ii_now inp,
                g_last_metrics_time := ii_now inp\<rparr>\<rparr>
          in (case frame_queue_init (ii_attr inp) (ii_proto inp) (ii_mutex inp) (ii_cond inp) (s_fq s0) of
              (ret, q) \<Rightarrow>
                if ret < 0 then Next (ret, s0\<lparr>s_fq := q\<rparr>)
                else (case frame_queue_allocate_buffers (ii_pool inp) (ii_align inp)
                    (ctx_packet_buffer_size c) MAX_QUEUE_DEPTH q of
                   None \<Rightarrow> Fault
                 | Some (ret, q2) \<Rightarrow>
                     let s2 = s0\<lparr>s_fq := q2\<rparr>
                     in if ret < 0 then threads_cleanup_queues ret s2
                        else if ii_create_cam inp \<noteq> 0 then threads_cleanup_queues (- ii_create_cam inp) s2
                        else Next (0, s2\<lparr>s_cam := fresh_cam_thread f, s_main := MCreateUsb,
                               s_usb := fresh_usb_thread\<lparr>usb_pc := UNone\<rparr>\<rparr>))))"

text \<open>The rest of \<open>camera_threads_init\<close>: creating the USB thread, or stopping and joining the camera thread.\<close>

fun create_usb_step :: "int \<Rightarrow> main_pc \<Rightarrow> sys \<Rightarrow> sys outcome" where
  "create_usb_step create MCreateUsb s =
     (if create \<noteq> 0 then Next (s\<lparr>s_main := MAbort\<rparr>)
      else Next (s\<lparr>s_usb := fresh_usb_thread, s_main := MMonitor\<rparr>))"
| "create_usb_step create MAbort s = critical s (Next (request_shutdown (s\<lparr>s_main := MAbortJoin\<rparr>)))"
| "create_usb_step create MAbortJoin s =
     (if cam_pc (s_cam s) = CDone then Next (s\<lparr>s_main := MAbortFree\<rparr>) else Blocked)"
| "create_usb_step create MAbortFree s =
     (case frame_queue_cleanup (s_fq s) of
        None \<Rightarrow> Fault | Some q \<Rightarrow> Next (s\<lparr>s_fq := q, s_main := MSequential\<rparr>))"
| "create_usb_step create pc s = Blocked"

fun camera_threads_cleanup :: "main_pc \<Rightarrow> sys \<Rightarrow> sys outcome" where
  "camera_threads_cleanup MCleanup s =
     critical s (Next (cond_broadcast
       ((if \<not> g_shutdown_requested (s_fq s)
         then s\<lparr>s_fq := (s_fq s)\<lparr>g_shutdown_requested := True\<rparr>\<rparr> else s)\<lparr>s_main := MJoinCam\<rparr>)))"
| "camera_threads_cleanup MJoinCam s =
     (if cam_pc (s_cam s) = CDone then Next (s\<lparr>s_main := MJoinUsb\<rparr>) else Blocked)"
| "camera_threads_cleanup MJoinUsb s =
     (if usb_pc (s_usb s) = UDone then Next (s\<lparr>s_main := MFree\<rparr>) else Blocked)"
| "camera_threads_cleanup MFree s =
     (case frame_queue_cleanup (s_fq s) of
        None \<Rightarrow> Fault | Some q \<Rightarrow> Next (s\<lparr>s_fq := q, s_main := MDone\<rparr>))"
| "camera_threads_cleanup pc s = Blocked"

subsection \<open>The main thread and the signal handler (camera_app_main.c)\<close>

text \<open>The monitor loop of \<open>main\<close> in threaded mode, and the shutdown request after it.\<close>

fun monitor_step :: "main_pc \<Rightarrow> sys \<Rightarrow> sys outcome" where
  "monitor_step MMonitor s = Next (s\<lparr>s_main := (if s_running s then MPoll else MShutdown)\<rparr>)"
| "monitor_step MPoll s =
     (if g_shutdown_requested (s_fq s) then Next (s\<lparr>s_running := False, s_main := MShutdown\<rparr>)
      else if \<not> s_running s then Next (s\<lparr>s_main := MShutdown\<rparr>)
      else Next (s\<lparr>s_main := MMonitor\<rparr>))"
| "monitor_step MShutdown s = critical s (Next (request_shutdown (s\<lparr>s_main := MCleanup\<rparr>)))"
| "monitor_step pc s = Blocked"

definition main_thread_step :: "int \<Rightarrow> sys \<Rightarrow> sys outcome" where
  "main_thread_step create s =
     (if s_main s \<in> {MCreateUsb, MAbort, MAbortJoin, MAbortFree} then create_usb_step create (s_main s) s
      else if s_main s \<in> {MMonitor, MPoll, MShutdown} then monitor_step (s_main s) s
      else camera_threads_cleanup (s_main s) s)"

definition SIGINT :: int where "SIGINT = 2"
definition SIGTERM :: int where "SIGTERM = 15"

definition signal_handler :: "int \<Rightarrow> sys \<Rightarrow> sys outcome" where
  "signal_handler signo s =
     (if signo = SIGINT \<or> signo = SIGTERM
      then (let s1 = s\<lparr>s_running := False\<rparr> in critical s1 (Next (request_shutdown s1)))
      else Next s)"

subsection \<open>Runs\<close>

text \<open>
  A step of the system: a thread with admissible device answers (the frame's memory holds as many bytes
  as the driver reported, \<open>write\<close> accepts no more than it is given), a termination signal while the
  threading system is up, or a spurious wake-up.
\<close>

inductive sys_step :: "sys \<Rightarrow> sys \<Rightarrow> bool" where
  camera: "unat (frm_size (ct_frame (s_cam s))) \<le> length (ci_mem inp) \<Longrightarrow>
    camera_thread_func inp s = Next s' \<Longrightarrow> sys_step s s'"
| usb: "write_contract (ui_write inp) \<Longrightarrow> usb_thread_func inp s = Next s' \<Longrightarrow> sys_step s s'"
| main: "main_thread_step create s = Next s' \<Longrightarrow> sys_step s s'"
| signal: "s_main s \<notin> {MSequential, MDone} \<Longrightarrow> signal_handler signo s = Next s' \<Longrightarrow> sys_step s s'"
| spurious_cam: "sys_step s (wake_cam_thread s)"
| spurious_usb: "sys_step s (wake_usb_thread s)"

inductive_cases sys_stepE: "sys_step s s'"

abbreviation sys_reach :: "sys \<Rightarrow> sys \<Rightarrow> bool" where
  "sys_reach \<equiv> rtranclp sys_step"

end
