(* ===== verification/ThreadRefinement.thy ===== *)
theory ThreadRefinement
  imports CameraThreads
begin

section \<open>The threads implement the pipeline\<close>

text \<open>
  The refinement between the threads of \<open>CameraThreads\<close>, which work on linked lists in a shared heap, and
  the abstract pipeline of \<open>PipelineSpec\<close>, which works on lists of buffers: the representation relation,
  one simulation lemma per thread (which also shows that no step faults), and the properties of the
  running system that follow from the pipeline's invariant.
\<close>

subsection \<open>Representation\<close>

abbreviation pool :: "nat \<Rightarrow> nat list" where
  "pool base \<equiv> [base..<base + 3]"

text \<open>A buffer of the pool: its structure owns a block of the packet size and uses a part of it.\<close>

definition pool_buffer :: "fq_state \<Rightarrow> nat \<Rightarrow> bool" where
  "pool_buffer q b \<longleftrightarrow>
     (\<exists>fb a bs. fq_heap q b = Some fb \<and> fb_data fb = Some a \<and> fq_blocks q a = Some bs \<and>
        length bs = MJPEG_MAX_PACKET_SIZE \<and> unat (fb_length fb) = MJPEG_MAX_PACKET_SIZE \<and>
        unat (fb_used fb) \<le> MJPEG_MAX_PACKET_SIZE)"

definition queues_rep :: "nat \<Rightarrow> nat list \<Rightarrow> fq_state \<Rightarrow> nat list \<Rightarrow> nat list \<Rightarrow> bool" where
  "queues_rep base blks q es as \<longleftrightarrow>
     is_queue (fq_heap q) (g_empty_queue q) es \<and> is_queue (fq_heap q) (g_action_queue q) as \<and>
     pool_owns q base blks \<and> length blks = 3 \<and> g_queue_mutex_ready q \<and> g_queue_cond_ready q \<and>
     (\<forall>b \<in> set (pool base). pool_buffer q b)"

text \<open>After clean-up the structures and blocks of the pool are given back, and the mutex is gone.\<close>

definition freed :: "nat \<Rightarrow> nat list \<Rightarrow> fq_state \<Rightarrow> bool" where
  "freed base blks q \<longleftrightarrow>
     (\<forall>b \<in> set (pool base). fq_heap q b = None) \<and> (\<forall>a \<in> set blks. fq_blocks q a = None) \<and>
     \<not> g_queue_mutex_ready q"

definition refines :: "nat \<Rightarrow> nat list \<Rightarrow> sys \<Rightarrow> pipe \<Rightarrow> bool" where
  "refines base blks s p \<longleftrightarrow>
     p_cam p = cam_pc (s_cam s) \<and> p_usb p = usb_pc (s_usb s) \<and> p_main p = s_main s \<and>
     p_running p = s_running s \<and> p_shutdown p = g_shutdown_requested (s_fq s) \<and> p_seq p = s_seq s \<and>
     p_packed p = h_packed s \<and> p_sent p = h_sent s \<and> 0 \<le> usb_fd (s_tp s) \<and>
     (s_main s \<in> {MSequential, MDone} \<longrightarrow> freed base blks (s_fq s)) \<and>
     (s_main s \<notin> {MSequential, MDone} \<longrightarrow>
        queues_rep base blks (s_fq s) (p_empty p) (p_action p) \<and>
        (\<forall>b \<in> set (pool base). p_pkt p b = buffer_bytes (s_fq s) b))"

subsection \<open>Queue operations on the represented state\<close>

lemma buffer_bytes_payload:
  "buffer_bytes q b =
     (case payload (fq_heap q) b of
        Some (Some a, len, used, i) \<Rightarrow> (case fq_blocks q a of Some bs \<Rightarrow> take (unat used) bs | None \<Rightarrow> [])
      | _ \<Rightarrow> [])"
proof (cases "fq_heap q b")
  case (Some fb)
  then show ?thesis
    by (cases "fb_data fb") (simp_all add: buffer_bytes_def payload_def buffer_block_def split: option.split)
qed (simp add: buffer_bytes_def payload_def)

lemma buffer_bytes_cong:
  "payload (fq_heap q') b = payload (fq_heap q) b \<Longrightarrow> fq_blocks q' = fq_blocks q \<Longrightarrow>
     buffer_bytes q' b = buffer_bytes q b"
  by (simp only: buffer_bytes_payload)

lemma pool_buffer_payload:
  "pool_buffer q b \<longleftrightarrow>
     (\<exists>a len used i bs. payload (fq_heap q) b = Some (Some a, len, used, i) \<and> fq_blocks q a = Some bs \<and>
        length bs = MJPEG_MAX_PACKET_SIZE \<and> unat len = MJPEG_MAX_PACKET_SIZE \<and>
        unat used \<le> MJPEG_MAX_PACKET_SIZE)"
  by (auto simp: pool_buffer_def payload_def)

lemma pool_owns_payload:
  "pool_owns q base blks \<longleftrightarrow> g_buffer_pool q = Some base \<and> g_buffer_pool_size q = int (length blks) \<and>
     distinct blks \<and> (\<forall>i < length blks. (\<exists>len used j.
       payload (fq_heap q) (base + i) = Some (Some (blks ! i), len, used, j)) \<and> fq_blocks q (blks ! i) \<noteq> None)"
  by (auto simp: pool_owns_def holds_def payload_def)

lemma rep_live: "queues_rep base blks q es as \<Longrightarrow> b \<in> set (pool base) \<Longrightarrow> payload (fq_heap q) b \<noteq> None"
  by (auto simp: queues_rep_def pool_buffer_def)

lemma queues_rep_relinked:
  assumes "queues_rep base blks q es as" "payload h = payload (fq_heap q)"
    and "is_queue h e es'" "is_queue h a as'"
  shows "queues_rep base blks (q\<lparr>fq_heap := h, g_empty_queue := e, g_action_queue := a\<rparr>) es' as'"
    and "buffer_bytes (q\<lparr>fq_heap := h, g_empty_queue := e, g_action_queue := a\<rparr>) b = buffer_bytes q b"
proof -
  let ?q = "q\<lparr>fq_heap := h, g_empty_queue := e, g_action_queue := a\<rparr>"
  have "pool_owns ?q base blks = pool_owns q base blks" "pool_buffer ?q c = pool_buffer q c" for c
    by (simp_all add: pool_owns_payload pool_buffer_payload assms(2))
  with assms show "queues_rep base blks ?q es' as'"
    by (simp add: queues_rep_def)
  show "buffer_bytes ?q b = buffer_bytes q b"
    by (rule buffer_bytes_cong) (simp_all add: assms(2))
qed

lemma rep_push_empty:
  assumes "queues_rep base blks q es as" "b \<in> set (pool base)" "b \<notin> set es" "b \<notin> set as"
    and "set es \<inter> set as = {}"
  shows "\<exists>h e. frame_queue_push (fq_heap q) (g_empty_queue q) (Some b) = Some (h, e) \<and>
    queues_rep base blks (q\<lparr>fq_heap := h, g_empty_queue := e\<rparr>) (es @ [b]) as \<and>
    (\<forall>c. buffer_bytes (q\<lparr>fq_heap := h, g_empty_queue := e\<rparr>) c = buffer_bytes q c)"
proof -
  have q: "is_queue (fq_heap q) (g_empty_queue q) es" "is_queue (fq_heap q) (g_action_queue q) as"
    "payload (fq_heap q) b \<noteq> None"
    using assms(1) rep_live [OF assms(1,2)] by (auto simp: queues_rep_def)
  from fq.push_beside [OF q(1,2) assms(5) q(3) assms(3,4)] obtain h e where
    r: "frame_queue_push (fq_heap q) (g_empty_queue q) (Some b) = Some (h, e)" "is_queue h e (es @ [b])"
      "is_queue h (g_action_queue q) as" "payload h = payload (fq_heap q)"
    by blast
  from queues_rep_relinked [OF assms(1) r(4,2,3)] r(1) show ?thesis
    by simp
qed

lemma rep_push_action:
  assumes "queues_rep base blks q es as" "b \<in> set (pool base)" "b \<notin> set es" "b \<notin> set as"
    and "set es \<inter> set as = {}"
  shows "\<exists>h a. frame_queue_push (fq_heap q) (g_action_queue q) (Some b) = Some (h, a) \<and>
    queues_rep base blks (q\<lparr>fq_heap := h, g_action_queue := a\<rparr>) es (as @ [b]) \<and>
    (\<forall>c. buffer_bytes (q\<lparr>fq_heap := h, g_action_queue := a\<rparr>) c = buffer_bytes q c)"
proof -
  have q: "is_queue (fq_heap q) (g_empty_queue q) es" "is_queue (fq_heap q) (g_action_queue q) as"
    "payload (fq_heap q) b \<noteq> None"
    using assms(1) rep_live [OF assms(1,2)] by (auto simp: queues_rep_def)
  have "set as \<inter> set es = {}"
    using assms(5) by blast
  from fq.push_beside [OF q(2,1) this q(3) assms(4,3)] obtain h a where
    r: "frame_queue_push (fq_heap q) (g_action_queue q) (Some b) = Some (h, a)" "is_queue h a (as @ [b])"
      "is_queue h (g_empty_queue q) es" "payload h = payload (fq_heap q)"
    by blast
  from queues_rep_relinked [OF assms(1) r(4,3,2)] r(1) show ?thesis
    by simp
qed

lemma rep_pull_empty:
  assumes "queues_rep base blks q (b # es) as" "b \<notin> set as"
  shows "\<exists>h e. frame_queue_pull (fq_heap q) (g_empty_queue q) = Some (h, e, Some b) \<and>
    queues_rep base blks (q\<lparr>fq_heap := h, g_empty_queue := e\<rparr>) es as \<and>
    (\<forall>c. buffer_bytes (q\<lparr>fq_heap := h, g_empty_queue := e\<rparr>) c = buffer_bytes q c)"
proof -
  have q: "is_queue (fq_heap q) (g_empty_queue q) (b # es)" "is_queue (fq_heap q) (g_action_queue q) as"
    using assms(1) by (auto simp: queues_rep_def)
  from fq.pull_beside [OF q assms(2)] obtain h e where
    r: "frame_queue_pull (fq_heap q) (g_empty_queue q) = Some (h, e, Some b)" "is_queue h e es"
      "is_queue h (g_action_queue q) as" "payload h = payload (fq_heap q)"
    by blast
  from queues_rep_relinked [OF assms(1) r(4,2,3)] r(1) show ?thesis
    by simp
qed

lemma rep_pull_action:
  assumes "queues_rep base blks q es (b # as)" "b \<notin> set es"
  shows "\<exists>h a. frame_queue_pull (fq_heap q) (g_action_queue q) = Some (h, a, Some b) \<and>
    queues_rep base blks (q\<lparr>fq_heap := h, g_action_queue := a\<rparr>) es as \<and>
    (\<forall>c. buffer_bytes (q\<lparr>fq_heap := h, g_action_queue := a\<rparr>) c = buffer_bytes q c)"
proof -
  have q: "is_queue (fq_heap q) (g_action_queue q) (b # as)" "is_queue (fq_heap q) (g_empty_queue q) es"
    using assms(1) by (auto simp: queues_rep_def)
  from fq.pull_beside [OF q assms(2)] obtain h a where
    r: "frame_queue_pull (fq_heap q) (g_action_queue q) = Some (h, a, Some b)" "is_queue h a as"
      "is_queue h (g_empty_queue q) es" "payload h = payload (fq_heap q)"
    by blast
  from queues_rep_relinked [OF assms(1) r(4,3,2)] r(1) show ?thesis
    by simp
qed

lemma rep_empty:
  "queues_rep base blks q es as \<Longrightarrow> frame_queue_is_empty (g_empty_queue q) \<longleftrightarrow> es = []"
  "queues_rep base blks q es as \<Longrightarrow> frame_queue_is_empty (g_action_queue q) \<longleftrightarrow> as = []"
  by (auto simp: queues_rep_def fq.is_empty_rep)

lemma rep_depth:
  "queues_rep base blks q es as \<Longrightarrow> frame_queue_depth (fq_heap q) (g_empty_queue q) = Some (int (length es))"
  "queues_rep base blks q es as \<Longrightarrow> frame_queue_depth (fq_heap q) (g_action_queue q) = Some (int (length as))"
  by (auto simp: queues_rep_def fq.depth_rep)

text \<open>Filling a buffer that neither queue holds.\<close>

lemma rep_fill:
  assumes "queues_rep base blks q es as" "b \<in> set (pool base)" "b \<notin> set es" "b \<notin> set as"
    and "fq_heap q b = Some fb" "length bs = MJPEG_MAX_PACKET_SIZE" "unat used \<le> MJPEG_MAX_PACKET_SIZE"
  defines "q' \<equiv> q\<lparr>fq_heap := (fq_heap q)(b \<mapsto> fb\<lparr>fb_used := used\<rparr>),
      fq_blocks := (fq_blocks q)(the (fb_data fb) \<mapsto> bs)\<rparr>"
  shows "queues_rep base blks q' es as \<and> buffer_bytes q' b = take (unat used) bs \<and>
    (\<forall>c \<in> set (pool base). c \<noteq> b \<longrightarrow> buffer_bytes q' c = buffer_bytes q c)"
proof -
  note rep = assms(1) [unfolded queues_rep_def]
  from assms(2) obtain i where i: "i < 3" "b = base + i"
    by (metis add_diff_inverse_nat atLeastLessThan_iff le_add_diff_inverse less_diff_conv2 nat_add_left_cancel_less set_upt)
  from rep have owns: "pool_owns q base blks" and len: "length blks = 3"
    by simp_all
  have data: "\<exists>g. fq_heap q (base + j) = Some g \<and> fb_data g = Some (blks ! j)" "fq_blocks q (blks ! j) \<noteq> None"
    if "j < 3" for j
    using owns len that by (auto simp: pool_owns_def holds_def)
  have fb: "fb_data fb = Some (blks ! i)"
    using data(1) [OF i(1)] assms(5) i(2) by simp
  have other: "blks ! j \<noteq> blks ! i" if "j < 3" "j \<noteq> i" for j
    using owns len i(1) that by (auto simp: pool_owns_def nth_eq_iff_index_eq)
  have q': "fq_heap q' = (fq_heap q)(b \<mapsto> fb\<lparr>fb_used := used\<rparr>)" "fq_blocks q' = (fq_blocks q)(blks ! i \<mapsto> bs)"
    "g_empty_queue q' = g_empty_queue q" "g_action_queue q' = g_action_queue q" "g_buffer_pool q' = g_buffer_pool q"
    "g_buffer_pool_size q' = g_buffer_pool_size q" "g_queue_mutex_ready q' = g_queue_mutex_ready q"
    "g_queue_cond_ready q' = g_queue_cond_ready q"
    by (simp_all add: q'_def fb)
  have "is_queue (fq_heap q') (g_empty_queue q') es" "is_queue (fq_heap q') (g_action_queue q') as"
    using rep assms(3,4) by (simp_all add: is_queue_def q' qseg_update_other)
  moreover have "pool_owns q' base blks"
    using owns fb i(2) unfolding pool_owns_def holds_def q' by auto
  moreover have same: "pool_buffer q' c \<and> buffer_bytes q' c = buffer_bytes q c"
    if c: "c \<in> set (pool base)" "c \<noteq> b" for c
  proof -
    from c(1) obtain j where j: "j < 3" "c = base + j"
      by (metis add_diff_inverse_nat atLeastLessThan_iff le_add_diff_inverse less_diff_conv2 nat_add_left_cancel_less set_upt)
    with c(2) i(2) have "j \<noteq> i"
      by blast
    with data(1) [OF j(1)] j other obtain g where g: "fq_heap q c = Some g" "fb_data g = Some (blks ! j)"
      "fq_heap q' c = Some g" "fq_blocks q' (blks ! j) = fq_blocks q (blks ! j)"
      using c(2) by (auto simp: q')
    have "pool_buffer q c"
      using rep c(1) by blast
    with g show ?thesis
      by (auto simp: pool_buffer_def buffer_bytes_def buffer_block_def)
  qed
  moreover have own: "pool_buffer q' b" "buffer_bytes q' b = take (unat used) bs"
  proof -
    have "pool_buffer q b"
      using rep assms(2) by blast
    then have "unat (fb_length fb) = MJPEG_MAX_PACKET_SIZE"
      using assms(5) by (auto simp: pool_buffer_def)
    with fb assms(6,7) show "pool_buffer q' b" "buffer_bytes q' b = take (unat used) bs"
      by (simp_all add: pool_buffer_def buffer_bytes_def buffer_block_def q')
  qed
  ultimately show ?thesis
    using rep unfolding queues_rep_def q'(7,8) by metis
qed

subsection \<open>Waking and critical sections\<close>

named_theorems sim_simps \<open>what the helper functions of the threads do to the fields the relation reads\<close>

lemma goto_fields [sim_simps]:
  "s_fq (cam_goto pc s) = s_fq s" "s_usb (cam_goto pc s) = s_usb s" "s_main (cam_goto pc s) = s_main s"
  "s_running (cam_goto pc s) = s_running s" "s_seq (cam_goto pc s) = s_seq s" "s_tp (cam_goto pc s) = s_tp s"
  "h_packed (cam_goto pc s) = h_packed s" "h_sent (cam_goto pc s) = h_sent s"
  "cam_pc (s_cam (cam_goto pc s)) = pc" "ct_frame (s_cam (cam_goto pc s)) = ct_frame (s_cam s)"
  "s_fq (usb_goto upc s) = s_fq s" "s_cam (usb_goto upc s) = s_cam s" "s_main (usb_goto upc s) = s_main s"
  "s_running (usb_goto upc s) = s_running s" "s_seq (usb_goto upc s) = s_seq s" "s_tp (usb_goto upc s) = s_tp s"
  "h_packed (usb_goto upc s) = h_packed s" "h_sent (usb_goto upc s) = h_sent s"
  "usb_pc (s_usb (usb_goto upc s)) = upc"
  by (simp_all add: cam_goto_def usb_goto_def)

lemma refines_wake:
  assumes "refines base blks s p"
  shows "refines base blks (wake_cam_thread s) (wake_cam p)"
    and "refines base blks (wake_usb_thread s) (wake_usb p)"
  using assms by (simp_all add: refines_def wake_cam_thread_def wake_usb_thread_def wake_simps)

lemma refines_broadcast: "refines base blks s p \<Longrightarrow> refines base blks (cond_broadcast s) (broadcast p)"
  by (simp add: cond_broadcast_def broadcast_def refines_wake)

lemma refines_signal:
  assumes "refines base blks s p"
  shows "\<exists>p'. signalled p p' \<and> refines base blks (cond_signal first s) p'"
proof -
  have pcs: "p_cam p = cam_pc (s_cam s)" "p_usb p = usb_pc (s_usb s)"
    using assms by (simp_all add: refines_def)
  show ?thesis
    using refines_wake [OF assms] refines_wake(1) [OF refines_wake(2) [OF assms]] pcs
    unfolding cond_signal_def signalled_def by (cases first) auto
qed

lemma refines_rep:
  assumes "refines base blks s p" "p_main p \<notin> {MSequential, MDone}"
  shows "queues_rep base blks (s_fq s) (p_empty p) (p_action p)"
    and "b \<in> set (pool base) \<Longrightarrow> p_pkt p b = buffer_bytes (s_fq s) b"
  using assms by (simp_all add: refines_def)

lemma queues_rep_shutdown:
  "queues_rep base blks (q\<lparr>g_shutdown_requested := x\<rparr>) es as = queues_rep base blks q es as"
  "buffer_bytes (q\<lparr>g_shutdown_requested := x\<rparr>) b = buffer_bytes q b"
  "freed base blks (q\<lparr>g_shutdown_requested := x\<rparr>) = freed base blks q"
  by (simp add: queues_rep_def pool_owns_def holds_def pool_buffer_def, rule buffer_bytes_cong, simp_all add: freed_def)

lemma refines_shutdown:
  assumes "refines base blks s p" "q = p\<lparr>p_shutdown := True\<rparr>"
  shows "refines base blks (request_shutdown s) (broadcast q)"
  unfolding request_shutdown_def assms(2)
  by (rule refines_broadcast) (use assms(1) in \<open>simp add: refines_def queues_rep_shutdown\<close>)

lemma critical_working:
  assumes "refines base blks s p" "p_main p \<notin> {MSequential, MDone}"
  shows "critical s r = r"
  using refines_rep(1) [OF assms] by (simp add: critical_def queues_rep_def)

text \<open>A simulated step: it blocks, or it goes on and the pipeline can follow it.\<close>

definition simulated :: "nat \<Rightarrow> nat list \<Rightarrow> (pipe \<Rightarrow> bool) \<Rightarrow> sys outcome \<Rightarrow> bool" where
  "simulated base blks step r \<longleftrightarrow>
     (case r of Blocked \<Rightarrow> True | Fault \<Rightarrow> False
      | Next s' \<Rightarrow> \<exists>p'. step p' \<and> refines base blks s' p')"

lemma simulated_simps [simp]:
  "simulated base blks step Blocked" "\<not> simulated base blks step Fault"
  "simulated base blks step (Next s') \<longleftrightarrow> (\<exists>p'. step p' \<and> refines base blks s' p')"
  by (simp_all add: simulated_def)

lemma simulatedI: "step p' \<Longrightarrow> refines base blks s' p' \<Longrightarrow> simulated base blks step (Next s')"
  by auto

lemma cam_simI: "cam_step p p' \<Longrightarrow> refines base blks s' p' \<Longrightarrow> simulated base blks (cam_step p) (Next s')"
  and usb_simI: "usb_step p p' \<Longrightarrow> refines base blks s' p' \<Longrightarrow> simulated base blks (usb_step p) (Next s')"
  and main_simI: "main_step p p' \<Longrightarrow> refines base blks s' p' \<Longrightarrow> simulated base blks (main_step p) (Next s')"
  by auto

subsection \<open>The camera thread\<close>

lemma owned_holder:
  assumes "owned bs p" "b \<in> set (cam_holds (p_cam p)) \<or> b \<in> set (usb_holds (p_usb p))"
  shows "p_main p \<notin> {MSequential, MDone}"
proof (rule owned_working [OF assms(1)])
  show "cam_holds (p_cam p) \<noteq> [] \<or> usb_holds (p_usb p) \<noteq> []"
    using assms(2) by (metis empty_iff list.set(1))
qed

lemma pool_member:
  assumes "pipe_inv (pool base) seq p"
  shows "b \<in> set (cam_holds (p_cam p)) \<or> b \<in> set (usb_holds (p_usb p)) \<Longrightarrow>
      b \<in> set (pool base) \<and> b \<notin> set (p_empty p) \<and> b \<notin> set (p_action p)"
    and "p_main p \<notin> {MSequential, MDone} \<Longrightarrow> set (p_empty p) \<inter> set (p_action p) = {} \<and>
      distinct (p_empty p) \<and> distinct (p_action p)"
proof -
  have o: "owned (pool base) p"
    using assms by (simp add: pipe_inv_def)
  show "b \<in> set (pool base) \<and> b \<notin> set (p_empty p) \<and> b \<notin> set (p_action p)"
    if "b \<in> set (cam_holds (p_cam p)) \<or> b \<in> set (usb_holds (p_usb p))"
  proof -
    have m: "p_main p \<notin> {MSequential, MDone}"
      by (rule owned_holder [OF o that])
    show ?thesis
      using owned_distinct [OF o distinct_upt m] that by auto
  qed
  show "set (p_empty p) \<inter> set (p_action p) = {} \<and> distinct (p_empty p) \<and> distinct (p_action p)"
    if m: "p_main p \<notin> {MSequential, MDone}"
    using owned_distinct(1) [OF o distinct_upt m] by auto
qed

lemma push_empty_sim:
  assumes "refines base blks s p" "pipe_inv (pool base) seq p"
    and "b \<in> set (cam_holds (p_cam p)) \<or> b \<in> set (usb_holds (p_usb p))"
  shows "\<exists>s'. push_empty b s = Next s' \<and> refines base blks s' (p\<lparr>p_empty := p_empty p @ [b]\<rparr>)"
proof -
  have m: "p_main p \<notin> {MSequential, MDone}"
    using owned_holder [of "pool base" p b] assms(2,3) by (auto simp: pipe_inv_def)
  note b = pool_member(1) [OF assms(2,3)]
  from rep_push_empty [OF refines_rep(1) [OF assms(1) m], of b] b pool_member(2) [OF assms(2) m]
  obtain h e where r: "frame_queue_push (fq_heap (s_fq s)) (g_empty_queue (s_fq s)) (Some b) = Some (h, e)"
    "queues_rep base blks ((s_fq s)\<lparr>fq_heap := h, g_empty_queue := e\<rparr>) (p_empty p @ [b]) (p_action p)"
    "\<forall>c. buffer_bytes ((s_fq s)\<lparr>fq_heap := h, g_empty_queue := e\<rparr>) c = buffer_bytes (s_fq s) c"
    by auto
  with assms(1) m show ?thesis
    by (simp add: push_empty_def refines_def)
qed

lemma push_action_sim:
  assumes "refines base blks s p" "pipe_inv (pool base) seq p" "b \<in> set (cam_holds (p_cam p))"
  shows "\<exists>s'. push_action b s = Next s' \<and> refines base blks s' (p\<lparr>p_action := p_action p @ [b]\<rparr>)"
proof -
  have m: "p_main p \<notin> {MSequential, MDone}"
    using owned_holder [of "pool base" p b] assms(2,3) by (auto simp: pipe_inv_def)
  have b: "b \<in> set (pool base) \<and> b \<notin> set (p_empty p) \<and> b \<notin> set (p_action p)"
    using pool_member(1) [OF assms(2)] assms(3) by blast
  from rep_push_action [OF refines_rep(1) [OF assms(1) m], of b] b pool_member(2) [OF assms(2) m]
  obtain h a where r: "frame_queue_push (fq_heap (s_fq s)) (g_action_queue (s_fq s)) (Some b) = Some (h, a)"
    "queues_rep base blks ((s_fq s)\<lparr>fq_heap := h, g_action_queue := a\<rparr>) (p_empty p) (p_action p @ [b])"
    "\<forall>c. buffer_bytes ((s_fq s)\<lparr>fq_heap := h, g_action_queue := a\<rparr>) c = buffer_bytes (s_fq s) c"
    by auto
  with assms(1) m show ?thesis
    by (simp add: push_action_def refines_def)
qed

lemma cam_acquire_sim:
  assumes "refines base blks s p" "pipe_inv (pool base) seq p" "p_cam p = CLock"
  shows "simulated base blks (cam_step p) (cam_acquire s)"
proof -
  have m: "p_main p \<notin> {MSequential, MDone}"
    using assms(2,3) by (auto simp: pipe_inv_def owned_def)
  note rep = refines_rep(1) [OF assms(1) m]
  note crit = critical_working [OF assms(1) m]
  have sd: "g_shutdown_requested (s_fq s) = p_shutdown p"
    using assms(1) by (simp add: refines_def)
  have rel: "refines base blks (cam_goto pc s) (p\<lparr>p_cam := pc\<rparr>)" for pc
    using assms(1) by (simp add: refines_def sim_simps)
  show ?thesis
  proof (cases "p_shutdown p")
    case True
    with rel cam_quit [OF assms(3)] show ?thesis
      by (simp add: cam_acquire_def crit sd) blast
  next
    case False
    show ?thesis
    proof (cases "p_empty p")
      case Nil
      with False rel cam_wait [OF assms(3)] rep_empty(1) [OF rep] show ?thesis
        by (simp add: cam_acquire_def crit sd) blast
    next
      case (Cons b es)
      with pool_member(2) [OF assms(2) m] have "b \<notin> set (p_action p)"
        by auto
      from rep_pull_empty [OF rep [unfolded Cons] this] obtain h e where
        r: "frame_queue_pull (fq_heap (s_fq s)) (g_empty_queue (s_fq s)) = Some (h, e, Some b)"
          "queues_rep base blks ((s_fq s)\<lparr>fq_heap := h, g_empty_queue := e\<rparr>) es (p_action p)"
          "\<forall>c. buffer_bytes ((s_fq s)\<lparr>fq_heap := h, g_empty_queue := e\<rparr>) c = buffer_bytes (s_fq s) c"
        by blast
      have "refines base blks (cam_goto (CHave b) (s\<lparr>s_fq := (s_fq s)\<lparr>fq_heap := h, g_empty_queue := e\<rparr>\<rparr>))
          (p\<lparr>p_empty := es, p_cam := CHave b\<rparr>)"
        using assms(1) r(2,3) m by (simp add: refines_def sim_simps)
      with cam_pull [OF assms(3) Cons False] False Cons rep_empty(1) [OF rep] r(1) show ?thesis
        by (simp add: cam_acquire_def crit sd) blast
    qed
  qed
qed

lemma cam_capture_sim:
  assumes "refines base blks s p" "p_cam p = CHave b"
  shows "simulated base blks (cam_step p) (cam_capture_frame inp b s)"
proof -
  obtain ret frame mgr tr where get: "camera_get_frame (ci_frame inp) (Some (ct_frame (s_cam s))) (s_mgr s)
      = (ret, frame, mgr, tr)"
    by (cases "camera_get_frame (ci_frame inp) (Some (ct_frame (s_cam s))) (s_mgr s)")
  have steps: "cam_step p (p\<lparr>p_cam := CPack b\<rparr>)" "cam_step p (p\<lparr>p_cam := CReturn b\<rparr>)"
    "cam_step p (p\<lparr>p_cam := CFatal b\<rparr>)"
    using assms(2) by (auto intro: cam_capture cam_retry cam_give_up)
  have rel: "refines base blks s' (p\<lparr>p_cam := pc\<rparr>)"
    if "s_fq s' = s_fq s" "s_usb s' = s_usb s" "s_main s' = s_main s" "s_running s' = s_running s"
      "s_seq s' = s_seq s" "s_tp s' = s_tp s" "h_packed s' = h_packed s" "h_sent s' = h_sent s"
      "cam_pc (s_cam s') = pc" for s' pc
    using assms(1) that by (simp add: refines_def)
  have next_sim: "simulated base blks (cam_step p) (Next s')"
    if "s_fq s' = s_fq s" "s_usb s' = s_usb s" "s_main s' = s_main s" "s_running s' = s_running s"
      "s_seq s' = s_seq s" "s_tp s' = s_tp s" "h_packed s' = h_packed s" "h_sent s' = h_sent s"
      "cam_pc (s_cam s') \<in> {CPack b, CReturn b, CFatal b}" for s'
    using rel [OF that(1-8) refl] steps that(9) by (intro simulatedI [of _ "p\<lparr>p_cam := cam_pc (s_cam s')\<rparr>"]) auto
  show ?thesis
    unfolding cam_capture_frame_def get prod.case Let_def
    by (simp only: split: if_split, intro conjI impI; rule next_sim)
      (simp_all add: sim_simps cam_count_error_def)
qed

lemma cam_pack_sim:
  assumes "refines base blks s p" "pipe_inv (pool base) seq p" "p_cam p = CPack b"
    and "unat (frm_size (ct_frame (s_cam s))) \<le> length (ci_mem inp)"
  shows "simulated base blks (cam_step p) (cam_pack_frame inp b s)"
proof -
  let ?f = "ct_frame (s_cam s)"
  have m: "p_main p \<notin> {MSequential, MDone}"
    using assms(2,3) by (intro owned_working [of "pool base"]) (simp_all add: pipe_inv_def)
  note rep = refines_rep(1) [OF assms(1) m]
  have b: "b \<in> set (pool base)" "b \<notin> set (p_empty p)" "b \<notin> set (p_action p)"
    using pool_member(1) [OF assms(2), of b] assms(3) by auto
  from rep b(1) have "pool_buffer (s_fq s) b"
    by (simp add: queues_rep_def)
  then obtain fb a bs where fb: "fq_heap (s_fq s) b = Some fb" "fb_data fb = Some a"
    "fq_blocks (s_fq s) a = Some bs" "length bs = MJPEG_MAX_PACKET_SIZE" "unat (fb_length fb) = MJPEG_MAX_PACKET_SIZE"
    unfolding pool_buffer_def by blast
  have blk: "buffer_block (s_fq s) fb = Some (Some bs)"
    using fb by (simp add: buffer_block_def)
  have reject: "simulated base blks (cam_step p) (Next (cam_goto (CReturn b) (cam_count_invalid s)))"
    using assms(1) by (intro cam_simI [OF cam_reject [OF assms(3)]])
      (simp add: refines_def sim_simps cam_count_invalid_def)
  have unfold_pack: "cam_pack_frame inp b s =
      (case mjpeg_pack_frame (if frm_buf ?f = 0 then None else Some (ci_mem inp)) (frm_size ?f)
          (Some (s_seq s)) (Some bs) MJPEG_MAX_PACKET_SIZE of
         Inl e \<Rightarrow> Next (cam_goto (CReturn b) (cam_count_invalid s))
       | Inr (packet_size, seq', pkt') \<Rightarrow>
           Next (cam_goto (CPush b)
             (s\<lparr>s_seq := seq',
                s_fq := (s_fq s)\<lparr>fq_heap := (fq_heap (s_fq s))(b \<mapsto> fb\<lparr>fb_used := of_nat packet_size\<rparr>),
                  fq_blocks := (fq_blocks (s_fq s))(the (fb_data fb) \<mapsto> pkt')\<rparr>,
                s_cam := (s_cam s)\<lparr>ct_consecutive_jpeg_errors := 0,
                  ct_total_jpeg_bytes := ct_total_jpeg_bytes (s_cam s) + ucast (frm_size ?f)\<rparr>,
                s_metrics := (s_metrics s)\<lparr>g_total_camera_frames :=
                  g_total_camera_frames (s_metrics s) + 1\<rparr>\<rparr>)))"
    unfolding cam_pack_frame_def Let_def fb(1,5) option.case blk by (rule refl)
  show ?thesis
  proof (cases "mjpeg_pack_frame (if frm_buf ?f = 0 then None else Some (ci_mem inp)) (frm_size ?f)
      (Some (s_seq s)) (Some bs) MJPEG_MAX_PACKET_SIZE")
    case (Inl e)
    with reject show ?thesis
      by (simp only: unfold_pack sum.case)
  next
    case (Inr r)
    obtain tot seq' pkt' where r: "r = (tot, seq', pkt')"
      by (cases r)
    have buf: "frm_buf ?f \<noteq> 0"
      using Inr by (auto simp: mjpeg_pack_frame_def split: if_splits)
    with Inr r have "mjpeg_pack_frame (Some (ci_mem inp)) (frm_size ?f) (Some (s_seq s)) (Some bs)
        MJPEG_MAX_PACKET_SIZE = Inr (tot, seq', pkt')"
      by simp
    from pack_frame_frame [OF fb(4) assms(4) this] obtain jpeg where
      k: "tot \<le> MJPEG_MAX_PACKET_SIZE" "seq' = s_seq s + 1" "length pkt' = MJPEG_MAX_PACKET_SIZE"
        "take tot pkt' = frame_enc (s_seq s, jpeg)" "frame_valid (s_seq s, jpeg)"
      by blast
    have tot: "unat (of_nat tot :: u32) = tot"
      using k(1) by (intro unat_of_nat_u32) (simp add: mjpeg_consts)
    let ?q = "(s_fq s)\<lparr>fq_heap := (fq_heap (s_fq s))(b \<mapsto> fb\<lparr>fb_used := of_nat tot\<rparr>),
        fq_blocks := (fq_blocks (s_fq s))(the (fb_data fb) \<mapsto> pkt')\<rparr>"
    have fill: "queues_rep base blks ?q (p_empty p) (p_action p)"
      "buffer_bytes ?q b = frame_enc (s_seq s, jpeg)"
      "\<forall>c \<in> set (pool base). c \<noteq> b \<longrightarrow> buffer_bytes ?q c = buffer_bytes (s_fq s) c"
      using rep_fill [OF rep b fb(1) k(3), of "of_nat tot"] k(1,4) tot by simp_all
    have seq: "p_seq p = s_seq s" "p_shutdown p = g_shutdown_requested (s_fq s)"
      using assms(1) by (simp_all add: refines_def)
    have step: "cam_step p (p\<lparr>p_cam := CPush b, p_pkt := (p_pkt p)(b := frame_enc (s_seq s, jpeg)),
        p_seq := s_seq s + 1\<rparr>)"
      using cam_pack [OF assms(3), of jpeg] k(5) by (simp add: seq)
    have pkts: "\<forall>c \<in> set (pool base). ((p_pkt p)(b := frame_enc (s_seq s, jpeg))) c = buffer_bytes ?q c"
      using refines_rep(2) [OF assms(1) m] fill(2,3) by simp
    show ?thesis
      unfolding unfold_pack Inr r sum.case prod.case k(2)
      by (rule cam_simI [OF step])
        (use assms(1) fill(1) pkts m in \<open>simp add: refines_def sim_simps\<close>)
  qed
qed

lemma cam_push_sim:
  assumes "refines base blks s p" "pipe_inv (pool base) seq p" "p_cam p = CPush b"
  shows "simulated base blks (cam_step p) (cam_push_filled inp b s)"
proof -
  have b: "b \<in> set (cam_holds (p_cam p))"
    using assms(3) by simp
  have m: "p_main p \<notin> {MSequential, MDone}"
    using assms(2,3) by (intro owned_working [of "pool base"]) (simp_all add: pipe_inv_def)
  let ?s = "s\<lparr>h_packed := h_packed s @ [buffer_bytes (s_fq s) b]\<rparr>"
  let ?p = "p\<lparr>p_packed := p_packed p @ [p_pkt p b]\<rparr>"
  have pkt: "p_pkt p b = buffer_bytes (s_fq s) b"
    using refines_rep(2) [OF assms(1) m] pool_member(1) [OF assms(2)] b by blast
  have "\<exists>s1. push_action b ?s = Next s1 \<and> refines base blks s1 (?p\<lparr>p_action := p_action p @ [b]\<rparr>)"
  proof -
    from push_action_sim [OF assms(1,2) b] obtain s1 where
      s1: "push_action b s = Next s1" "refines base blks s1 (p\<lparr>p_action := p_action p @ [b]\<rparr>)"
      by blast
    have "push_action b ?s = Next (s1\<lparr>h_packed := h_packed ?s\<rparr>)"
      using s1(1) by (auto simp: push_action_def split: option.splits)
    with s1(2) assms(1) show ?thesis
      by (simp add: refines_def pkt)
  qed
  then obtain s1 where s1: "push_action b ?s = Next s1" "refines base blks s1 (?p\<lparr>p_action := p_action p @ [b]\<rparr>)"
    by blast
  then have "refines base blks (cam_goto CMetrics s1) (?p\<lparr>p_action := p_action p @ [b], p_cam := CMetrics\<rparr>)"
    by (simp add: refines_def sim_simps)
  from refines_signal [OF this, of "ci_first_cam inp"] obtain p' where
    p': "signalled (?p\<lparr>p_action := p_action p @ [b], p_cam := CMetrics\<rparr>) p'"
      "refines base blks (cond_signal (ci_first_cam inp) (cam_goto CMetrics s1)) p'"
    by blast
  have eq: "p\<lparr>p_action := p_action p @ [b], p_packed := p_packed p @ [p_pkt p b], p_cam := CMetrics\<rparr>
      = ?p\<lparr>p_action := p_action p @ [b], p_cam := CMetrics\<rparr>"
    by simp
  have step: "cam_step p p'"
    by (rule cam_push [OF assms(3)]) (simp only: eq p'(1))
  let ?s2 = "cond_signal (ci_first_cam inp) (cam_goto CMetrics s1)"
  let ?s3 = "?s2\<lparr>s_cam := (s_cam ?s2)\<lparr>ct_frame_count := ct_frame_count (s_cam ?s2) + 1\<rparr>\<rparr>"
  have r3: "refines base blks ?s3 p'"
    using p'(2) by (simp add: refines_def)
  have "p_main p' = p_main p"
    by (rule cam_step_main [OF step])
  with m have m': "p_main p' \<notin> {MSequential, MDone}"
    by simp
  have "cam_stats ?s3 = Next ?s3"
    using rep_depth [OF refines_rep(1) [OF r3 m']] by (simp add: cam_stats_def)
  with s1(1) have "cam_push_filled inp b s = Next ?s3"
    by (simp add: cam_push_filled_def critical_working [OF assms(1) m] Let_def)
  with step r3 show ?thesis
    by auto
qed

lemma cam_send_metrics_sim:
  assumes "refines base blks s p" "pipe_inv (pool base) seq p" "p_cam p = CMetrics"
  shows "simulated base blks (cam_step p) (cam_send_metrics inp s)"
proof -
  have m: "p_main p \<notin> {MSequential, MDone}"
    using assms(2,3) by (auto simp: pipe_inv_def owned_def)
  have d: "frame_queue_depth (fq_heap (s_fq s)) (g_action_queue (s_fq s)) = Some (int (length (p_action p)))"
    by (rule rep_depth(2) [OF refines_rep(1) [OF assms(1) m]])
  have next_sim: "simulated base blks (cam_step p) (Next (cam_goto CLoop s'))"
    if "s_fq s' = s_fq s" "s_usb s' = s_usb s" "s_main s' = s_main s" "s_running s' = s_running s"
      "s_seq s' = s_seq s" "s_tp s' = s_tp s" "h_packed s' = h_packed s" "h_sent s' = h_sent s" for s'
    using assms(1) that by (intro cam_simI [OF cam_metrics [OF assms(3)]]) (simp add: refines_def sim_simps)
  have "\<exists>r. send_metrics_packet now wr fd (s_fq s) ms = Some r" for now wr fd ms
    unfolding send_metrics_packet_def d option.case by (auto simp: Let_def split: sum.split write_result.split)
  then obtain ret mt tr where "send_metrics_packet (ci_uptime inp) (ci_write inp) (ctx_usb_fd (s_ctx s)) (s_fq s)
      (s_metrics s) = Some (ret, mt, tr)"
    by (metis prod_cases3)
  then show ?thesis
    using next_sim [of s] next_sim by (simp add: cam_send_metrics_def)
qed

lemma camera_thread_sim:
  assumes "refines base blks s p" "pipe_inv (pool base) seq p"
    and "unat (frm_size (ct_frame (s_cam s))) \<le> length (ci_mem inp)"
  shows "simulated base blks (cam_step p) (camera_thread_func inp s)"
proof -
  have pc: "cam_pc (s_cam s) = p_cam p" and sd: "g_shutdown_requested (s_fq s) = p_shutdown p"
    using assms(1) by (simp_all add: refines_def)
  have m: "p_main p \<notin> {MSequential, MDone}" if "p_cam p \<noteq> CDone"
    using assms(2) that by (auto simp: pipe_inv_def owned_def)
  note crit = critical_working [OF assms(1) m]
  show ?thesis
  proof (cases "p_cam p")
    case CLoop
    have "refines base blks (cam_goto pc s) (p\<lparr>p_cam := pc\<rparr>)" for pc
      using assms(1) by (simp add: refines_def sim_simps)
    from cam_simI [OF cam_test [OF CLoop] this] CLoop show ?thesis
      by (simp only: camera_thread_func_def pc camera_thread_step.simps sd)
  next
    case (CReturn b)
    with push_empty_sim [OF assms(1,2), of b] obtain s1 where
      s1: "push_empty b s = Next s1" "refines base blks s1 (p\<lparr>p_empty := p_empty p @ [b]\<rparr>)"
      by auto
    then have "refines base blks (cam_goto CLoop s1) (p\<lparr>p_empty := p_empty p @ [b], p_cam := CLoop\<rparr>)"
      by (simp add: refines_def sim_simps)
    from cam_simI [OF cam_return [OF CReturn] this] s1(1) CReturn show ?thesis
      by (simp only: camera_thread_func_def pc camera_thread_step.simps crit and_then.simps cam_pc.distinct not_False_eq_True)
  next
    case (CFatal b)
    have "refines base blks (cam_goto (CFatalReturn b) s) (p\<lparr>p_cam := CFatalReturn b\<rparr>)"
      using assms(1) by (simp add: refines_def sim_simps)
    then have "refines base blks (request_shutdown (cam_goto (CFatalReturn b) s))
        (broadcast (p\<lparr>p_shutdown := True, p_cam := CFatalReturn b\<rparr>))"
      by (rule refines_shutdown) simp
    from cam_simI [OF cam_fatal [OF CFatal] this] CFatal show ?thesis
      by (simp only: camera_thread_func_def pc camera_thread_step.simps crit cam_pc.distinct not_False_eq_True)
  next
    case (CFatalReturn b)
    with push_empty_sim [OF assms(1,2), of b] obtain s1 where
      s1: "push_empty b s = Next s1" "refines base blks s1 (p\<lparr>p_empty := p_empty p @ [b]\<rparr>)"
      by auto
    then have "refines base blks (cam_goto CDone s1) (p\<lparr>p_empty := p_empty p @ [b], p_cam := CDone\<rparr>)"
      by (simp add: refines_def sim_simps)
    from cam_simI [OF cam_fatal_return [OF CFatalReturn] this] s1(1) CFatalReturn show ?thesis
      by (simp only: camera_thread_func_def pc camera_thread_step.simps crit and_then.simps cam_pc.distinct not_False_eq_True)
  qed (simp_all only: camera_thread_func_def pc camera_thread_step.simps simulated_simps
      cam_acquire_sim [OF assms(1,2)] cam_capture_sim [OF assms(1)] cam_pack_sim [OF assms(1,2) _ assms(3)]
      cam_push_sim [OF assms(1,2)] cam_send_metrics_sim [OF assms(1,2)])
qed

subsection \<open>The USB thread\<close>

lemma usb_acquire_sim:
  assumes "refines base blks s p" "pipe_inv (pool base) seq p" "p_usb p = ULock"
  shows "simulated base blks (usb_step p) (usb_acquire s)"
proof -
  have m: "p_main p \<notin> {MSequential, MDone}"
    using assms(2,3) by (auto simp: pipe_inv_def owned_def)
  note rep = refines_rep(1) [OF assms(1) m]
  note crit = critical_working [OF assms(1) m]
  have sd: "g_shutdown_requested (s_fq s) = p_shutdown p"
    using assms(1) by (simp add: refines_def)
  have rel: "refines base blks (usb_goto pc s) (p\<lparr>p_usb := pc\<rparr>)" for pc
    using assms(1) by (simp add: refines_def sim_simps)
  show ?thesis
  proof (cases "p_shutdown p")
    case True
    with rel usb_quit [OF assms(3)] show ?thesis
      by (simp add: usb_acquire_def crit sd) blast
  next
    case False
    show ?thesis
    proof (cases "p_action p")
      case Nil
      with False rel usb_wait [OF assms(3)] rep_empty(2) [OF rep] show ?thesis
        by (simp add: usb_acquire_def crit sd) blast
    next
      case (Cons b bs)
      with pool_member(2) [OF assms(2) m] have "b \<notin> set (p_empty p)"
        by auto
      from rep_pull_action [OF rep [unfolded Cons] this] obtain h a where
        r: "frame_queue_pull (fq_heap (s_fq s)) (g_action_queue (s_fq s)) = Some (h, a, Some b)"
          "queues_rep base blks ((s_fq s)\<lparr>fq_heap := h, g_action_queue := a\<rparr>) (p_empty p) bs"
          "\<forall>c. buffer_bytes ((s_fq s)\<lparr>fq_heap := h, g_action_queue := a\<rparr>) c = buffer_bytes (s_fq s) c"
        by blast
      have "refines base blks (usb_goto (UHave b) (s\<lparr>s_fq := (s_fq s)\<lparr>fq_heap := h, g_action_queue := a\<rparr>\<rparr>))
          (p\<lparr>p_action := bs, p_usb := UHave b\<rparr>)"
        using assms(1) r(2,3) m by (simp add: refines_def sim_simps)
      with usb_pull [OF assms(3) Cons False] False Cons rep_empty(2) [OF rep] r(1) show ?thesis
        by (simp add: usb_acquire_def crit sd) blast
    qed
  qed
qed

lemma taken_nonempty:
  assumes "pipe_inv bs seq p" "p_usb p = UHave b"
  shows "p_pkt p b \<noteq> []"
proof -
  have d: "data_ok seq p" and m: "p_main p \<notin> {MSequential, MDone}"
    using assms by (auto simp: pipe_inv_def owned_def)
  from data_okD(2) [OF d m] assms(2) have "p_pkt p b \<in> set (p_packed p @ cam_pending p)"
    by (simp add: usb_taken_def)
  with data_okD(1) [OF d] obtain f where "p_pkt p b = frame_enc f" "frame_valid f"
    unfolding numbered_frames_def by fastforce
  with mjpeg.enc_nonempty show ?thesis
    by simp
qed

lemma take_strict_prefix: "k < n \<Longrightarrow> n \<le> length xs \<Longrightarrow> strict_prefix (take k xs) (take n xs)"
proof -
  assume k: "k < n" "n \<le> length xs"
  then have "take k xs = take k (take n xs)"
    by (simp add: min_def)
  then have "prefix (take k xs) (take n xs)"
    by (simp only: take_is_prefix)
  moreover have "length (take k xs) \<noteq> length (take n xs)"
    using k by simp
  then have "take k xs \<noteq> take n xs"
    by metis
  ultimately show ?thesis
    by (simp add: strict_prefix_def)
qed

lemma usb_send_sim:
  assumes "refines base blks s p" "pipe_inv (pool base) seq p" "p_usb p = UHave b" "write_contract (ui_write inp)"
  shows "simulated base blks (usb_step p) (usb_send_buffer inp b s)"
proof -
  have m: "p_main p \<notin> {MSequential, MDone}"
    using assms(2,3) by (intro owned_working [of "pool base"]) (simp_all add: pipe_inv_def)
  note rep = refines_rep(1) [OF assms(1) m]
  have b: "b \<in> set (pool base)"
    using pool_member(1) [OF assms(2), of b] assms(3) by auto
  from rep b have "pool_buffer (s_fq s) b"
    by (simp add: queues_rep_def)
  then obtain fb a bs where fb: "fq_heap (s_fq s) b = Some fb" "fb_data fb = Some a"
    "fq_blocks (s_fq s) a = Some bs" "length bs = MJPEG_MAX_PACKET_SIZE" "unat (fb_used fb) \<le> MJPEG_MAX_PACKET_SIZE"
    unfolding pool_buffer_def by blast
  let ?n = "unat (fb_used fb)"
  have blk: "buffer_block (s_fq s) fb = Some (Some bs)"
    using fb by (simp add: buffer_block_def)
  have bytes: "buffer_bytes (s_fq s) b = take ?n bs"
    by (simp add: buffer_bytes_def fb blk)
  with refines_rep(2) [OF assms(1) m b] have pkt: "p_pkt p b = take ?n bs"
    by simp
  with taken_nonempty [OF assms(2,3)] have pos: "0 < ?n"
    by auto
  obtain ret tp tr where send: "usb_transport_send_bytes (ui_write inp) (Some bs) ?n (s_tp s) = (ret, tp, tr)"
    by (cases "usb_transport_send_bytes (ui_write inp) (Some bs) ?n (s_tp s)")
  have fd: "0 \<le> usb_fd (s_tp s)"
    using assms(1) by (simp add: refines_def)
  have "?n \<le> length bs"
    using fb(4,5) by simp
  from send_bytes_outcome [OF assms(4) fd pos this send] obtain k where
    k0: "written (usb_fd (s_tp s)) tr = take k bs \<and> usb_fd tp = usb_fd (s_tp s) \<and>
      (ret = int ?n \<and> k = ?n \<or> (ret = ERR_USB_WRITE \<or> ret = ERR_USB_DISCONNECTED) \<and> k < ?n)"
    by blast
  then have k: "written (usb_fd (s_tp s)) tr = take k bs" "usb_fd tp = usb_fd (s_tp s)"
    "ret = int ?n \<and> k = ?n \<or> ret < 0 \<and> k < ?n"
    by (auto simp: ERR_USB_WRITE_def ERR_USB_DISCONNECTED_def)
  define s1 where "s1 = s\<lparr>s_tp := tp, s_trace := s_trace s @ tr, h_sent := h_sent s @ [(take ?n bs, take k bs)]\<rparr>"
  have rel: "refines base blks s' (p\<lparr>p_usb := pc, p_sent := p_sent p @ [(p_pkt p b, take k bs)]\<rparr>)"
    if "s_fq s' = s_fq s1" "s_cam s' = s_cam s1" "s_main s' = s_main s1" "s_running s' = s_running s1"
      "s_seq s' = s_seq s1" "s_tp s' = s_tp s1" "h_packed s' = h_packed s1" "h_sent s' = h_sent s1"
      "usb_pc (s_usb s') = pc" for s' pc
    using assms(1) that fd k(2) pkt by (simp add: refines_def s1_def)
  have unfold_send: "usb_send_buffer inp b s =
      (if ret < 0 then
         (if ret = - ENXIO \<or> ret = - EIO \<or> ret = ERR_USB_DISCONNECTED then Next (usb_goto (UFatal b) s1)
          else let s2 = s1\<lparr>s_usb := (s_usb s1)\<lparr>ut_error_count := ut_error_count (s_usb s1) + 1\<rparr>\<rparr>
               in if 10 \<le> ut_error_count (s_usb s2) then Next (usb_goto (UFatal b) s2)
                  else Next (usb_goto (UReturn b) s2))
       else Next (usb_goto (UReturn b) (usb_count_sent (fb_used fb) s1)))"
    using fb(4,5) by (simp add: usb_send_buffer_def fb(1) blk send k(1) bytes s1_def Let_def)
  show ?thesis
  proof (cases "ret < 0")
    case False
    with k(3) have k': "take k bs = p_pkt p b"
      by (simp add: pkt)
    have "refines base blks (usb_goto (UReturn b) (usb_count_sent (fb_used fb) s1))
        (p\<lparr>p_usb := UReturn b, p_sent := p_sent p @ [(p_pkt p b, take k bs)]\<rparr>)"
      by (rule rel) (simp_all add: sim_simps usb_count_sent_def)
    from usb_simI [OF usb_sent [OF assms(3)] this [unfolded k']] False show ?thesis
      by (simp only: unfold_send if_False)
  next
    case True
    with k(3) have "k < ?n"
      by (metis not_le of_nat_0_le_iff)
    then have pre: "strict_prefix (take k bs) (p_pkt p b)"
      unfolding pkt by (rule take_strict_prefix) (simp add: fb(4,5))
    have next_sim: "simulated base blks (usb_step p) (Next s')"
      if "s_fq s' = s_fq s1" "s_cam s' = s_cam s1" "s_main s' = s_main s1" "s_running s' = s_running s1"
        "s_seq s' = s_seq s1" "s_tp s' = s_tp s1" "h_packed s' = h_packed s1" "h_sent s' = h_sent s1"
        "usb_pc (s_usb s') = UFatal b \<or> usb_pc (s_usb s') = UReturn b" for s'
      using that(9) usb_simI [OF usb_give_up [OF assms(3) pre] rel [OF that(1-8)]]
        usb_simI [OF usb_retry [OF assms(3) pre] rel [OF that(1-8)]] by blast
    show ?thesis
      unfolding unfold_send Let_def if_P [OF True]
      by (simp only: split: if_split, intro conjI impI; rule next_sim)
        (simp_all add: sim_simps)
  qed
qed

lemma usb_thread_sim:
  assumes "refines base blks s p" "pipe_inv (pool base) seq p" "write_contract (ui_write inp)"
  shows "simulated base blks (usb_step p) (usb_thread_func inp s)"
proof -
  have pc: "usb_pc (s_usb s) = p_usb p" and sd: "g_shutdown_requested (s_fq s) = p_shutdown p"
    using assms(1) by (simp_all add: refines_def)
  have m: "p_main p \<notin> {MSequential, MDone}" if "p_usb p \<notin> {UNone, UDone}"
    using assms(2) that by (auto simp: pipe_inv_def owned_def)
  note crit = critical_working [OF assms(1) m]
  show ?thesis
  proof (cases "p_usb p")
    case ULoop
    have "refines base blks (usb_goto pc s) (p\<lparr>p_usb := pc\<rparr>)" for pc
      using assms(1) by (simp add: refines_def sim_simps)
    from usb_simI [OF usb_test [OF ULoop] this] ULoop show ?thesis
      by (simp only: usb_thread_func_def pc usb_thread_step.simps sd)
  next
    case (UReturn b)
    with push_empty_sim [OF assms(1,2), of b] obtain s1 where
      s1: "push_empty b s = Next s1" "refines base blks s1 (p\<lparr>p_empty := p_empty p @ [b]\<rparr>)"
      by auto
    then have "refines base blks (usb_goto ULoop s1) (p\<lparr>p_empty := p_empty p @ [b], p_usb := ULoop\<rparr>)"
      by (simp add: refines_def sim_simps)
    from refines_signal [OF this] obtain p' where
      "signalled (p\<lparr>p_empty := p_empty p @ [b], p_usb := ULoop\<rparr>) p'"
      "refines base blks (cond_signal (ui_first_cam inp) (usb_goto ULoop s1)) p'"
      by blast
    from usb_simI [OF usb_return [OF UReturn this(1)] this(2)] s1(1) UReturn show ?thesis
      by (simp add: usb_thread_func_def pc crit)
  next
    case (UFatal b)
    have "refines base blks (usb_goto (UFatalReturn b) s) (p\<lparr>p_usb := UFatalReturn b\<rparr>)"
      using assms(1) by (simp add: refines_def sim_simps)
    then have "refines base blks (request_shutdown (usb_goto (UFatalReturn b) s))
        (broadcast (p\<lparr>p_shutdown := True, p_usb := UFatalReturn b\<rparr>))"
      by (rule refines_shutdown) simp
    from usb_simI [OF usb_fatal [OF UFatal] this] UFatal show ?thesis
      by (simp add: usb_thread_func_def pc crit del: simulated_simps)
  next
    case (UFatalReturn b)
    with push_empty_sim [OF assms(1,2), of b] obtain s1 where
      s1: "push_empty b s = Next s1" "refines base blks s1 (p\<lparr>p_empty := p_empty p @ [b]\<rparr>)"
      by auto
    then have "refines base blks (usb_goto UDone s1) (p\<lparr>p_empty := p_empty p @ [b], p_usb := UDone\<rparr>)"
      by (simp add: refines_def sim_simps)
    from usb_simI [OF usb_fatal_return [OF UFatalReturn] this] s1(1) UFatalReturn show ?thesis
      by (simp add: usb_thread_func_def pc crit del: simulated_simps)
  qed (simp_all only: usb_thread_func_def pc usb_thread_step.simps simulated_simps
      usb_acquire_sim [OF assms(1,2)] usb_send_sim [OF assms(1,2) _ assms(3)])
qed

subsection \<open>The main thread and the environment\<close>

lemma queues_freed:
  assumes "queues_rep base blks q es as"
  shows "\<exists>q'. frame_queue_cleanup q = Some q' \<and> freed base blks q' \<and> g_shutdown_requested q'"
proof -
  have len: "length blks = 3" and "pool_owns (q\<lparr>g_shutdown_requested := True\<rparr>) base blks"
    using assms by (simp_all add: queues_rep_def pool_owns_def holds_def)
  from frame_queue_free_buffers_ok [OF this(2)] show ?thesis
    by (auto simp: frame_queue_cleanup_def freed_def pool_addrs_def len)
qed

lemma main_thread_sim:
  assumes "refines base blks s p" "pipe_inv (pool base) seq p"
  shows "simulated base blks (main_step p) (main_thread_step create s)"
proof -
  have main: "s_main s = p_main p" and sd: "g_shutdown_requested (s_fq s) = p_shutdown p"
    and run: "s_running s = p_running p" and pcs: "cam_pc (s_cam s) = p_cam p" "usb_pc (s_usb s) = p_usb p"
    using assms(1) by (simp_all add: refines_def)
  have move: "refines base blks (s\<lparr>s_main := pc\<rparr>) (p\<lparr>p_main := pc\<rparr>)"
    if "p_main p \<notin> {MSequential, MDone}" "pc \<notin> {MSequential, MDone}" for pc
    using assms(1) that by (simp add: refines_def)
  have stop: "refines base blks (request_shutdown (s\<lparr>s_main := pc\<rparr>)) (broadcast (p\<lparr>p_shutdown := True, p_main := pc\<rparr>))"
    if "p_main p \<notin> {MSequential, MDone}" "pc \<notin> {MSequential, MDone}" for pc
    by (rule refines_shutdown [OF move [OF that]]) simp
  have free: "\<exists>q. frame_queue_cleanup (s_fq s) = Some q \<and> refines base blks (s\<lparr>s_fq := q, s_main := pc\<rparr>)
      (p\<lparr>p_empty := [], p_action := [], p_shutdown := True, p_main := pc\<rparr>)"
    if "p_main p \<notin> {MSequential, MDone}" "pc \<in> {MSequential, MDone}" for pc
    using queues_freed [OF refines_rep(1) [OF assms(1) that(1)]] assms(1) that(2) by (auto simp: refines_def)
  show ?thesis
  proof (cases "p_main p")
    case MCreateUsb
    have "refines base blks (s\<lparr>s_usb := fresh_usb_thread, s_main := MMonitor\<rparr>) (p\<lparr>p_usb := ULoop, p_main := MMonitor\<rparr>)"
      using assms(1) MCreateUsb by (simp add: refines_def fresh_usb_thread_def)
    with move [of MAbort] main_create [OF MCreateUsb] main_create_failed [OF MCreateUsb] MCreateUsb main show ?thesis
      by (auto simp: main_thread_step_def)
  next
    case MAbort
    from main_simI [OF main_abort [OF MAbort] stop] MAbort show ?thesis
      using critical_working [OF assms(1)] by (simp add: main_thread_step_def main del: simulated_simps)
  next
    case MAbortJoin
    with move [of MAbortFree] main_abort_join [OF MAbortJoin] main pcs show ?thesis
      by (auto simp: main_thread_step_def)
  next
    case MAbortFree
    with free [of MSequential] main_abort_free [OF MAbortFree] main show ?thesis
      by (auto simp: main_thread_step_def)
  next
    case MMonitor
    from main_simI [OF main_monitor [OF MMonitor] move] MMonitor show ?thesis
      by (simp add: main_thread_step_def main run del: simulated_simps split: if_splits)
  next
    case MPoll
    have "refines base blks (s\<lparr>s_running := False, s_main := MShutdown\<rparr>) (p\<lparr>p_running := False, p_main := MShutdown\<rparr>)"
      using assms(1) MPoll by (simp add: refines_def)
    with main_poll [OF MPoll] move [of MShutdown] move [of MMonitor] MPoll show ?thesis
      by (auto simp: main_thread_step_def main sd run)
  next
    case MShutdown
    from main_simI [OF main_shutdown [OF MShutdown] stop] MShutdown show ?thesis
      using critical_working [OF assms(1)] by (simp add: main_thread_step_def main del: simulated_simps)
  next
    case MCleanup
    have eq: "(if \<not> g_shutdown_requested (s_fq s) then s\<lparr>s_fq := (s_fq s)\<lparr>g_shutdown_requested := True\<rparr>\<rparr> else s)\<lparr>s_main := MJoinCam\<rparr>
        = s\<lparr>s_main := MJoinCam, s_fq := (s_fq s)\<lparr>g_shutdown_requested := True\<rparr>\<rparr>"
      by simp
    from main_simI [OF main_cleanup [OF MCleanup] stop] MCleanup show ?thesis
      using critical_working [OF assms(1)]
      by (simp add: main_thread_step_def main eq request_shutdown_def del: simulated_simps)
  next
    case MJoinCam
    with move [of MJoinUsb] main_join_cam [OF MJoinCam] main pcs show ?thesis
      by (auto simp: main_thread_step_def)
  next
    case MJoinUsb
    with move [of MFree] main_join_usb [OF MJoinUsb] main pcs show ?thesis
      by (auto simp: main_thread_step_def)
  next
    case MFree
    with free [of MDone] main_free [OF MFree] main show ?thesis
      by (auto simp: main_thread_step_def)
  qed (simp_all add: main_thread_step_def main)
qed

lemma signal_sim:
  assumes "refines base blks s p" "s_main s \<notin> {MSequential, MDone}" "signal_handler signo s = r"
  shows "\<exists>s'. r = Next s' \<and> (\<exists>p'. (env_step p p' \<or> p' = p) \<and> refines base blks s' p')"
proof (cases "signo = SIGINT \<or> signo = SIGTERM")
  case True
  have m: "p_main p \<notin> {MSequential, MDone}"
    using assms(1,2) by (simp add: refines_def)
  let ?s = "s\<lparr>s_running := False\<rparr>"
  have rel: "refines base blks ?s (p\<lparr>p_running := False\<rparr>)"
    using assms(1) by (simp add: refines_def)
  then have "refines base blks (request_shutdown ?s) (broadcast (p\<lparr>p_running := False, p_shutdown := True\<rparr>))"
    by (rule refines_shutdown) simp
  moreover have "r = Next (request_shutdown ?s)"
    using True assms(3) critical_working [OF rel] m by (auto simp: signal_handler_def Let_def)
  ultimately show ?thesis
    using env_signal [OF m] by blast
qed (use assms in \<open>auto simp: signal_handler_def\<close>)

lemma sys_step_sim:
  assumes "refines base blks s p" "pipe_inv (pool base) seq p" "sys_step s s'"
  shows "\<exists>p'. (pipe_step p p' \<or> p' = p) \<and> refines base blks s' p'"
  using assms(3)
proof (cases rule: sys_step.cases)
  case (camera inp)
  with camera_thread_sim [OF assms(1,2), of inp] show ?thesis
    by (auto simp: pipe_step_def)
next
  case (usb inp)
  with usb_thread_sim [OF assms(1,2), of inp] show ?thesis
    by (auto simp: pipe_step_def)
next
  case (main create)
  with main_thread_sim [OF assms(1,2), of create] show ?thesis
    by (auto simp: pipe_step_def)
next
  case (signal signo)
  from signal_sim [OF assms(1) this(1,2)] show ?thesis
    by (auto simp: pipe_step_def)
next
  case spurious_cam
  with refines_wake(1) [OF assms(1)] env_wake_cam [of p] show ?thesis
    by (auto simp: pipe_step_def)
next
  case spurious_usb
  with refines_wake(2) [OF assms(1)] env_wake_usb [of p] show ?thesis
    by (auto simp: pipe_step_def)
qed

interpretation threads: simulation sys_step pipe_step "refines base blks" "pipe_inv (pool base) seq"
  for base blks seq
proof unfold_locales
  show "refines base blks s p \<Longrightarrow> pipe_inv (pool base) seq p \<Longrightarrow> sys_step s s' \<Longrightarrow>
      \<exists>p'. (pipe_step p p' \<or> p' = p) \<and> refines base blks s' p'" for s p s'
    by (rule sys_step_sim)
  show "pipe_inv (pool base) seq p \<Longrightarrow> pipe_step p p' \<Longrightarrow> pipe_inv (pool base) seq p'" for p p'
    using pipe_step_inv [OF _ _ distinct_upt] by blast
qed

end
