(* ===== verification/ThreadInvariants.thy ===== *)
theory ThreadInvariants
  imports ThreadRefinement
begin

section \<open>Start-up, reachable states and invariants of the threads\<close>

text \<open>
  From the moment \<open>camera_threads_init\<close> returns: its success and error paths, the states the system
  reaches and their abstract counterparts, progress (some thread can always go on), the rank that bounds
  the steps after a shutdown request, the invariants of the detailed state (the bytes on the wire, the
  error counters), and the arithmetic of the metrics interval.
\<close>

subsection \<open>Start-up\<close>

text \<open>
  The environment of a start: \<open>malloc\<close> and \<open>memalign\<close> give fresh memory when they give any, the POSIX
  calls return 0 or a positive error number, the packet size is the one \<open>main\<close> passes, the USB device
  is open.
\<close>

definition launch_ok :: "init_input \<Rightarrow> thread_context \<Rightarrow> sys \<Rightarrow> nat \<Rightarrow> bool" where
  "launch_ok inp c s base \<longleftrightarrow>
     ii_pool inp = Some base \<and> fresh_memory (s_fq s) base 3 (ii_align inp) \<and>
     (\<forall>i < 3. ii_align inp i \<noteq> None \<longrightarrow> length (snd (the (ii_align inp i))) = MJPEG_MAX_PACKET_SIZE) \<and>
     unat (ctx_packet_buffer_size c) = MJPEG_MAX_PACKET_SIZE \<and> 0 \<le> usb_fd (s_tp s) \<and>
     0 \<le> ii_attr inp \<and> 0 \<le> ii_mutex inp \<and> 0 \<le> ii_cond inp \<and> 0 \<le> ii_create_cam inp \<and>
     \<not> g_queue_mutex_ready (s_fq s) \<and> \<not> g_queue_cond_ready (s_fq s) \<and> h_packed s = [] \<and> h_sent s = []"

definition init_succeeds :: "init_input \<Rightarrow> bool" where
  "init_succeeds inp \<longleftrightarrow> ii_attr inp = 0 \<and> ii_mutex inp = 0 \<and> ii_cond inp = 0 \<and> ii_create_cam inp = 0 \<and>
     (\<forall>i < 3. ii_align inp i \<noteq> None)"

lemma blocks_allocated_length:
  "\<forall>j < i. length (snd (the (align j))) = L \<Longrightarrow> j < i \<Longrightarrow>
     \<exists>bs. fq_blocks (allocated align bsize base s1 i) (fst (the (align j))) = Some bs \<and> length bs = L"
  by (induction i) (auto simp: Let_def less_Suc_eq case_prod_beta)

lemma three_nat: "nat MAX_QUEUE_DEPTH = 3" "0 < MAX_QUEUE_DEPTH"
  by (simp_all add: MAX_QUEUE_DEPTH_def)

lemma allocate_queues_rep:
  assumes "fresh_memory q base 3 align" "\<forall>i < 3. align i \<noteq> None"
    and "\<forall>i < 3. length (snd (the (align i))) = MJPEG_MAX_PACKET_SIZE"
    and "unat bsize = MJPEG_MAX_PACKET_SIZE" "g_empty_queue q = None" "g_action_queue q = None"
    and "g_queue_mutex_ready q" "g_queue_cond_ready q"
  shows "\<exists>q'. frame_queue_allocate_buffers (Some base) align bsize MAX_QUEUE_DEPTH q = Some (0, q') \<and>
    queues_rep base (block_addrs align 3) q' (pool base) [] \<and> g_shutdown_requested q' = g_shutdown_requested q"
proof -
  let ?a = "allocated align bsize base (pool_zeroed base MAX_QUEUE_DEPTH q) 3"
  have nz: "bsize \<noteq> 0"
    using assms(4) by (auto simp: mjpeg_consts)
  note mem = assms(1,2) [folded three_nat(1)]
  from allocate_ok [OF mem(1) three_nat(2) nz mem(2) assms(5)] obtain h e where
    r: "frame_queue_allocate_buffers (Some base) align bsize MAX_QUEUE_DEPTH q
      = Some (0, ?a\<lparr>fq_heap := h, g_empty_queue := e\<rparr>)"
    and e: "is_queue h e (pool base)" and pl: "payload h = payload (fq_heap ?a)"
    by (auto simp: three_nat)
  let ?q = "?a\<lparr>fq_heap := h, g_empty_queue := e\<rparr>"
  have "pool_owns ?q base (block_addrs align 3)"
    using pool_owns_allocated [OF mem(1) three_nat(2) mem(2)] pl by (simp add: three_nat)
  moreover have "pool_buffer ?q b" if b: "b \<in> set (pool base)" for b
  proof -
    from b obtain i where i: "i < 3" "b = base + i"
      by (metis add_diff_inverse_nat atLeastLessThan_iff le_add_diff_inverse less_diff_conv2 nat_add_left_cancel_less set_upt)
    from blocks_allocated_length [OF assms(3) i(1)] obtain bs where
      "fq_blocks ?a (fst (the (align i))) = Some bs" "length bs = MJPEG_MAX_PACKET_SIZE"
      by blast
    moreover have "payload h b = Some (Some (fst (the (align i))), bsize, 0, int i)"
      using i by (simp add: pl payload_def heap_allocated fresh_buffer_def)
    ultimately show ?thesis
      using assms(4) by (simp add: pool_buffer_payload)
  qed
  ultimately show ?thesis
    using r e assms(6-8) by (simp add: queues_rep_def is_queue_def pool_zeroed_def)
qed

lemma frame_queue_init_ok: "frame_queue_init 0 r 0 0 q =
    (0, q\<lparr>g_action_queue := None, g_empty_queue := None, g_shutdown_requested := False,
       g_queue_mutex_ready := True, g_queue_cond_ready := True\<rparr>)"
  by (simp add: frame_queue_init_def Let_def)

lemma init_success:
  assumes "launch_ok inp c s base" "init_succeeds inp"
  shows "\<exists>q. camera_threads_init inp f (Some c) s = Next (0, s\<lparr>s_ctx := c,
      s_metrics := (s_metrics s)\<lparr>g_start_time := ii_now inp, g_last_metrics_time := ii_now inp\<rparr>, s_fq := q,
      s_cam := fresh_cam_thread f, s_main := MCreateUsb, s_usb := fresh_usb_thread\<lparr>usb_pc := UNone\<rparr>\<rparr>) \<and>
    queues_rep base (block_addrs (ii_align inp) 3) q (pool base) [] \<and> \<not> g_shutdown_requested q"
proof -
  let ?q = "(s_fq s)\<lparr>g_action_queue := None, g_empty_queue := None, g_shutdown_requested := False,
       g_queue_mutex_ready := True, g_queue_cond_ready := True\<rparr>"
  have "fresh_memory ?q base 3 (ii_align inp)" "\<forall>i < 3. ii_align inp i \<noteq> None"
    "\<forall>i < 3. length (snd (the (ii_align inp i))) = MJPEG_MAX_PACKET_SIZE"
    "unat (ctx_packet_buffer_size c) = MJPEG_MAX_PACKET_SIZE"
    using assms by (simp_all add: launch_ok_def init_succeeds_def fresh_memory_def)
  from allocate_queues_rep [OF this] obtain q where
    "frame_queue_allocate_buffers (Some base) (ii_align inp) (ctx_packet_buffer_size c) MAX_QUEUE_DEPTH ?q = Some (0, q)"
    "queues_rep base (block_addrs (ii_align inp) 3) q (pool base) []" "\<not> g_shutdown_requested q"
    by auto
  then show ?thesis
    using assms by (intro exI [of _ q])
      (simp add: camera_threads_init_def launch_ok_def init_succeeds_def frame_queue_init_ok Let_def)
qed

text \<open>No trace of the pool: neither its structures nor any block handed out is allocated, no mutex.\<close>

definition no_pool :: "init_input \<Rightarrow> nat \<Rightarrow> fq_state \<Rightarrow> bool" where
  "no_pool inp base q \<longleftrightarrow>
     (\<forall>b \<in> set (pool base). fq_heap q b = None) \<and>
     (\<forall>i < 3. \<forall>a bs. ii_align inp i = Some (a, bs) \<longrightarrow> fq_blocks q a = None) \<and>
     \<not> g_queue_mutex_ready q \<and> \<not> g_queue_cond_ready q"

lemma fresh_no_pool:
  assumes "fresh_memory q base 3 (ii_align inp)" "\<not> g_queue_mutex_ready q'" "\<not> g_queue_cond_ready q'"
    and "fq_heap q' = fq_heap q" "fq_blocks q' = fq_blocks q"
  shows "no_pool inp base q'"
proof -
  have "fq_heap q b = None" if "b \<in> set (pool base)" for b
    using assms(1) that unfolding fresh_memory_def
    by (metis add_diff_inverse_nat atLeastLessThan_iff le_add_diff_inverse less_diff_conv2 nat_add_left_cancel_less set_upt)
  with assms show ?thesis
    by (simp add: no_pool_def fresh_memory_def)
qed

lemma init_failure:
  assumes "launch_ok inp c s base" "\<not> init_succeeds inp"
  shows "\<exists>ret s'. camera_threads_init inp f (Some c) s = Next (ret, s') \<and> ret < 0 \<and> no_pool inp base (s_fq s') \<and>
    s_main s' = s_main s \<and> s_cam s' = s_cam s \<and> s_usb s' = s_usb s"
proof -
  let ?cleared = "(s_fq s)\<lparr>g_action_queue := None, g_empty_queue := None, g_shutdown_requested := False\<rparr>"
  let ?q = "?cleared\<lparr>g_queue_mutex_ready := True, g_queue_cond_ready := True\<rparr>"
  note l = assms(1) [unfolded launch_ok_def]
  show ?thesis
  proof (cases "ii_attr inp = 0 \<and> ii_mutex inp = 0 \<and> ii_cond inp = 0")
    case False
    have "no_pool inp base q'" if "q' = ?cleared \<or> q' = ?cleared\<lparr>g_queue_mutex_ready := False\<rparr>" for q'
      using l that by (intro fresh_no_pool [of "s_fq s"]) auto
    with False l show ?thesis
      by (auto simp: camera_threads_init_def frame_queue_init_def Let_def)
  next
    case init: True
    have fresh: "fresh_memory ?q base 3 (ii_align inp)" and nz: "ctx_packet_buffer_size c \<noteq> 0"
      and pool: "ii_pool inp = Some base"
      using l by (auto simp: fresh_memory_def mjpeg_consts)
    show ?thesis
    proof (cases "\<forall>i < 3. ii_align inp i \<noteq> None")
      case False
      then have "\<exists>i < nat MAX_QUEUE_DEPTH. ii_align inp i = None"
        by (simp only: three_nat not_all not_imp not_not)
      from allocate_fails [OF fresh [folded three_nat(1)] three_nat(2) nz this]
      have "frame_queue_allocate_buffers (ii_pool inp) (ii_align inp) (ctx_packet_buffer_size c) MAX_QUEUE_DEPTH ?q
          = Some (- ENOMEM, ?q\<lparr>g_buffer_pool := None, g_buffer_pool_size := 0\<rparr>)"
        by (simp add: pool)
      moreover have "no_pool inp base ((s_fq s)\<lparr>g_buffer_pool := None, g_buffer_pool_size := 0,
          g_shutdown_requested := True, g_queue_cond_ready := False, g_queue_mutex_ready := False,
          g_action_queue := None, g_empty_queue := None\<rparr>)"
        using l by (intro fresh_no_pool [of "s_fq s"]) simp_all
      ultimately show ?thesis
        using init by (simp add: camera_threads_init_def frame_queue_init_ok Let_def threads_cleanup_queues_def
            frame_queue_cleanup_def frame_queue_free_buffers_def ENOMEM_def)
    next
      case True
      with assms(2) init have create: "ii_create_cam inp \<noteq> 0"
        by (simp add: init_succeeds_def)
      from True l have "\<forall>i < 3. length (snd (the (ii_align inp i))) = MJPEG_MAX_PACKET_SIZE"
        "unat (ctx_packet_buffer_size c) = MJPEG_MAX_PACKET_SIZE"
        by simp_all
      from allocate_queues_rep [OF fresh True this] obtain q where
        q: "frame_queue_allocate_buffers (Some base) (ii_align inp) (ctx_packet_buffer_size c) MAX_QUEUE_DEPTH ?q = Some (0, q)"
          "queues_rep base (block_addrs (ii_align inp) 3) q (pool base) []"
        by auto
      from queues_freed [OF q(2)] obtain q' where q': "frame_queue_cleanup q = Some q'"
        "freed base (block_addrs (ii_align inp) 3) q'"
        by blast
      have "\<not> g_queue_cond_ready q'"
        using q'(1) by (auto simp: frame_queue_cleanup_def split: Option.bind_splits)
      moreover have "fq_blocks q' a = None" if "i < 3" "ii_align inp i = Some (a, bs)" for i a bs
      proof -
        have "a = block_addrs (ii_align inp) 3 ! i"
          using that by simp
        then have "a \<in> set (block_addrs (ii_align inp) 3)"
          using that(1) by (simp only: nth_mem length_block_addrs)
        with q'(2) show ?thesis
          by (simp add: freed_def)
      qed
      ultimately have "no_pool inp base q'"
        using q'(2) by (auto simp: no_pool_def freed_def)
      with init create q(1) q'(1) l pool show ?thesis
        by (simp add: camera_threads_init_def frame_queue_init_ok Let_def threads_cleanup_queues_def)
    qed
  qed
qed

subsection \<open>Reachable states\<close>

definition launched :: "init_input \<Rightarrow> thread_context \<Rightarrow> sys \<Rightarrow> nat \<Rightarrow> sys \<Rightarrow> bool" where
  "launched inp c s0 base s1 \<longleftrightarrow>
     launch_ok inp c s0 base \<and> (\<exists>f. camera_threads_init inp f (Some c) s0 = Next (0, s1))"

lemma launch_refines:
  assumes "launched inp c s0 base s1"
  shows "\<exists>p. pipe_start (pool base) (s_seq s0) p \<and> refines base (block_addrs (ii_align inp) 3) s1 p"
proof -
  from assms obtain f where l: "launch_ok inp c s0 base" and r: "camera_threads_init inp f (Some c) s0 = Next (0, s1)"
    by (auto simp: launched_def)
  have "init_succeeds inp"
    using init_failure [OF l, of f] r by force
  from init_success [OF l this, of f] r obtain q where
    s1: "s1 = s0\<lparr>s_ctx := c, s_metrics := (s_metrics s0)\<lparr>g_start_time := ii_now inp, g_last_metrics_time := ii_now inp\<rparr>,
      s_fq := q, s_cam := fresh_cam_thread f, s_main := MCreateUsb, s_usb := fresh_usb_thread\<lparr>usb_pc := UNone\<rparr>\<rparr>"
    and q: "queues_rep base (block_addrs (ii_align inp) 3) q (pool base) []" "\<not> g_shutdown_requested q"
    by auto
  let ?p = "\<lparr>p_empty = pool base, p_action = [], p_cam = CLoop, p_usb = UNone, p_main = MCreateUsb,
    p_running = s_running s0, p_shutdown = False, p_seq = s_seq s0, p_pkt = buffer_bytes q, p_packed = [], p_sent = []\<rparr>"
  have "pipe_start (pool base) (s_seq s0) ?p"
    by (simp add: pipe_start_def)
  moreover have "refines base (block_addrs (ii_align inp) 3) s1 ?p"
    using l q by (simp add: refines_def s1 launch_ok_def fresh_cam_thread_def fresh_usb_thread_def)
  ultimately show ?thesis
    by blast
qed

lemma reach_refines:
  assumes "launched inp c s0 base s1" "sys_reach s1 s"
  shows "\<exists>p. refines base (block_addrs (ii_align inp) 3) s p \<and> pipe_inv (pool base) (s_seq s0) p"
proof -
  from launch_refines [OF assms(1)] obtain p where
    p: "pipe_start (pool base) (s_seq s0) p" "refines base (block_addrs (ii_align inp) 3) s1 p"
    by blast
  from threads.reachable_refines [OF assms(2) p(2) pipe_start_inv [OF p(1)]] show ?thesis
    by blast
qed

text \<open>A thread that has not finished and does not wait is never blocked.\<close>

lemma simulated_no_fault: "simulated base blks step r \<Longrightarrow> r \<noteq> Fault"
  by auto

lemma and_then_Blocked: "and_then r f = Blocked \<longleftrightarrow> r = Blocked \<or> (\<exists>x. r = Next x \<and> f x = Blocked)"
  by (cases r) auto

lemma push_not_Blocked [simp]: "push_empty b s \<noteq> Blocked" "push_action b s \<noteq> Blocked"
  by (auto simp: push_empty_def push_action_def split: option.splits prod.splits)

lemma critical_Blocked: "r \<noteq> Blocked \<Longrightarrow> critical s r \<noteq> Blocked"
  by (simp add: critical_def)

lemma cam_blocked: "camera_thread_func inp s = Blocked \<longleftrightarrow> cam_pc (s_cam s) \<in> {CWaiting, CDone}"
proof (cases "cam_pc (s_cam s)")
  case CLock
  then show ?thesis
    by (auto simp: camera_thread_func_def cam_acquire_def critical_def Let_def split: option.splits prod.splits)
next
  case (CHave b)
  then show ?thesis
    by (auto simp: camera_thread_func_def cam_capture_frame_def Let_def split: prod.splits)
next
  case (CPack b)
  then show ?thesis
    by (auto simp: camera_thread_func_def cam_pack_frame_def Let_def split: option.splits sum.splits prod.splits)
next
  case (CPush b)
  then show ?thesis
    by (auto simp: camera_thread_func_def cam_push_filled_def cam_stats_def critical_def and_then_Blocked Let_def
        split: option.splits prod.splits if_splits)
next
  case CMetrics
  then show ?thesis
    by (auto simp: camera_thread_func_def cam_send_metrics_def split: option.splits)
qed (auto simp: camera_thread_func_def critical_def and_then_Blocked)

lemma usb_blocked: "usb_thread_func inp s = Blocked \<longleftrightarrow> usb_pc (s_usb s) \<in> {UNone, UWaiting, UDone}"
proof (cases "usb_pc (s_usb s)")
  case ULock
  then show ?thesis
    by (auto simp: usb_thread_func_def usb_acquire_def critical_def Let_def split: option.splits prod.splits)
next
  case (UHave b)
  then show ?thesis
    by (auto simp: usb_thread_func_def usb_send_buffer_def Let_def split: option.splits prod.splits if_splits)
qed (auto simp: usb_thread_func_def critical_def and_then_Blocked)

lemma main_blocked:
  assumes "main_thread_step create s = Blocked"
  shows "s_main s \<in> {MSequential, MDone} \<or> (s_main s \<in> {MAbortJoin, MJoinCam} \<and> cam_pc (s_cam s) \<noteq> CDone) \<or>
    (s_main s = MJoinUsb \<and> usb_pc (s_usb s) \<noteq> UDone)"
  using assms by (cases "s_main s")
    (auto simp: main_thread_step_def critical_def split: option.splits if_splits)

subsection \<open>Steps of the threads and of the environment\<close>

definition thread_step :: "sys \<Rightarrow> sys \<Rightarrow> bool" where
  "thread_step s s' \<longleftrightarrow>
     (\<exists>inp. unat (frm_size (ct_frame (s_cam s))) \<le> length (ci_mem inp) \<and> camera_thread_func inp s = Next s') \<or>
     (\<exists>inp. write_contract (ui_write inp) \<and> usb_thread_func inp s = Next s') \<or>
     (\<exists>create. main_thread_step create s = Next s')"

definition env_move :: "sys \<Rightarrow> sys \<Rightarrow> bool" where
  "env_move s s' \<longleftrightarrow>
     (s_main s \<notin> {MSequential, MDone} \<and> (\<exists>signo. signal_handler signo s = Next s')) \<or>
     s' = wake_cam_thread s \<or> s' = wake_usb_thread s"

lemma sys_step_split: "sys_step s s' \<longleftrightarrow> thread_step s s' \<or> env_move s s'"
  unfolding thread_step_def env_move_def
  by (auto intro: sys_step.intros elim!: sys_stepE)

lemma thread_step_sim:
  assumes "refines base blks s p" "pipe_inv (pool base) seq p" "thread_step s s'"
  shows "\<exists>p'. (cam_step p p' \<or> usb_step p p' \<or> main_step p p') \<and> refines base blks s' p'"
  using assms(3) camera_thread_sim [OF assms(1,2)] usb_thread_sim [OF assms(1,2)] main_thread_sim [OF assms(1,2)]
  unfolding thread_step_def by (metis simulated_simps(3))

lemma env_move_sim:
  assumes "refines base blks s p" "env_move s s'"
  shows "\<exists>p'. (env_step p p' \<or> p' = p) \<and> refines base blks s' p'"
  using assms(2) signal_sim [OF assms(1)] refines_wake [OF assms(1)] env_wake_cam [of p] env_wake_usb [of p]
  unfolding env_move_def by (metis outcome.inject)

lemma thread_stepI:
  "unat (frm_size (ct_frame (s_cam s))) \<le> length (ci_mem ci) \<Longrightarrow> camera_thread_func ci s = Next s' \<Longrightarrow> thread_step s s'"
  "write_contract (ui_write ui) \<Longrightarrow> usb_thread_func ui s = Next s' \<Longrightarrow> thread_step s s'"
  "main_thread_step create s = Next s' \<Longrightarrow> thread_step s s'"
  unfolding thread_step_def by blast+

lemma outcome_blocked: "r \<noteq> Fault \<Longrightarrow> (\<And>x. r = Next x \<Longrightarrow> False) \<Longrightarrow> r = Blocked"
  by (cases r) auto

text \<open>Some thread can always go on, until the main thread has freed the queues.\<close>

lemma some_thread_moves:
  assumes "refines base blks s p" "pipe_inv (pool base) seq p" "s_main s \<notin> {MSequential, MDone}"
  shows "\<exists>s'. thread_step s s'"
proof (rule ccontr)
  assume stuck: "\<nexists>s'. thread_step s s'"
  have m: "p_main p \<notin> {MSequential, MDone}" and pcs: "p_cam p = cam_pc (s_cam s)" "p_usb p = usb_pc (s_usb s)"
    "p_main p = s_main s"
    using assms(1,3) by (simp_all add: refines_def)
  have inv: "waits_ok p" "control_ok p" "owned (pool base) p"
    using assms(2) by (simp_all add: pipe_inv_def)
  obtain ci :: cam_input where ci: "unat (frm_size (ct_frame (s_cam s))) \<le> length (ci_mem ci)"
  proof
    show "unat (frm_size (ct_frame (s_cam s))) \<le> length (ci_mem
        ((undefined :: cam_input)\<lparr>ci_mem := replicate (unat (frm_size (ct_frame (s_cam s)))) 0\<rparr>))"
      by simp
  qed
  have "camera_thread_func ci s = Blocked"
    by (rule outcome_blocked [OF simulated_no_fault [OF camera_thread_sim [OF assms(1,2) ci]]]) (use stuck thread_stepI(1) [OF ci] in blast)
  then have cam: "p_cam p \<in> {CWaiting, CDone}"
    by (simp add: cam_blocked pcs)
  have ui: "write_contract (ui_write \<lparr>ui_write = \<lambda>k r. Wrote 0, ui_first_cam = True\<rparr>)"
    by (simp add: write_contract_def)
  have "usb_thread_func \<lparr>ui_write = \<lambda>k r. Wrote 0, ui_first_cam = True\<rparr> s = Blocked"
    by (rule outcome_blocked [OF simulated_no_fault [OF usb_thread_sim [OF assms(1,2) ui]]]) (use stuck thread_stepI(2) [OF ui] in blast)
  then have usb: "p_usb p \<in> {UNone, UWaiting, UDone}"
    by (simp add: usb_blocked pcs)
  have "main_thread_step 0 s = Blocked"
    by (rule outcome_blocked [OF simulated_no_fault [OF main_thread_sim [OF assms(1,2)]]]) (use stuck thread_stepI(3) in blast)
  from main_blocked [OF this] assms(3) have
    "(p_main p \<in> {MAbortJoin, MJoinCam} \<and> p_cam p \<noteq> CDone) \<or> (p_main p = MJoinUsb \<and> p_usb p \<noteq> UDone)"
    by (simp add: pcs)
  moreover have "p_shutdown p" if "p_main p \<in> {MAbortJoin, MJoinCam, MJoinUsb}"
    using inv(2) that unfolding control_ok_def by blast
  moreover have "p_usb p \<noteq> UNone" if "p_main p = MJoinUsb"
    using inv(2) that by (simp add: control_ok_def)
  moreover have "p_cam p \<noteq> CWaiting \<and> p_usb p \<noteq> UWaiting" if "p_shutdown p"
    using inv(1) that by (simp add: waits_ok_def)
  ultimately show False
    using cam usb by blast
qed

subsection \<open>Termination after a shutdown request\<close>

text \<open>
  How many steps a thread can still make once shutdown has been requested: a camera thread that has
  just pulled a buffer packs, pushes and measures before it looks at the flag again.
\<close>

primrec cam_rank :: "cam_pc \<Rightarrow> nat" where
  "cam_rank CLoop = 1" | "cam_rank CLock = 1" | "cam_rank CWaiting = 2" | "cam_rank (CHave b) = 5"
| "cam_rank (CPack b) = 4" | "cam_rank (CPush b) = 3" | "cam_rank CMetrics = 2" | "cam_rank (CReturn b) = 2"
| "cam_rank (CFatal b) = 2" | "cam_rank (CFatalReturn b) = 1" | "cam_rank CDone = 0"

primrec usb_rank :: "usb_pc \<Rightarrow> nat" where
  "usb_rank UNone = 0" | "usb_rank ULoop = 1" | "usb_rank ULock = 1" | "usb_rank UWaiting = 2"
| "usb_rank (UHave b) = 3" | "usb_rank (UReturn b) = 2" | "usb_rank (UFatal b) = 2"
| "usb_rank (UFatalReturn b) = 1" | "usb_rank UDone = 0"

primrec main_rank :: "main_pc \<Rightarrow> nat" where
  "main_rank MCreateUsb = 9" | "main_rank MAbort = 3" | "main_rank MAbortJoin = 2" | "main_rank MAbortFree = 1"
| "main_rank MSequential = 0" | "main_rank MMonitor = 7" | "main_rank MPoll = 6" | "main_rank MShutdown = 5"
| "main_rank MCleanup = 4" | "main_rank MJoinCam = 3" | "main_rank MJoinUsb = 2" | "main_rank MFree = 1"
| "main_rank MDone = 0"

definition pipe_rank :: "pipe \<Rightarrow> nat" where
  "pipe_rank p = cam_rank (p_cam p) + usb_rank (p_usb p) + main_rank (p_main p)"

lemma broadcast_id: "p_cam p \<noteq> CWaiting \<Longrightarrow> p_usb p \<noteq> UWaiting \<Longrightarrow> broadcast p = p"
  by (simp add: broadcast_def wake_usb_id wake_cam_id)

lemma cam_step_rank:
  assumes "cam_step p p'" "p_shutdown p" "p_cam p \<noteq> CWaiting" "p_usb p \<noteq> UWaiting"
  shows "pipe_rank p' < pipe_rank p \<and> p_shutdown p'"
  using assms by cases (auto simp: pipe_rank_def broadcast_id dest!: signalled_one)

lemma usb_step_rank:
  assumes "usb_step p p'" "p_shutdown p" "p_cam p \<noteq> CWaiting" "p_usb p \<noteq> UWaiting"
  shows "pipe_rank p' < pipe_rank p \<and> p_shutdown p'"
  using assms by cases (auto simp: pipe_rank_def broadcast_id dest!: signalled_one)

lemma main_step_rank:
  assumes "main_step p p'" "p_shutdown p" "p_cam p \<noteq> CWaiting" "p_usb p \<noteq> UWaiting"
    and "p_main p = MCreateUsb \<Longrightarrow> p_usb p = UNone"
  shows "pipe_rank p' < pipe_rank p \<and> p_shutdown p'"
  using assms by cases (auto simp: pipe_rank_def broadcast_id)

lemma env_step_rank:
  assumes "env_step p p'" "p_shutdown p" "p_cam p \<noteq> CWaiting" "p_usb p \<noteq> UWaiting"
  shows "pipe_rank p' = pipe_rank p \<and> p_shutdown p'"
  using assms by cases (auto simp: pipe_rank_def broadcast_id wake_usb_id wake_cam_id)

lemma thread_rank:
  assumes "pipe_inv bs seq p" "p_shutdown p"
  shows "cam_step p p' \<or> usb_step p p' \<or> main_step p p' \<Longrightarrow> pipe_rank p' < pipe_rank p \<and> p_shutdown p'"
    and "env_step p p' \<or> p' = p \<Longrightarrow> pipe_rank p' = pipe_rank p \<and> p_shutdown p'"
proof -
  have w: "p_cam p \<noteq> CWaiting" "p_usb p \<noteq> UWaiting" and c: "p_main p = MCreateUsb \<Longrightarrow> p_usb p = UNone"
    using assms by (auto simp: pipe_inv_def waits_ok_def control_ok_def)
  show "cam_step p p' \<or> usb_step p p' \<or> main_step p p' \<Longrightarrow> pipe_rank p' < pipe_rank p \<and> p_shutdown p'"
    using cam_step_rank [OF _ assms(2) w] usb_step_rank [OF _ assms(2) w] main_step_rank [OF _ assms(2) w c] by blast
  show "env_step p p' \<or> p' = p \<Longrightarrow> pipe_rank p' = pipe_rank p \<and> p_shutdown p'"
    using env_step_rank [OF _ assms(2) w] assms(2) by blast
qed

lemma pipe_rank_le: "pipe_inv bs seq p \<Longrightarrow> pipe_rank p \<le> 15"
proof -
  assume "pipe_inv bs seq p"
  then have "p_main p = MCreateUsb \<Longrightarrow> p_usb p = UNone"
    by (simp add: pipe_inv_def control_ok_def)
  moreover have "cam_rank (p_cam p) \<le> 5"
    by (cases "p_cam p") simp_all
  moreover have "usb_rank (p_usb p) \<le> 3"
    by (cases "p_usb p") simp_all
  ultimately show ?thesis
    by (cases "p_main p") (simp_all add: pipe_rank_def)
qed

text \<open>A run that counts the steps of the threads, the environment's steps coming in between at will.\<close>

inductive thread_run :: "nat \<Rightarrow> sys \<Rightarrow> sys \<Rightarrow> bool" where
  run_start: "thread_run 0 s s"
| run_thread: "thread_run n s s' \<Longrightarrow> thread_step s' s'' \<Longrightarrow> thread_run (Suc n) s s''"
| run_env: "thread_run n s s' \<Longrightarrow> env_move s' s'' \<Longrightarrow> thread_run n s s''"

lemma thread_run_rank:
  assumes "thread_run n s s'" "refines base blks s p" "pipe_inv (pool base) seq p" "p_shutdown p"
  shows "\<exists>p'. refines base blks s' p' \<and> pipe_inv (pool base) seq p' \<and> p_shutdown p' \<and> n + pipe_rank p' \<le> pipe_rank p"
  using assms
proof (induction rule: thread_run.induct)
  case (run_start s)
  then show ?case
    by auto
next
  case (run_thread n s s' s'')
  then obtain p1 where p1: "refines base blks s' p1" "pipe_inv (pool base) seq p1" "p_shutdown p1"
    "n + pipe_rank p1 \<le> pipe_rank p"
    by blast
  from thread_step_sim [OF p1(1,2) run_thread.hyps(2)] obtain p2 where
    p2: "cam_step p1 p2 \<or> usb_step p1 p2 \<or> main_step p1 p2" "refines base blks s'' p2"
    by blast
  from thread_rank(1) [OF p1(2,3) p2(1)] pipe_step_inv [OF _ p1(2) distinct_upt, of p2] p2 p1(4)
  show ?case
    by (intro exI [of _ p2]) (auto simp: pipe_step_def)
next
  case (run_env n s s' s'')
  then obtain p1 where p1: "refines base blks s' p1" "pipe_inv (pool base) seq p1" "p_shutdown p1"
    "n + pipe_rank p1 \<le> pipe_rank p"
    by blast
  from env_move_sim [OF p1(1) run_env.hyps(2)] obtain p2 where
    p2: "env_step p1 p2 \<or> p2 = p1" "refines base blks s'' p2"
    by blast
  from thread_rank(2) [OF p1(2,3) p2(1)] env_step_inv [of p1 p2 "pool base" seq] p2 p1(2,4)
  show ?case
    by (intro exI [of _ p2]) auto
qed

lemma thread_run_reach: "thread_run n s s' \<Longrightarrow> sys_reach s s'"
proof (induction rule: thread_run.induct)
  case (run_thread n s s' s'')
  then show ?case
    using sys_step_split by (meson rtranclp.rtrancl_into_rtrancl)
next
  case (run_env n s s' s'')
  then show ?case
    using sys_step_split by (meson rtranclp.rtrancl_into_rtrancl)
qed simp

lemma shutdown_completes:
  assumes "refines base blks s p" "pipe_inv (pool base) seq p" "p_shutdown p"
  shows "\<exists>s'. sys_reach s s' \<and> s_main s' \<in> {MSequential, MDone}"
  using assms
proof (induction "pipe_rank p" arbitrary: s p rule: less_induct)
  case less
  show ?case
  proof (cases "s_main s \<in> {MSequential, MDone}")
    case False
    from some_thread_moves [OF less.prems(1,2) this] obtain s1 where s1: "thread_step s s1"
      by blast
    from thread_step_sim [OF less.prems(1,2) this] obtain p1 where
      p1: "cam_step p p1 \<or> usb_step p p1 \<or> main_step p p1" "refines base blks s1 p1"
      by blast
    then have "pipe_inv (pool base) seq p1"
      using pipe_step_inv [OF _ less.prems(2) distinct_upt, of p1] by (auto simp: pipe_step_def)
    with less.hyps [of p1 s1] p1(2) thread_rank(1) [OF less.prems(2,3) p1(1)]
    obtain s' where "sys_reach s1 s'" "s_main s' \<in> {MSequential, MDone}"
      by blast
    moreover have "sys_step s s1"
      using s1 by (simp add: sys_step_split)
    ultimately show ?thesis
      by (meson converse_rtranclp_into_rtranclp)
  qed blast
qed

text \<open>The packets pushed so far, from the numbered frames of the invariant.\<close>

lemma take_numbered: "take k (numbered seq js) = numbered seq (take k js)"
  by (induction js arbitrary: k seq) (auto simp: take_Cons split: nat.split)

lemma length_numbered [simp]: "length (numbered seq js) = length js"
  by (induction js arbitrary: seq) simp_all

lemma numbered_frames_prefix:
  assumes "numbered_frames seq qs nxt" "prefix ps qs"
  shows "\<exists>js. ps = map frame_enc (numbered seq js) \<and> (\<forall>f \<in> set (numbered seq js). frame_valid f)"
proof -
  from assms(1) obtain js where js: "qs = map frame_enc (numbered seq js)" "\<forall>f \<in> set (numbered seq js). frame_valid f"
    by (auto simp: numbered_frames_def)
  have "ps = take (length ps) qs"
    using assms(2) by (auto simp: prefix_def)
  then have "ps = map frame_enc (numbered seq (take (length ps) js))"
    unfolding js(1) by (metis take_map take_numbered)
  moreover have "\<forall>f \<in> set (numbered seq (take (length ps) js)). frame_valid f"
    using js(2) unfolding take_numbered [symmetric] by (meson in_set_takeD)
  ultimately show ?thesis
    by blast
qed

subsection \<open>Invariants of the detailed state: the wire and the error counters\<close>

primrec cam_gives_up :: "cam_pc \<Rightarrow> bool" where
  "cam_gives_up CLoop = False" | "cam_gives_up CLock = False" | "cam_gives_up CWaiting = False"
| "cam_gives_up (CHave b) = False" | "cam_gives_up (CPack b) = False" | "cam_gives_up (CPush b) = False"
| "cam_gives_up CMetrics = False" | "cam_gives_up (CReturn b) = False" | "cam_gives_up (CFatal b) = True"
| "cam_gives_up (CFatalReturn b) = True" | "cam_gives_up CDone = False"

primrec usb_gives_up :: "usb_pc \<Rightarrow> bool" where
  "usb_gives_up UNone = False" | "usb_gives_up ULoop = False" | "usb_gives_up ULock = False"
| "usb_gives_up UWaiting = False" | "usb_gives_up (UHave b) = False" | "usb_gives_up (UReturn b) = False"
| "usb_gives_up (UFatal b) = True" | "usb_gives_up (UFatalReturn b) = True" | "usb_gives_up UDone = False"

definition cam_errors_ok :: "cam_thread \<Rightarrow> bool" where
  "cam_errors_ok t \<longleftrightarrow> ct_error_count t \<le> 3 \<and> (cam_pc t \<noteq> CDone \<longrightarrow> (ct_error_count t = 3 \<longleftrightarrow> cam_gives_up (cam_pc t)))"

definition usb_errors_ok :: "usb_thread \<Rightarrow> bool" where
  "usb_errors_ok t \<longleftrightarrow> ut_error_count t \<le> 10 \<and>
     (usb_pc t \<noteq> UDone \<longrightarrow> ut_error_count t = 10 \<longrightarrow> usb_gives_up (usb_pc t))"

definition wire_ok :: "thread_context \<Rightarrow> int \<Rightarrow> bytes \<Rightarrow> sys \<Rightarrow> bool" where
  "wire_ok ctx fd pre s \<longleftrightarrow> usb_fd (s_tp s) = fd \<and> s_ctx s = ctx \<and>
     (ctx_usb_fd ctx \<noteq> fd \<longrightarrow> written fd (s_trace s) = pre @ concat (map snd (h_sent s)))"

definition run_inv :: "thread_context \<Rightarrow> int \<Rightarrow> bytes \<Rightarrow> sys \<Rightarrow> bool" where
  "run_inv ctx fd pre s \<longleftrightarrow> wire_ok ctx fd pre s \<and> cam_errors_ok (s_cam s) \<and> usb_errors_ok (s_usb s)"

lemma camera_get_frame_silent:
  "camera_get_frame env f m = (ret, f', m', tr) \<Longrightarrow> written fd tr = []"
  by (auto simp: camera_get_frame_def Let_def split: option.splits if_splits prod.splits)

lemma send_metrics_packet_trace:
  "send_metrics_packet now wr c q m = Some (ret, m', tr) \<Longrightarrow> c \<noteq> fd \<Longrightarrow> written fd tr = []"
  by (auto simp: send_metrics_packet_def Let_def split: option.splits sum.splits write_result.splits)

text \<open>Steps that change nothing the invariant reads but the positions.\<close>

lemma run_inv_move:
  assumes "run_inv ctx fd pre s" "s_tp s' = s_tp s" "s_ctx s' = s_ctx s" "s_trace s' = s_trace s" "h_sent s' = h_sent s"
    and "ct_error_count (s_cam s') = ct_error_count (s_cam s)" "ut_error_count (s_usb s') = ut_error_count (s_usb s)"
    and "cam_pc (s_cam s') \<noteq> CDone \<longrightarrow> cam_pc (s_cam s) \<noteq> CDone \<and>
      cam_gives_up (cam_pc (s_cam s')) = cam_gives_up (cam_pc (s_cam s))"
    and "usb_pc (s_usb s') \<noteq> UDone \<longrightarrow> usb_pc (s_usb s) \<noteq> UDone \<and>
      usb_gives_up (usb_pc (s_usb s')) = usb_gives_up (usb_pc (s_usb s))"
  shows "run_inv ctx fd pre s'"
  using assms by (simp add: run_inv_def wire_ok_def cam_errors_ok_def usb_errors_ok_def)

lemma wake_fields_sys:
  "s_tp (wake_cam_thread s) = s_tp s" "s_ctx (wake_cam_thread s) = s_ctx s" "s_trace (wake_cam_thread s) = s_trace s"
  "h_sent (wake_cam_thread s) = h_sent s" "s_usb (wake_cam_thread s) = s_usb s"
  "ct_error_count (s_cam (wake_cam_thread s)) = ct_error_count (s_cam s)"
  "cam_pc (s_cam (wake_cam_thread s)) = (if cam_pc (s_cam s) = CWaiting then CLock else cam_pc (s_cam s))"
  "s_tp (wake_usb_thread s) = s_tp s" "s_ctx (wake_usb_thread s) = s_ctx s" "s_trace (wake_usb_thread s) = s_trace s"
  "h_sent (wake_usb_thread s) = h_sent s" "s_cam (wake_usb_thread s) = s_cam s"
  "ut_error_count (s_usb (wake_usb_thread s)) = ut_error_count (s_usb s)"
  "usb_pc (s_usb (wake_usb_thread s)) = (if usb_pc (s_usb s) = UWaiting then ULock else usb_pc (s_usb s))"
  by (simp_all add: wake_cam_thread_def wake_usb_thread_def)

lemma run_inv_wake:
  assumes "run_inv ctx fd pre s"
  shows "run_inv ctx fd pre (wake_cam_thread s)" "run_inv ctx fd pre (wake_usb_thread s)"
  by (rule run_inv_move [OF assms]; simp add: wake_fields_sys)+

lemma run_inv_signal:
  assumes "run_inv ctx fd pre s"
  shows "run_inv ctx fd pre (cond_signal first s)" "run_inv ctx fd pre (cond_broadcast s)"
  using assms by (simp_all add: cond_signal_def cond_broadcast_def run_inv_wake)

lemma run_inv_shutdown: "run_inv ctx fd pre s \<Longrightarrow> run_inv ctx fd pre (request_shutdown s)"
  unfolding request_shutdown_def by (rule run_inv_signal) (erule run_inv_move, simp_all)

lemma push_fields:
  "push_empty b s = Next s' \<Longrightarrow> \<exists>q. s' = s\<lparr>s_fq := q\<rparr>"
  "push_action b s = Next s' \<Longrightarrow> \<exists>q. s' = s\<lparr>s_fq := q\<rparr>"
  by (auto simp: push_empty_def push_action_def split: option.splits prod.splits)

lemma critical_Next: "critical s r = Next s' \<Longrightarrow> r = Next s'"
  by (simp add: critical_def split: if_splits)

lemma and_then_Next: "and_then r f = Next y \<longleftrightarrow> (\<exists>x. r = Next x \<and> f x = Next y)"
  by (cases r) auto

lemma inc_below_u32:
  assumes "(c :: u32) \<le> k" "c \<noteq> k"
  shows "c + 1 \<le> k"
proof -
  have "unat c < unat k"
    using assms by (metis order_le_less word_less_nat_alt)
  moreover have "unat k < 2 ^ 32"
    using unsigned_less [of k] by simp
  ultimately show ?thesis
    using unat_inc_u32 [of c] by (simp add: word_le_nat_alt)
qed

lemma run_inv_goto:
  assumes "run_inv ctx fd pre s" "cam_pc (s_cam s) \<noteq> CDone" "pc \<noteq> CDone \<longrightarrow> cam_gives_up pc = cam_gives_up (cam_pc (s_cam s))"
  shows "run_inv ctx fd pre (cam_goto pc s)"
  by (rule run_inv_move [OF assms(1)]) (use assms(2,3) in \<open>simp_all add: cam_goto_def\<close>)

lemma run_inv_usb_goto:
  assumes "run_inv ctx fd pre s" "usb_pc (s_usb s) \<noteq> UDone" "pc \<noteq> UDone \<longrightarrow> usb_gives_up pc = usb_gives_up (usb_pc (s_usb s))"
  shows "run_inv ctx fd pre (usb_goto pc s)"
  by (rule run_inv_move [OF assms(1)]) (use assms(2,3) in \<open>simp_all add: usb_goto_def\<close>)

lemma run_inv_fq: "run_inv ctx fd pre s \<Longrightarrow> run_inv ctx fd pre (s\<lparr>s_fq := q\<rparr>)"
  by (erule run_inv_move) simp_all

lemma cam_capture_inv:
  assumes "cam_capture_frame inp b s = Next s'" "run_inv ctx fd pre s" "cam_pc (s_cam s) = CHave b"
  shows "run_inv ctx fd pre s'"
proof -
  obtain ret frame mgr tr where get: "camera_get_frame (ci_frame inp) (Some (ct_frame (s_cam s))) (s_mgr s)
      = (ret, frame, mgr, tr)"
    by (cases "camera_get_frame (ci_frame inp) (Some (ct_frame (s_cam s))) (s_mgr s)")
  note silent = camera_get_frame_silent [OF get, of fd]
  have e: "ct_error_count (s_cam s) \<le> 3" "ct_error_count (s_cam s) \<noteq> 3"
    using assms(2,3) by (simp_all add: run_inv_def cam_errors_ok_def)
  note inc = inc_below_u32 [OF e]
  have keep: "run_inv ctx fd pre t" if "s_tp t = s_tp s" "s_ctx t = s_ctx s" "s_trace t = s_trace s @ tr" "h_sent t = h_sent s"
    "s_usb t = s_usb s" "cam_errors_ok (s_cam t)" for t
    using assms(2) silent that by (simp add: run_inv_def wire_ok_def)
  show ?thesis
    using assms(1) e inc unfolding cam_capture_frame_def get prod.case Let_def
    by (auto simp: cam_goto_def cam_count_error_def cam_errors_ok_def intro!: keep split: if_splits)
qed

lemma cam_pack_inv:
  assumes "cam_pack_frame inp b s = Next s'" "run_inv ctx fd pre s" "cam_pc (s_cam s) = CPack b"
  shows "run_inv ctx fd pre s'"
proof (rule run_inv_move [OF assms(2)])
  show "s_tp s' = s_tp s" "s_ctx s' = s_ctx s" "s_trace s' = s_trace s" "h_sent s' = h_sent s"
    "ct_error_count (s_cam s') = ct_error_count (s_cam s)" "ut_error_count (s_usb s') = ut_error_count (s_usb s)"
    "cam_pc (s_cam s') \<noteq> CDone \<longrightarrow> cam_pc (s_cam s) \<noteq> CDone \<and>
      cam_gives_up (cam_pc (s_cam s')) = cam_gives_up (cam_pc (s_cam s))"
    "usb_pc (s_usb s') \<noteq> UDone \<longrightarrow> usb_pc (s_usb s) \<noteq> UDone \<and>
      usb_gives_up (usb_pc (s_usb s')) = usb_gives_up (usb_pc (s_usb s))"
    using assms(1,3) unfolding cam_pack_frame_def Let_def
    by (auto simp: cam_goto_def cam_count_invalid_def split: option.splits sum.splits prod.splits)
qed

lemma cam_push_inv:
  assumes "cam_push_filled inp b s = Next s'" "run_inv ctx fd pre s" "cam_pc (s_cam s) = CPush b"
  shows "run_inv ctx fd pre s'"
proof -
  let ?s = "s\<lparr>h_packed := h_packed s @ [buffer_bytes (s_fq s) b]\<rparr>"
  obtain s1 where s1: "push_action b ?s = Next s1" and stats: "cam_stats ((cond_signal (ci_first_cam inp) (cam_goto CMetrics s1))
      \<lparr>s_cam := (s_cam (cond_signal (ci_first_cam inp) (cam_goto CMetrics s1)))
        \<lparr>ct_frame_count := ct_frame_count (s_cam (cond_signal (ci_first_cam inp) (cam_goto CMetrics s1))) + 1\<rparr>\<rparr>) = Next s'"
    using critical_Next [OF assms(1) [unfolded cam_push_filled_def]] by (auto simp: and_then_Next Let_def)
  obtain q where q: "s1 = ?s\<lparr>s_fq := q\<rparr>"
    using push_fields(2) [OF s1] by blast
  have "run_inv ctx fd pre ?s"
    by (rule run_inv_move [OF assms(2)]) simp_all
  then have "run_inv ctx fd pre (cond_signal (ci_first_cam inp) (cam_goto CMetrics s1))"
    using assms(3) unfolding q by (intro run_inv_signal run_inv_goto run_inv_fq) simp_all
  then have "run_inv ctx fd pre ((cond_signal (ci_first_cam inp) (cam_goto CMetrics s1))
      \<lparr>s_cam := (s_cam (cond_signal (ci_first_cam inp) (cam_goto CMetrics s1)))
        \<lparr>ct_frame_count := ct_frame_count (s_cam (cond_signal (ci_first_cam inp) (cam_goto CMetrics s1))) + 1\<rparr>\<rparr>)"
    by (rule run_inv_move) simp_all
  with stats show ?thesis
    by (auto simp: cam_stats_def split: if_splits option.splits)
qed

lemma cam_metrics_inv:
  assumes "cam_send_metrics inp s = Next s'" "run_inv ctx fd pre s" "cam_pc (s_cam s) = CMetrics"
  shows "run_inv ctx fd pre s'"
proof (cases "METRICS_INTERVAL_MS \<le> unat (elapsed_ms (ci_now inp) (g_last_metrics_time (s_metrics s)))")
  case True
  with assms(1) obtain ret m tr where r: "send_metrics_packet (ci_uptime inp) (ci_write inp) (ctx_usb_fd (s_ctx s))
      (s_fq s) (s_metrics s) = Some (ret, m, tr)"
    and s': "s' = cam_goto CLoop (s\<lparr>s_metrics := m\<lparr>g_last_metrics_time := ci_now inp\<rparr>, s_trace := s_trace s @ tr\<rparr>)"
    by (auto simp: cam_send_metrics_def split: option.splits)
  from send_metrics_packet_trace [OF r, of fd]
  have "run_inv ctx fd pre (s\<lparr>s_metrics := m\<lparr>g_last_metrics_time := ci_now inp\<rparr>, s_trace := s_trace s @ tr\<rparr>)"
    using assms(2) by (simp add: run_inv_def wire_ok_def)
  then show ?thesis
    unfolding s' by (rule run_inv_goto) (simp_all add: assms(3))
next
  case False
  with assms show ?thesis
    by (auto simp: cam_send_metrics_def intro!: run_inv_goto)
qed

lemma push_empty_inv: "push_empty b s = Next s' \<Longrightarrow> run_inv ctx fd pre s \<Longrightarrow>
    run_inv ctx fd pre s' \<and> s_cam s' = s_cam s \<and> s_usb s' = s_usb s"
  using push_fields(1) [of b s s'] by (auto simp: run_inv_fq)

lemma camera_thread_inv:
  assumes "camera_thread_func inp s = Next s'" "run_inv ctx fd pre s"
  shows "run_inv ctx fd pre s'"
proof (cases "cam_pc (s_cam s)")
  case CLoop
  with assms show ?thesis
    by (auto simp: camera_thread_func_def intro!: run_inv_goto split: if_splits)
next
  case CLock
  then have "run_inv ctx fd pre (cam_goto pc (s\<lparr>s_fq := q\<rparr>))" "run_inv ctx fd pre (cam_goto pc s)"
    if "pc = CDone \<or> \<not> cam_gives_up pc" for pc q
    using that by (auto intro!: run_inv_goto run_inv_fq assms(2))
  with CLock assms(1) show ?thesis
    by (auto simp: camera_thread_func_def cam_acquire_def Let_def dest!: critical_Next
        split: option.splits prod.splits if_splits)
next
  case (CHave b)
  with assms cam_capture_inv show ?thesis
    by (simp add: camera_thread_func_def)
next
  case (CPack b)
  with assms cam_pack_inv show ?thesis
    by (simp add: camera_thread_func_def)
next
  case (CPush b)
  with assms cam_push_inv show ?thesis
    by (simp add: camera_thread_func_def)
next
  case CMetrics
  with assms cam_metrics_inv show ?thesis
    by (simp add: camera_thread_func_def)
next
  case (CReturn b)
  with assms push_empty_inv [of b s _ ctx fd pre] show ?thesis
    by (auto simp: camera_thread_func_def and_then_Next dest!: critical_Next intro!: run_inv_goto)
next
  case (CFatal b)
  with assms show ?thesis
    by (auto simp: camera_thread_func_def dest!: critical_Next intro!: run_inv_shutdown run_inv_goto)
next
  case (CFatalReturn b)
  with assms push_empty_inv [of b s _ ctx fd pre] show ?thesis
    by (auto simp: camera_thread_func_def and_then_Next dest!: critical_Next intro!: run_inv_goto)
qed (use assms in \<open>simp_all add: camera_thread_func_def\<close>)

lemma usb_send_inv:
  assumes "usb_send_buffer inp b s = Next s'" "run_inv ctx fd pre s" "usb_pc (s_usb s) = UHave b"
  shows "run_inv ctx fd pre s'"
proof -
  obtain fb data where fb: "fq_heap (s_fq s) b = Some fb" "buffer_block (s_fq s) fb = Some data"
    using assms(1) by (auto simp: usb_send_buffer_def split: option.splits)
  obtain ret tp tr where send: "usb_transport_send_bytes (ui_write inp) data (unat (fb_used fb)) (s_tp s) = (ret, tp, tr)"
    by (cases "usb_transport_send_bytes (ui_write inp) data (unat (fb_used fb)) (s_tp s)")
  have fd: "usb_fd tp = fd" "usb_fd (s_tp s) = fd"
    using usb_send_bytes_fd [OF send] assms(2) by (simp_all add: run_inv_def wire_ok_def)
  have e: "ut_error_count (s_usb s) \<le> 10" "ut_error_count (s_usb s) \<noteq> 10"
    using assms(2,3) by (auto simp: run_inv_def usb_errors_ok_def)
  note inc = inc_below_u32 [OF e]
  let ?sent = "h_sent s @ [(buffer_bytes (s_fq s) b, written (usb_fd (s_tp s)) tr)]"
  have keep: "run_inv ctx fd pre t" if "s_tp t = tp" "s_ctx t = s_ctx s" "s_trace t = s_trace s @ tr" "h_sent t = ?sent"
    "s_cam t = s_cam s" "usb_errors_ok (s_usb t)" for t
    using assms(2) fd that by (simp add: run_inv_def wire_ok_def)
  show ?thesis
    using assms(1) e inc unfolding usb_send_buffer_def fb option.case send prod.case Let_def
    by (auto simp: usb_goto_def usb_count_sent_def usb_errors_ok_def intro!: keep split: if_splits)
qed

lemma usb_thread_inv:
  assumes "usb_thread_func inp s = Next s'" "run_inv ctx fd pre s"
  shows "run_inv ctx fd pre s'"
proof (cases "usb_pc (s_usb s)")
  case ULoop
  with assms show ?thesis
    by (auto simp: usb_thread_func_def intro!: run_inv_usb_goto split: if_splits)
next
  case ULock
  then have "run_inv ctx fd pre (usb_goto pc (s\<lparr>s_fq := q\<rparr>))" "run_inv ctx fd pre (usb_goto pc s)"
    if "pc = UDone \<or> \<not> usb_gives_up pc" for pc q
    using that by (auto intro!: run_inv_usb_goto run_inv_fq assms(2))
  with ULock assms(1) show ?thesis
    by (auto simp: usb_thread_func_def usb_acquire_def Let_def dest!: critical_Next
        split: option.splits prod.splits if_splits)
next
  case (UHave b)
  with assms usb_send_inv show ?thesis
    by (simp add: usb_thread_func_def)
next
  case (UReturn b)
  with assms push_empty_inv [of b s _ ctx fd pre] show ?thesis
    by (auto simp: usb_thread_func_def and_then_Next dest!: critical_Next intro!: run_inv_signal run_inv_usb_goto)
next
  case (UFatal b)
  with assms show ?thesis
    by (auto simp: usb_thread_func_def dest!: critical_Next intro!: run_inv_shutdown run_inv_usb_goto)
next
  case (UFatalReturn b)
  with assms push_empty_inv [of b s _ ctx fd pre] show ?thesis
    by (auto simp: usb_thread_func_def and_then_Next dest!: critical_Next intro!: run_inv_usb_goto)
qed (use assms in \<open>simp_all add: usb_thread_func_def\<close>)

lemma run_inv_main:
  assumes "run_inv ctx fd pre s"
  shows "run_inv ctx fd pre (s\<lparr>s_main := m\<rparr>)" "run_inv ctx fd pre (s\<lparr>s_running := r, s_main := m\<rparr>)"
    "run_inv ctx fd pre (s\<lparr>s_running := r\<rparr>)" "run_inv ctx fd pre (s\<lparr>s_fq := q, s_main := m\<rparr>)"
    "run_inv ctx fd pre (s\<lparr>s_usb := fresh_usb_thread, s_main := m\<rparr>)"
  using assms by (simp_all add: run_inv_def wire_ok_def usb_errors_ok_def fresh_usb_thread_def)

lemma main_thread_inv:
  assumes "main_thread_step create s = Next s'" "run_inv ctx fd pre s"
  shows "run_inv ctx fd pre s'"
proof -
  have stop: "run_inv ctx fd pre (request_shutdown (s\<lparr>s_main := m\<rparr>))" for m
    by (intro run_inv_shutdown run_inv_main assms(2))
  have cleanup: "run_inv ctx fd pre (cond_broadcast (s\<lparr>s_fq := q, s_main := m\<rparr>))"
    "run_inv ctx fd pre (cond_broadcast (s\<lparr>s_main := m\<rparr>))" for q m
    by (intro run_inv_signal run_inv_main assms(2))+
  show ?thesis
    using assms(1) stop cleanup run_inv_main [OF assms(2)]
    by (cases "s_main s")
      (auto simp: main_thread_step_def dest!: critical_Next split: option.splits if_splits)
qed

lemma sys_step_run_inv:
  assumes "sys_step s s'" "run_inv ctx fd pre s"
  shows "run_inv ctx fd pre s'"
  using assms
proof (cases rule: sys_step.cases)
  case (signal signo)
  with assms(2) show ?thesis
    by (auto simp: signal_handler_def Let_def dest!: critical_Next intro!: run_inv_shutdown run_inv_main split: if_splits)
next
  case (camera inp)
  with assms(2) show ?thesis
    using camera_thread_inv by blast
next
  case (usb inp)
  with assms(2) show ?thesis
    using usb_thread_inv by blast
next
  case (main create)
  with assms(2) show ?thesis
    using main_thread_inv by blast
qed (simp_all add: run_inv_wake assms(2))

lemma reach_run_inv: "sys_reach s1 s \<Longrightarrow> run_inv ctx fd pre s1 \<Longrightarrow> run_inv ctx fd pre s"
  by (induction rule: rtranclp_induct) (auto intro: sys_step_run_inv)

lemma launched_run_inv:
  assumes "launched inp c s0 base s1"
  shows "run_inv c (usb_fd (s_tp s0)) (written (usb_fd (s_tp s0)) (s_trace s0)) s1"
proof -
  from assms obtain f where l: "launch_ok inp c s0 base" and r: "camera_threads_init inp f (Some c) s0 = Next (0, s1)"
    by (auto simp: launched_def)
  have "init_succeeds inp"
    using init_failure [OF l, of f] r by force
  from init_success [OF l this, of f] r l show ?thesis
    by (auto simp: run_inv_def wire_ok_def cam_errors_ok_def usb_errors_ok_def fresh_cam_thread_def
        fresh_usb_thread_def launch_ok_def)
qed

subsection \<open>The metrics interval\<close>

lemma uint_u64_nonneg: "0 \<le> x \<Longrightarrow> x < 2 ^ 64 \<Longrightarrow> uint (of_int x :: u64) = x"
  by (simp add: uint_word_of_int_eq take_bit_int_eq_self)

lemma uint_u64_neg: "x < 0 \<Longrightarrow> - (2 ^ 64) \<le> x \<Longrightarrow> uint (of_int x :: u64) = 2 ^ 64 + x"
proof -
  assume x: "x < 0" "- (2 ^ 64) \<le> x"
  have "uint (of_int x :: u64) = x mod 2 ^ 64"
    by (simp add: uint_word_of_int_eq take_bit_eq_mod)
  also have "\<dots> = (2 ^ 64 + x) mod 2 ^ 64"
    by simp
  also have "\<dots> = 2 ^ 64 + x"
    using x by (intro mod_pos_pos_trivial) simp_all
  finally show ?thesis .
qed

lemma elapsed_ms_uint:
  assumes "tv_sec start \<le> tv_sec now" "tv_sec now - tv_sec start < 2 ^ 32"
    and "0 \<le> tv_nsec start" "tv_nsec start < 1000000000" "0 \<le> tv_nsec now" "tv_nsec now < 1000000000"
  shows "uint (elapsed_ms now start) = (tv_sec now - tv_sec start) * 1000 +
    (if tv_nsec start \<le> tv_nsec now then tv_nsec now - tv_nsec start
     else 2 ^ 64 + (tv_nsec now - tv_nsec start)) div 1000000"
proof -
  let ?s = "tv_sec now - tv_sec start"
  let ?n = "tv_nsec now - tv_nsec start"
  have s: "0 \<le> ?s * 1000" "?s * 1000 < 4294967296000"
    using assms(1,2) by simp_all
  then have us: "uint (of_int (?s * 1000) :: u64) = ?s * 1000"
    by (intro uint_u64_nonneg) simp_all
  have n: "uint (of_int ?n :: u64) = (if tv_nsec start \<le> tv_nsec now then ?n else 2 ^ 64 + ?n)"
    using assms(3-6) uint_u64_nonneg [of ?n] uint_u64_neg [of ?n] by simp
  have d: "uint (of_int ?n div 1000000 :: u64) = (if tv_nsec start \<le> tv_nsec now then ?n else 2 ^ 64 + ?n) div 1000000"
    unfolding uint_div n by simp
  have "(if tv_nsec start \<le> tv_nsec now then ?n else 2 ^ 64 + ?n) div 1000000 \<le> 18446744073710"
    "0 \<le> (if tv_nsec start \<le> tv_nsec now then ?n else 2 ^ 64 + ?n) div 1000000"
    using assms(3-6) by auto
  moreover have "elapsed_ms now start = of_int (?s * 1000) + of_int ?n div 1000000"
    by (simp add: elapsed_ms_def)
  then have "uint (elapsed_ms now start) = (?s * 1000 + (if tv_nsec start \<le> tv_nsec now then ?n else 2 ^ 64 + ?n) div 1000000) mod 2 ^ 64"
    by (simp only: uint_word_ariths us d) simp
  moreover have "(a + b) mod 2 ^ 64 = a + b" if "0 \<le> a" "a < 4294967296000" "0 \<le> b" "b \<le> 18446744073710" for a b :: int
    using that by (intro mod_pos_pos_trivial) simp_all
  ultimately show ?thesis
    using s by (simp only:)
qed

end
