(* ===== verification/ThreadProperties.thy ===== *)
theory ThreadProperties
  imports ThreadInvariants
begin

section \<open>Properties of the running threads\<close>

text \<open>
  The properties of the threading system from a successful \<open>camera_threads_init\<close> on, for every
  interleaving and every admissible answer of the devices, each with a witness on a concrete start.
\<close>

subsection \<open>A concrete start\<close>

definition sample_start :: sys where
  "sample_start = \<lparr>s_fq = sample_fq\<lparr>g_queue_mutex_ready := False, g_queue_cond_ready := False\<rparr>,
     s_cam = fresh_cam_thread \<lparr>frm_buf = 0, frm_size = 0, frm_timestamp_us = 0, frm_num = 0\<rparr>,
     s_usb = fresh_usb_thread, s_main = MCreateUsb, s_running = True,
     s_ctx = \<lparr>ctx_camera_fd = 0, ctx_usb_fd = 0, ctx_buffer_count = 0, ctx_packet_buffer_size = 0\<rparr>,
     s_seq = 0, s_mgr = camera_zero, s_tp = usb_zero\<lparr>usb_fd := 5, connected := True\<rparr>,
     s_metrics = \<lparr>g_metrics_sequence = 0, g_total_camera_frames = 0, g_total_usb_packets = 0,
       g_total_packet_bytes = 0, g_total_errors = 0, g_start_time = \<lparr>tv_sec = 0, tv_nsec = 0\<rparr>,
       g_last_metrics_time = \<lparr>tv_sec = 0, tv_nsec = 0\<rparr>\<rparr>,
     s_trace = [], h_packed = [], h_sent = []\<rparr>"

definition sample_frame :: camera_frame where
  "sample_frame = \<lparr>frm_buf = 0, frm_size = 0, frm_timestamp_us = 0, frm_num = 0\<rparr>"

definition sample_ctx :: thread_context where
  "sample_ctx = \<lparr>ctx_camera_fd = 0, ctx_usb_fd = 0, ctx_buffer_count = 0,
     ctx_packet_buffer_size = of_nat MJPEG_MAX_PACKET_SIZE\<rparr>"

definition sample_init :: init_input where
  "sample_init = \<lparr>ii_now = \<lparr>tv_sec = 3, tv_nsec = 0\<rparr>, ii_attr = 0, ii_proto = 0, ii_mutex = 0, ii_cond = 0,
     ii_pool = Some 7, ii_align = (\<lambda>i. Some (100 + i, replicate MJPEG_MAX_PACKET_SIZE 0)), ii_create_cam = 0\<rparr>"

lemma sample_launch_ok: "launch_ok (sample_init\<lparr>ii_create_cam := r\<rparr>) sample_ctx sample_start 7 \<longleftrightarrow> 0 \<le> r"
  and sample_succeeds: "init_succeeds (sample_init\<lparr>ii_create_cam := r\<rparr>) \<longleftrightarrow> r = 0"
proof -
  have "unat (of_nat MJPEG_MAX_PACKET_SIZE :: u32) = MJPEG_MAX_PACKET_SIZE"
    by (rule unat_of_nat_u32) (simp add: mjpeg_consts)
  then show "launch_ok (sample_init\<lparr>ii_create_cam := r\<rparr>) sample_ctx sample_start 7 \<longleftrightarrow> 0 \<le> r"
    by (simp add: launch_ok_def sample_init_def sample_ctx_def sample_start_def sample_fq_def fresh_memory_def)
  show "init_succeeds (sample_init\<lparr>ii_create_cam := r\<rparr>) \<longleftrightarrow> r = 0"
    by (simp add: init_succeeds_def sample_init_def)
qed

lemma sample_init_id: "sample_init\<lparr>ii_create_cam := 0\<rparr> = sample_init"
  by (simp add: sample_init_def)

text \<open>The sample system is launched, and a signal then takes it to a state where shutdown is requested.\<close>

lemma sample_launched:
  "\<exists>s1 s2. launched sample_init sample_ctx sample_start 7 s1 \<and> sys_reach s1 s2 \<and>
    g_shutdown_requested (s_fq s2) \<and> s_main s2 = MCreateUsb \<and> ct_frame (s_cam s2) = \<lparr>frm_buf = 0, frm_size = 0, frm_timestamp_us = 0, frm_num = 0\<rparr>"
proof -
  let ?f = "\<lparr>frm_buf = 0, frm_size = 0, frm_timestamp_us = 0, frm_num = 0\<rparr> :: camera_frame"
  have ok: "launch_ok sample_init sample_ctx sample_start 7" "init_succeeds sample_init"
    using sample_launch_ok [of 0] sample_succeeds [of 0] by (simp_all add: sample_init_id)
  from init_success [OF this, of ?f] obtain s1 where
    s1: "camera_threads_init sample_init ?f (Some sample_ctx) sample_start = Next (0, s1)"
      "s_main s1 = MCreateUsb" "s_cam s1 = fresh_cam_thread ?f"
    by auto
  then have l: "launched sample_init sample_ctx sample_start 7 s1"
    using ok(1) by (auto simp: launched_def)
  from launch_refines [OF l] obtain p where "refines 7 (block_addrs (ii_align sample_init) 3) s1 p"
    by blast
  moreover have "p_main p \<notin> {MSequential, MDone}"
    using calculation s1(2) by (simp add: refines_def)
  moreover have "refines 7 (block_addrs (ii_align sample_init) 3) (s1\<lparr>s_running := False\<rparr>) (p\<lparr>p_running := False\<rparr>)"
    using calculation(1) by (simp add: refines_def)
  ultimately have h: "signal_handler SIGINT s1 = Next (request_shutdown (s1\<lparr>s_running := False\<rparr>))"
    using critical_working [of 7 _ "s1\<lparr>s_running := False\<rparr>"] by (simp add: signal_handler_def Let_def)
  have "sys_step s1 (request_shutdown (s1\<lparr>s_running := False\<rparr>))"
    by (rule signal [OF _ h]) (simp add: s1(2))
  moreover have "g_shutdown_requested (s_fq (request_shutdown (s1\<lparr>s_running := False\<rparr>)))"
    "s_main (request_shutdown (s1\<lparr>s_running := False\<rparr>)) = MCreateUsb"
    "ct_frame (s_cam (request_shutdown (s1\<lparr>s_running := False\<rparr>))) = ?f"
    using s1(2,3) by (simp_all add: request_shutdown_def cond_broadcast_def wake_cam_thread_def wake_usb_thread_def
        fresh_cam_thread_def)
  ultimately show ?thesis
    using l by blast
qed

subsection \<open>Safety\<close>

text \<open>C1: memory safety of the threads. In every state the system can reach from a successful
  \<open>camera_threads_init\<close>, whatever the devices answer and however the threads interleave, the next
  step of the camera thread, of the USB thread and of the main thread touches no unallocated
  structure or block, walks no broken list and locks no missing mutex; nor does a signal handler that
  runs while the threading system is up.\<close>

theorem threads_never_fault:
  assumes "launched inp c s0 base s1" "sys_reach s1 s"
    and "unat (frm_size (ct_frame (s_cam s))) \<le> length (ci_mem ci)" "write_contract (ui_write ui)"
  shows "camera_thread_func ci s \<noteq> Fault \<and> usb_thread_func ui s \<noteq> Fault \<and> main_thread_step create s \<noteq> Fault \<and>
    (s_main s \<notin> {MSequential, MDone} \<longrightarrow> signal_handler signo s \<noteq> Fault)"
proof -
  from reach_refines [OF assms(1,2)] obtain p where
    p: "refines base (block_addrs (ii_align inp) 3) s p" "pipe_inv (pool base) (s_seq s0) p"
    by blast
  show ?thesis
    using camera_thread_sim [OF p assms(3)] usb_thread_sim [OF p assms(4)] main_thread_sim [OF p]
      signal_sim [OF p(1)] by (metis simulated_no_fault outcome.distinct(5))
qed

theorem threads_never_fault_witness:
  "\<exists>s1 s. launched sample_init sample_ctx sample_start 7 s1 \<and> sys_reach s1 s \<and>
    camera_thread_func \<lparr>ci_frame = undefined, ci_mem = [], ci_now = undefined, ci_uptime = undefined,
      ci_write = Wrote 0, ci_first_cam = True\<rparr> s \<noteq> Fault \<and>
    usb_thread_func \<lparr>ui_write = \<lambda>k r. Wrote r, ui_first_cam = True\<rparr> s \<noteq> Fault \<and> main_thread_step 0 s \<noteq> Fault"
proof -
  from sample_launched obtain s1 s where s: "launched sample_init sample_ctx sample_start 7 s1" "sys_reach s1 s"
    "ct_frame (s_cam s) = \<lparr>frm_buf = 0, frm_size = 0, frm_timestamp_us = 0, frm_num = 0\<rparr>"
    by blast
  show ?thesis
    using s threads_never_fault [OF s(1,2), of "\<lparr>ci_frame = undefined, ci_mem = [], ci_now = undefined,
      ci_uptime = undefined, ci_write = Wrote 0, ci_first_cam = True\<rparr>" "\<lparr>ui_write = \<lambda>k r. Wrote r, ui_first_cam = True\<rparr>" 0 SIGINT]
    by (intro exI [of _ s1] exI [of _ s]) (simp add: write_contract_def)
qed

text \<open>C5: ownership. At every reachable moment each of the three buffers is in exactly one place: the
  empty queue, the action queue, the camera thread or the USB thread; and once the main thread has
  cleaned up, both threads have ended and every structure and block of the pool has been given back.\<close>

theorem buffers_owned_once:
  assumes "launched inp c s0 base s1" "sys_reach s1 s"
  shows "if s_main s \<in> {MSequential, MDone}
    then cam_pc (s_cam s) = CDone \<and> usb_pc (s_usb s) \<in> {UNone, UDone} \<and>
      freed base (block_addrs (ii_align inp) 3) (s_fq s)
    else \<exists>es as. is_queue (fq_heap (s_fq s)) (g_empty_queue (s_fq s)) es \<and>
      is_queue (fq_heap (s_fq s)) (g_action_queue (s_fq s)) as \<and>
      mset (es @ as @ cam_holds (cam_pc (s_cam s)) @ usb_holds (usb_pc (s_usb s))) = mset [base..<base + 3] \<and>
      pool_owns (s_fq s) base (block_addrs (ii_align inp) 3)"
proof -
  from reach_refines [OF assms] obtain p where
    p: "refines base (block_addrs (ii_align inp) 3) s p" "owned (pool base) p"
    by (auto simp: pipe_inv_def)
  show ?thesis
  proof (cases "s_main s \<in> {MSequential, MDone}")
    case True
    with p show ?thesis
      by (auto simp: refines_def owned_def)
  next
    case False
    with p have "p_main p \<notin> {MSequential, MDone}" "p_cam p = cam_pc (s_cam s)" "p_usb p = usb_pc (s_usb s)"
      by (simp_all add: refines_def)
    with p refines_rep(1) [OF p(1)] False show ?thesis
      by (simp only: if_False owned_def queues_rep_def) metis
  qed
qed

theorem buffers_owned_once_witness:
  "\<exists>s1 s. launched sample_init sample_ctx sample_start 7 s1 \<and> sys_reach s1 s \<and>
    (if s_main s \<in> {MSequential, MDone}
     then cam_pc (s_cam s) = CDone \<and> usb_pc (s_usb s) \<in> {UNone, UDone} \<and> freed 7 [100, 101, 102] (s_fq s)
     else \<exists>es as. is_queue (fq_heap (s_fq s)) (g_empty_queue (s_fq s)) es \<and>
      is_queue (fq_heap (s_fq s)) (g_action_queue (s_fq s)) as \<and>
      mset (es @ as @ cam_holds (cam_pc (s_cam s)) @ usb_holds (usb_pc (s_usb s))) = mset [7..<7 + 3] \<and>
      pool_owns (s_fq s) 7 [100, 101, 102])"
proof -
  from sample_launched obtain s1 s where s: "launched sample_init sample_ctx sample_start 7 s1" "sys_reach s1 s"
    by blast
  have "block_addrs (ii_align sample_init) 3 = [100, 101, 102]"
    by (simp add: block_addrs_def sample_init_def upt_rec numeral_eq_Suc)
  note owned = buffers_owned_once [OF s, unfolded this]
  show ?thesis
    by (intro exI [of _ s1] exI [of _ s] conjI s owned)
qed

text \<open>C6: well-formedness of the shared buffers. At every reachable moment before clean-up, each buffer of
  the pool is an allocated structure that points to an allocated block of the packet size, says so in
  its length, and does not use more than that, whichever thread or queue has it.\<close>

theorem buffers_well_formed:
  assumes "launched inp c s0 base s1" "sys_reach s1 s" "s_main s \<notin> {MSequential, MDone}" "b \<in> {base..<base + 3}"
  shows "\<exists>fb a bs. fq_heap (s_fq s) b = Some fb \<and> fb_data fb = Some a \<and> fq_blocks (s_fq s) a = Some bs \<and>
    length bs = MJPEG_MAX_PACKET_SIZE \<and> unat (fb_length fb) = MJPEG_MAX_PACKET_SIZE \<and>
    unat (fb_used fb) \<le> MJPEG_MAX_PACKET_SIZE"
proof -
  from reach_refines [OF assms(1,2)] obtain p where p: "refines base (block_addrs (ii_align inp) 3) s p"
    by blast
  with assms(3) have "p_main p \<notin> {MSequential, MDone}"
    by (simp add: refines_def)
  from refines_rep(1) [OF p this] assms(4) have "pool_buffer (s_fq s) b"
    by (simp add: queues_rep_def)
  then show ?thesis
    by (simp only: pool_buffer_def)
qed

theorem buffers_well_formed_witness:
  "\<exists>s1 s fb a bs. launched sample_init sample_ctx sample_start 7 s1 \<and> sys_reach s1 s \<and>
    fq_heap (s_fq s) 8 = Some fb \<and> fb_data fb = Some a \<and> fq_blocks (s_fq s) a = Some bs \<and>
    length bs = MJPEG_MAX_PACKET_SIZE \<and> unat (fb_length fb) = MJPEG_MAX_PACKET_SIZE \<and>
    unat (fb_used fb) \<le> MJPEG_MAX_PACKET_SIZE"
proof -
  from sample_launched obtain s1 s where s: "launched sample_init sample_ctx sample_start 7 s1" "sys_reach s1 s" "s_main s = MCreateUsb"
    by blast
  have "s_main s \<notin> {MSequential, MDone}" "(8 :: nat) \<in> {7..<7 + 3}"
    using s(3) by simp_all
  from buffers_well_formed [OF s(1,2) this] s(1,2) show ?thesis
    by blast
qed

text \<open>C4: no lost wake-up and no deadlock. A camera thread that waits finds the empty queue empty and no
  shutdown requested, a USB thread that waits the same of the action queue, the two never wait at the
  same time, and until the main thread has cleaned up some thread can make a step.\<close>

theorem waiting_threads_are_idle:
  assumes "launched inp c s0 base s1" "sys_reach s1 s"
  shows "(cam_pc (s_cam s) = CWaiting \<longrightarrow> frame_queue_is_empty (g_empty_queue (s_fq s)) \<and> \<not> g_shutdown_requested (s_fq s)) \<and>
    (usb_pc (s_usb s) = UWaiting \<longrightarrow> frame_queue_is_empty (g_action_queue (s_fq s)) \<and> \<not> g_shutdown_requested (s_fq s)) \<and>
    \<not> (cam_pc (s_cam s) = CWaiting \<and> usb_pc (s_usb s) = UWaiting) \<and>
    (s_main s \<in> {MSequential, MDone} \<or> (\<exists>s'. thread_step s s'))"
proof -
  from reach_refines [OF assms] obtain p where
    p: "refines base (block_addrs (ii_align inp) 3) s p" "pipe_inv (pool base) (s_seq s0) p"
    by blast
  have pcs: "p_cam p = cam_pc (s_cam s)" "p_usb p = usb_pc (s_usb s)" "p_shutdown p = g_shutdown_requested (s_fq s)"
    using p(1) by (simp_all add: refines_def)
  have w: "waits_ok p" and o: "owned (pool base) p"
    using p(2) by (simp_all add: pipe_inv_def)
  have m: "p_main p \<notin> {MSequential, MDone}" if "p_cam p = CWaiting \<or> p_usb p = UWaiting"
    using o that by (auto simp: owned_def)
  have "\<not> (p_cam p = CWaiting \<and> p_usb p = UWaiting)"
  proof
    assume both: "p_cam p = CWaiting \<and> p_usb p = UWaiting"
    with w have "p_empty p @ p_action p @ cam_holds (p_cam p) @ usb_holds (p_usb p) = []"
      by (simp add: waits_ok_def)
    moreover have "mset (p_empty p @ p_action p @ cam_holds (p_cam p) @ usb_holds (p_usb p)) = mset (pool base)"
      using o both m by (simp only: owned_def if_False simp_thms)
    ultimately have "size (mset (pool base)) = 0"
      by simp
    then show False
      by (simp only: size_mset length_upt)
  qed
  moreover have "frame_queue_is_empty (g_empty_queue (s_fq s)) \<and> \<not> p_shutdown p" if "p_cam p = CWaiting"
    using w m that rep_empty(1) [OF refines_rep(1) [OF p(1)]] by (simp add: waits_ok_def)
  moreover have "frame_queue_is_empty (g_action_queue (s_fq s)) \<and> \<not> p_shutdown p" if "p_usb p = UWaiting"
    using w m that rep_empty(2) [OF refines_rep(1) [OF p(1)]] by (simp add: waits_ok_def)
  ultimately show ?thesis
    using some_thread_moves [OF p] unfolding pcs by blast
qed

theorem waiting_threads_are_idle_witness:
  "\<exists>s1 s. launched sample_init sample_ctx sample_start 7 s1 \<and> sys_reach s1 s \<and>
    \<not> (cam_pc (s_cam s) = CWaiting \<and> usb_pc (s_usb s) = UWaiting) \<and>
    (s_main s \<in> {MSequential, MDone} \<or> (\<exists>s'. thread_step s s'))"
proof -
  from sample_launched obtain s1 s where s: "launched sample_init sample_ctx sample_start 7 s1" "sys_reach s1 s"
    by blast
  with waiting_threads_are_idle [OF s] show ?thesis
    by blast
qed

subsection \<open>Shutdown\<close>

text \<open>C3: shutdown terminates. From any reachable state in which shutdown has been requested, by a
  signal, by a thread that gave up or by the main thread, the three threads make at most 15 more steps
  between them, whatever the devices answer; and as long as the main thread has not cleaned up, one of
  them can make a step.  So the main thread's joins return and the pool is freed.\<close>

theorem shutdown_terminates:
  assumes "launched inp c s0 base s1" "sys_reach s1 s" "g_shutdown_requested (s_fq s)" "thread_run n s s'"
  shows "n \<le> 15 \<and> (s_main s' \<in> {MSequential, MDone} \<or> (\<exists>s''. thread_step s' s''))"
proof -
  from reach_refines [OF assms(1,2)] obtain p where
    p: "refines base (block_addrs (ii_align inp) 3) s p" "pipe_inv (pool base) (s_seq s0) p"
    by blast
  have "p_shutdown p"
    using p(1) assms(3) by (simp add: refines_def)
  from thread_run_rank [OF assms(4) p this] obtain p' where
    p': "refines base (block_addrs (ii_align inp) 3) s' p'" "pipe_inv (pool base) (s_seq s0) p'"
      "n + pipe_rank p' \<le> pipe_rank p"
    by blast
  with pipe_rank_le [OF p(2)] some_thread_moves [OF p'(1,2)] show ?thesis
    by force
qed

theorem shutdown_terminates_witness:
  "\<exists>s1 s s'. launched sample_init sample_ctx sample_start 7 s1 \<and> sys_reach s1 s \<and>
    g_shutdown_requested (s_fq s) \<and> thread_run 1 s s' \<and>
    (s_main s' \<in> {MSequential, MDone} \<or> (\<exists>s''. thread_step s' s''))"
proof -
  from sample_launched obtain s1 s where s: "launched sample_init sample_ctx sample_start 7 s1" "sys_reach s1 s"
    "g_shutdown_requested (s_fq s)" "s_main s = MCreateUsb"
    by blast
  have "main_thread_step 0 s = Next (s\<lparr>s_usb := fresh_usb_thread, s_main := MMonitor\<rparr>)"
    by (simp add: main_thread_step_def s(4))
  then have "thread_step s (s\<lparr>s_usb := fresh_usb_thread, s_main := MMonitor\<rparr>)"
    by (rule thread_stepI(3))
  then have r: "thread_run 1 s (s\<lparr>s_usb := fresh_usb_thread, s_main := MMonitor\<rparr>)"
    using run_thread [OF run_start] by simp
  with shutdown_terminates [OF s(1-3) r] s show ?thesis
    by blast
qed

text \<open>C30: a signal after clean-up. Once the main thread has cleaned up the threading system, the
  handler, which \<open>main\<close> never uninstalls, locks a mutex that has been destroyed.\<close>

theorem late_signal_faults:
  assumes "launched inp c s0 base s1" "sys_reach s1 s" "s_main s \<in> {MSequential, MDone}"
    and "signo \<in> {SIGINT, SIGTERM}"
  shows "signal_handler signo s = Fault"
proof -
  from reach_refines [OF assms(1,2)] assms(3) have "\<not> g_queue_mutex_ready (s_fq s)"
    by (auto simp: refines_def freed_def)
  with assms(4) show ?thesis
    by (auto simp: signal_handler_def critical_def Let_def)
qed

theorem late_signal_faults_witness:
  "\<exists>s1 s. launched sample_init sample_ctx sample_start 7 s1 \<and> sys_reach s1 s \<and> s_main s \<in> {MSequential, MDone} \<and>
    signal_handler SIGINT s = Fault"
proof -
  from sample_launched obtain s1 s where s: "launched sample_init sample_ctx sample_start 7 s1" "sys_reach s1 s"
    "g_shutdown_requested (s_fq s)"
    by blast
  from reach_refines [OF s(1,2)] s(3) obtain p where
    "refines 7 (block_addrs (ii_align sample_init) 3) s p" "pipe_inv (pool 7) (s_seq sample_start) p" "p_shutdown p"
    by (auto simp: refines_def)
  from shutdown_completes [OF this] obtain s' where s': "sys_reach s s'" "s_main s' \<in> {MSequential, MDone}"
    by blast
  have "sys_reach s1 s'"
    using s(2) s'(1) by (rule rtranclp_trans)
  with late_signal_faults [OF s(1) this s'(2), of SIGINT] s(1) s'(2) show ?thesis
    by blast
qed

subsection \<open>What is sent\<close>

text \<open>C2: order and contents. The packets the camera thread has pushed are the encodings of valid
  frames numbered consecutively from the initial sequence number; the USB thread takes them in that
  order, without loss or repetition; of each packet it has taken the device accepted a prefix; and what
  went down the USB descriptor is exactly these prefixes, one after the other, as long as the
  descriptor the metrics are written to is another one.\<close>

theorem frames_sent_in_order:
  assumes "launched inp c s0 base s1" "sys_reach s1 s" "ctx_usb_fd c \<noteq> usb_fd (s_tp s0)"
  shows "(\<exists>js. h_packed s = map frame_enc (numbered (s_seq s0) js) \<and> (\<forall>f \<in> set (numbered (s_seq s0) js). frame_valid f)) \<and>
    prefix (map fst (h_sent s)) (h_packed s) \<and> list_all (\<lambda>(m, w). prefix w m) (h_sent s) \<and>
    written (usb_fd (s_tp s0)) (s_trace s) = written (usb_fd (s_tp s0)) (s_trace s0) @ concat (map snd (h_sent s))"
proof -
  from reach_refines [OF assms(1,2)] obtain p where
    p: "refines base (block_addrs (ii_align inp) 3) s p" "data_ok (s_seq s0) p"
    by (auto simp: pipe_inv_def)
  have h: "p_packed p = h_packed s" "p_sent p = h_sent s"
    using p(1) by (simp_all add: refines_def)
  have "prefix (h_packed s) (p_packed p @ cam_pending p)"
    by (simp add: h)
  note d = data_okD(1,3,4) [OF p(2)]
  have "\<exists>js. h_packed s = map frame_enc (numbered (s_seq s0) js) \<and> (\<forall>f \<in> set (numbered (s_seq s0) js). frame_valid f)"
    by (rule numbered_frames_prefix [OF d(1)]) (simp add: h)
  moreover have "written (usb_fd (s_tp s0)) (s_trace s) = written (usb_fd (s_tp s0)) (s_trace s0) @ concat (map snd (h_sent s))"
    using reach_run_inv [OF assms(2) launched_run_inv [OF assms(1)]] assms(3) by (simp add: run_inv_def wire_ok_def)
  ultimately show ?thesis
    using d(2,3) by (simp add: h list_all_iff)
qed

theorem frames_sent_in_order_witness:
  "\<exists>s1 s. launched sample_init sample_ctx sample_start 7 s1 \<and> sys_reach s1 s \<and>
    prefix (map fst (h_sent s)) (h_packed s) \<and> list_all (\<lambda>(m, w). prefix w m) (h_sent s) \<and>
    written 5 (s_trace s) = concat (map snd (h_sent s))"
proof -
  from sample_launched obtain s1 s where s: "launched sample_init sample_ctx sample_start 7 s1" "sys_reach s1 s"
    by blast
  have fd: "usb_fd (s_tp sample_start) = 5" "s_trace sample_start = []" "ctx_usb_fd sample_ctx \<noteq> usb_fd (s_tp sample_start)"
    by (simp_all add: sample_start_def sample_ctx_def)
  from frames_sent_in_order [OF s fd(3)] s show ?thesis
    unfolding fd written.simps append_Nil by blast
qed



subsection \<open>Errors\<close>



text \<open>C29: error thresholds. In every reachable state the camera thread, until it has ended, is giving
  up exactly when it has counted three errors in a row, the USB thread gives up at the latest at its
  tenth, and neither counter ever exceeds its threshold, so neither wraps.\<close>

theorem threads_give_up_on_errors:
  assumes "launched inp c s0 base s1" "sys_reach s1 s"
  shows "ct_error_count (s_cam s) \<le> 3 \<and> ut_error_count (s_usb s) \<le> 10 \<and>
    (cam_pc (s_cam s) = CDone \<or> (ct_error_count (s_cam s) = 3 \<longleftrightarrow> cam_gives_up (cam_pc (s_cam s)))) \<and>
    (usb_pc (s_usb s) = UDone \<or> ut_error_count (s_usb s) \<noteq> 10 \<or> usb_gives_up (usb_pc (s_usb s)))"
  using reach_run_inv [OF assms(2) launched_run_inv [OF assms(1)]]
  by (auto simp: run_inv_def cam_errors_ok_def usb_errors_ok_def)

theorem threads_give_up_on_errors_witness:
  "\<exists>s1 s. launched sample_init sample_ctx sample_start 7 s1 \<and> sys_reach s1 s \<and>
    ct_error_count (s_cam s) \<le> 3 \<and> ut_error_count (s_usb s) \<le> 10"
proof -
  from sample_launched obtain s1 s where s: "launched sample_init sample_ctx sample_start 7 s1" "sys_reach s1 s"
    by blast
  with threads_give_up_on_errors [OF s] show ?thesis
    by blast
qed

text \<open>The metrics interval. The elapsed time is exact when the nanoseconds have not gone down; when
  they have, because a second boundary lies in between, the difference is converted to 64 unsigned bits
  before the division and comes out as centuries, so a metrics packet goes out however short the time
  since the last one.\<close>

lemma metrics_interval_borrow:
  assumes "tv_sec start \<le> tv_sec now" "tv_sec now - tv_sec start < 2 ^ 32"
    and "0 \<le> tv_nsec start" "tv_nsec start < 1000000000" "0 \<le> tv_nsec now" "tv_nsec now < 1000000000"
  shows "if tv_nsec start \<le> tv_nsec now
    then uint (elapsed_ms now start)
      = ((tv_sec now - tv_sec start) * 1000000000 + (tv_nsec now - tv_nsec start)) div 1000000
    else METRICS_INTERVAL_MS \<le> unat (elapsed_ms now start) \<and> 18446744000000 \<le> unat (elapsed_ms now start)"
proof (cases "tv_nsec start \<le> tv_nsec now")
  case True
  have "(tv_sec now - tv_sec start) * 1000 + (tv_nsec now - tv_nsec start) div 1000000
      = ((tv_sec now - tv_sec start) * 1000000000 + (tv_nsec now - tv_nsec start)) div 1000000"
    using div_mult_self4 [of "1000000 :: int" "(tv_sec now - tv_sec start) * 1000" "tv_nsec now - tv_nsec start"] by simp
  with elapsed_ms_uint [OF assms] True show ?thesis
    by simp
next
  case False
  have "18446744000000 * 1000000 \<le> 2 ^ 64 + (tv_nsec now - tv_nsec start)"
    using assms(4,5) by simp
  from zdiv_mono1 [OF this, of 1000000]
  have "18446744000000 \<le> (2 ^ 64 + (tv_nsec now - tv_nsec start)) div 1000000"
    by simp
  moreover have "0 \<le> (tv_sec now - tv_sec start) * 1000"
    using assms(1) by simp
  ultimately have "18446744000000 \<le> uint (elapsed_ms now start)"
    unfolding elapsed_ms_uint [OF assms] if_not_P [OF False] by linarith
  then have "int 18446744000000 \<le> int (unat (elapsed_ms now start))"
    by (simp only: uint_nat [symmetric] of_nat_numeral)
  then have "18446744000000 \<le> unat (elapsed_ms now start)"
    by (simp only: of_nat_le_iff)
  with False show ?thesis
    by (simp add: METRICS_INTERVAL_MS_def)
qed

end
