(* ===== verification/CameraApp.thy ===== *)
theory CameraApp
  imports ThreadProperties PerfLogger
begin

section \<open>The main program (camera_app_main.c)\<close>

text \<open>
  Start-up and its error paths, the sequential fallback loop, and the clean-up.  The monitor loop of the
  threaded mode and the signal handler are in \<open>CameraThreads\<close>.  The camera, USB and logger operations
  are those of their own theories; the results of \<open>malloc\<close>, the devices and the clock are arguments.
  Logging, \<open>usleep\<close> and the installation of the signal handlers are left out.
\<close>

subsection \<open>Start-up\<close>

definition app_camera_config :: camera_config where
  "app_camera_config = \<lparr>cfg_width = CONFIG_CAMERA_WIDTH, cfg_height = CONFIG_CAMERA_HEIGHT,
     cfg_fps = CONFIG_CAMERA_FPS, cfg_format = CONFIG_CAMERA_FORMAT, cfg_hdr_enable = CONFIG_CAMERA_HDR_ENABLE\<rparr>"

record app_env =
  ae_camera :: camera_env
  ae_malloc :: nat
  ae_opens :: "nat \<Rightarrow> int"
  ae_clock :: timespec

record app_state =
  app_mgr :: camera_manager
  app_tp :: usb_transport
  app_perf :: perf_logger
  app_packet_addr :: nat
  app_packet_buffer :: bytes
  app_frame :: camera_frame
  app_sequence :: u32
  app_frame_count :: u32
  app_error_count :: u32
  app_last_frame_ts :: u64
  app_jpeg_validation_error_count :: u32
  app_consecutive_jpeg_errors :: u32
  app_trace :: trace

text \<open>
  \<open>None\<close> when the camera manager would write past its arrays; \<open>Inl\<close> an early return of \<open>main\<close> with the
  system calls made; \<open>Inr\<close> the initialised application.  \<open>f\<close> and \<open>buf\<close> are the unspecified initial
  values of the local \<open>frame\<close> and of the allocated packet buffer.
\<close>

definition app_start ::
  "app_env \<Rightarrow> camera_frame \<Rightarrow> bytes \<Rightarrow> ((int \<times> trace) + app_state) option" where
  "app_start env f buf =
     (case camera_manager_init (ae_camera env) (Some app_camera_config) camera_zero of
        None \<Rightarrow> None
      | Some (ret, mgr, tr) \<Rightarrow>
          if ret < 0 then Some (Inl (ret, tr))
          else if ae_malloc env = 0 then
            (case camera_manager_cleanup mgr of (r2, m2, tr2) \<Rightarrow> Some (Inl (- ENOMEM, tr @ tr2)))
          else (case usb_transport_init (ae_opens env) of
              (ret, tp, tru) \<Rightarrow>
                if ret < 0 then
                  (case camera_manager_cleanup mgr of (r2, m2, tr2) \<Rightarrow>
                     Some (Inl (ret, tr @ OsAlloc (ae_malloc env) # tru @ OsFree (ae_malloc env) # tr2)))
                else Some (Inr \<lparr>app_mgr = mgr, app_tp = tp, app_perf = perf_logger_init (ae_clock env),
                    app_packet_addr = ae_malloc env, app_packet_buffer = buf, app_frame = f, app_sequence = 0,
                    app_frame_count = 0, app_error_count = 0, app_last_frame_ts = 0,
                    app_jpeg_validation_error_count = 0, app_consecutive_jpeg_errors = 0,
                    app_trace = tr @ OsAlloc (ae_malloc env) # tru\<rparr>)))"

text \<open>The context \<open>main\<close> hands to the threads: zeroed, then three members are set; \<open>usb_fd\<close> is not.\<close>

definition main_thread_context :: thread_context where
  "main_thread_context = \<lparr>ctx_camera_fd = 0, ctx_usb_fd = 0, ctx_buffer_count = 0,
     ctx_packet_buffer_size = of_nat MJPEG_MAX_PACKET_SIZE\<rparr>"

subsection \<open>The sequential loop\<close>

definition SEQUENTIAL_FRAMES :: u32 where "SEQUENTIAL_FRAMES = 90"

text \<open>
  The environment of one iteration: the value of \<open>g_running\<close> at the loop test, the clock at each of its
  readings, the camera's answers with the memory of the captured frame, the host's answers to \<open>write\<close>.
\<close>

record seq_input =
  si_running :: bool
  si_clock :: "nat \<Rightarrow> timespec"
  si_frame :: frame_env
  si_mem :: bytes
  si_write :: "nat \<Rightarrow> nat \<Rightarrow> write_result"

definition perf_metrics_zero :: perf_frame_metrics where
  "perf_metrics_zero = \<lparr>frame_num = 0, ts_frame_start = 0, ts_camera_poll_start = 0, ts_camera_poll_end = 0,
     ts_camera_dqbuf_start = 0, ts_camera_dqbuf_end = 0, ts_pack_start = 0, ts_pack_end = 0,
     ts_usb_write_start = 0, ts_usb_write_end = 0, ts_frame_end = 0, jpeg_size = 0, packet_size = 0,
     usb_written = 0, latency_camera_poll = 0, latency_camera_dqbuf = 0, latency_pack = 0,
     latency_usb_write = 0, latency_total = 0, interval_us = 0, usb_retry_count = 0\<rparr>"

datatype 'a loop_control = Continue 'a | Break 'a

fun loop_state :: "'a loop_control \<Rightarrow> 'a" where
  "loop_state (Continue s) = s" | "loop_state (Break s) = s"

text \<open>The metrics of a frame up to the capture, and from the capture on.\<close>

definition seq_metrics_start :: "seq_input \<Rightarrow> app_state \<Rightarrow> perf_frame_metrics" where
  "seq_metrics_start inp s =
     (let start = perf_logger_get_timestamp_us (si_clock inp 0)
      in perf_metrics_zero\<lparr>ts_frame_start := start, frame_num := app_frame_count s + 1,
           interval_us := (if app_last_frame_ts s > 0 then ucast (start - app_last_frame_ts s) else 0),
           ts_camera_poll_start := perf_logger_get_timestamp_us (si_clock inp 1),
           ts_camera_dqbuf_end := perf_logger_get_timestamp_us (si_clock inp 2)\<rparr>)"

definition seq_metrics_captured :: "camera_frame \<Rightarrow> perf_frame_metrics \<Rightarrow> perf_frame_metrics" where
  "seq_metrics_captured frame m =
     (let l = ucast (ts_camera_dqbuf_end m - ts_camera_poll_start m)
      in m\<lparr>latency_camera_poll := l, latency_camera_dqbuf := l, jpeg_size := frm_size frame\<rparr>)"

definition seq_metrics_sent :: "seq_input \<Rightarrow> nat \<Rightarrow> int \<Rightarrow> perf_frame_metrics \<Rightarrow> perf_frame_metrics" where
  "seq_metrics_sent inp packed sent m =
     (let t = (\<lambda>k. perf_logger_get_timestamp_us (si_clock inp k))
      in m\<lparr>ts_pack_start := t 3, ts_pack_end := t 4, latency_pack := ucast (t 4 - t 3),
           packet_size := of_nat packed, ts_usb_write_start := t 5, ts_usb_write_end := t 6,
           usb_written := (if sent < 0 then 0 else of_int sent), latency_usb_write := ucast (t 6 - t 5),
           ts_frame_end := t 7, latency_total := ucast (t 7 - ts_frame_start m)\<rparr>)"

text \<open>Packing, sending and recording a captured frame: the second half of the loop body.\<close>

definition seq_deliver :: "seq_input \<Rightarrow> perf_frame_metrics \<Rightarrow> app_state \<Rightarrow> app_state loop_control" where
  "seq_deliver inp m s =
     (let f = app_frame s
      in case mjpeg_pack_frame (if frm_buf f = 0 then None else Some (si_mem inp)) (frm_size f)
          (Some (app_sequence s)) (Some (app_packet_buffer s)) MJPEG_MAX_PACKET_SIZE of
        Inl e \<Rightarrow>
          Continue (s\<lparr>app_jpeg_validation_error_count := app_jpeg_validation_error_count s + 1,
            app_consecutive_jpeg_errors := app_consecutive_jpeg_errors s + 1\<rparr>)
      | Inr (packed, seq', pkt') \<Rightarrow>
          (case usb_transport_send_bytes (si_write inp) (Some pkt') packed (app_tp s) of
             (ret, tp, tr) \<Rightarrow>
               let s1 = s\<lparr>app_consecutive_jpeg_errors := 0, app_sequence := seq', app_packet_buffer := pkt',
                     app_tp := tp, app_trace := app_trace s @ tr,
                     app_error_count := (if ret < 0 then app_error_count s + 1 else 0)\<rparr>
               in if ret < 0 \<and> 10 \<le> app_error_count s1 then Break s1
                  else Continue (s1\<lparr>app_perf := fst (perf_logger_record_frame (si_clock inp 8) (si_clock inp 9)
                    (Some (seq_metrics_sent inp packed ret m)) (app_perf s))\<rparr>)))"

definition seq_iteration :: "seq_input \<Rightarrow> app_state \<Rightarrow> app_state loop_control" where
  "seq_iteration inp s =
     (let m = seq_metrics_start inp s; s1 = s\<lparr>app_last_frame_ts := ts_frame_start m\<rparr>
      in case camera_get_frame (si_frame inp) (Some (app_frame s)) (app_mgr s) of
        (ret, frame, mgr, tr) \<Rightarrow>
          let s2 = s1\<lparr>app_mgr := mgr, app_trace := app_trace s @ tr,
                app_frame := (case frame of Some f \<Rightarrow> f | None \<Rightarrow> app_frame s)\<rparr>
          in if ret < 0 then
               (if ret = ERR_TIMEOUT then Continue s2
                else let s3 = s2\<lparr>app_error_count := app_error_count s + 1\<rparr>
                     in if 10 \<le> app_error_count s3 then Break s3 else Continue s3)
             else seq_deliver inp (seq_metrics_captured (app_frame s2) m)
               (s2\<lparr>app_error_count := 0, app_frame_count := app_frame_count s + 1\<rparr>))"

text \<open>
  The loop over the inputs of its iterations: it ends at the test or at a \<open>break\<close>; when the inputs run
  out it is still running, and the result says so.
\<close>

fun seq_loop :: "seq_input list \<Rightarrow> app_state \<Rightarrow> app_state loop_control" where
  "seq_loop [] s = Continue s"
| "seq_loop (inp # inps) s =
     (if si_running inp \<and> app_frame_count s < SEQUENTIAL_FRAMES
      then (case seq_iteration inp s of Continue s' \<Rightarrow> seq_loop inps s' | Break s' \<Rightarrow> Break s')
      else Break s)"

subsection \<open>Clean-up\<close>

definition app_cleanup :: "timespec \<Rightarrow> timespec \<Rightarrow> app_state \<Rightarrow> int \<times> app_state" where
  "app_cleanup now1 now2 s =
     (case usb_transport_cleanup (app_tp s) of
        (r1, tp, tr1) \<Rightarrow> (case camera_manager_cleanup (app_mgr s) of
          (r2, mgr, tr2) \<Rightarrow>
            (ERR_OK, s\<lparr>app_perf := fst (perf_logger_cleanup now1 now2 (app_perf s)),
               app_tp := tp, app_mgr := mgr, app_packet_addr := 0,
               app_trace := app_trace s @
                 (if app_packet_addr s \<noteq> 0 then [OsFree (app_packet_addr s)] else []) @ tr1 @ tr2\<rparr>)))"

section \<open>What an iteration keeps\<close>

text \<open>Everything the clean-up looks at, and that the calls in between leak nothing.\<close>

definition app_kept :: "app_state \<Rightarrow> app_state \<Rightarrow> bool" where
  "app_kept s s' \<longleftrightarrow> same_resources (app_mgr s) (app_mgr s') \<and> usb_fd (app_tp s') = usb_fd (app_tp s) \<and>
     app_packet_addr s' = app_packet_addr s \<and> (\<exists>w. balanced w \<and> app_trace s' = app_trace s @ w)"

lemma app_kept_refl: "app_kept s s"
  by (auto simp: app_kept_def same_resources_def intro: exI [of _ "[]"])

lemma app_kept_trans:
  assumes "app_kept s s1" "app_kept s1 s2"
  shows "app_kept s s2"
proof -
  from assms obtain w1 w2 where "balanced w1" "app_trace s1 = app_trace s @ w1" "balanced w2"
    "app_trace s2 = app_trace s1 @ w2"
    unfolding app_kept_def by blast
  then have "balanced (w1 @ w2) \<and> app_trace s2 = app_trace s @ w1 @ w2"
    by (simp add: balanced_append)
  with assms show ?thesis
    unfolding app_kept_def same_resources_def by metis
qed

lemma seq_deliver_kept: "app_kept s (loop_state (seq_deliver inp m s))"
proof -
  let ?f = "app_frame s"
  show ?thesis
  proof (cases "mjpeg_pack_frame (if frm_buf ?f = 0 then None else Some (si_mem inp)) (frm_size ?f)
      (Some (app_sequence s)) (Some (app_packet_buffer s)) MJPEG_MAX_PACKET_SIZE")
    case (Inl e)
    then show ?thesis
      using app_kept_refl [of s] by (simp add: seq_deliver_def app_kept_def)
  next
    case (Inr r)
    obtain packed seq' pkt' where r: "r = (packed, seq', pkt')"
      by (cases r)
    obtain ret tp tr where send: "usb_transport_send_bytes (si_write inp) (Some pkt') packed (app_tp s) = (ret, tp, tr)"
      by (cases "usb_transport_send_bytes (si_write inp) (Some pkt') packed (app_tp s)")
    have "same_resources (app_mgr s) (app_mgr s)"
      by (simp add: same_resources_def)
    with usb_send_bytes_fd [OF send] usb_send_bytes_balanced [OF send] Inr r send show ?thesis
      by (simp add: seq_deliver_def app_kept_def Let_def)
  qed
qed

lemma seq_iteration_kept: "app_kept s (loop_state (seq_iteration inp s))"
proof -
  obtain ret frame mgr tr where get: "camera_get_frame (si_frame inp) (Some (app_frame s)) (app_mgr s) = (ret, frame, mgr, tr)"
    by (cases "camera_get_frame (si_frame inp) (Some (app_frame s)) (app_mgr s)")
  have k: "app_kept s t" if "app_mgr t = mgr" "app_trace t = app_trace s @ tr" "app_tp t = app_tp s"
    "app_packet_addr t = app_packet_addr s" for t
    using get_frame_same_resources [OF get] that by (auto simp: app_kept_def)
  show ?thesis
    unfolding seq_iteration_def Let_def get prod.case
    by (auto intro!: k app_kept_trans [OF _ seq_deliver_kept])
qed

lemma seq_loop_kept: "app_kept s (loop_state (seq_loop inps s))"
proof (induction inps arbitrary: s)
  case (Cons inp inps)
  from seq_iteration_kept [of s inp] Cons.IH show ?case
    by (auto simp: app_kept_refl split: loop_control.split intro: app_kept_trans)
qed (simp add: app_kept_refl)

section \<open>Properties\<close>

text \<open>C14: the program leaks nothing. When the driver honours the buffer count and the stream starts, every
  early return of \<open>main\<close> has given back all it took, with a negative code; and after a successful
  start, however the sequential loop went, the clean-up returns 0 and leaves every block freed and
  every descriptor closed.\<close>

theorem app_leaks_nothing:
  assumes "camera_env_ok (ae_camera env, app_camera_config)" "app_start env f buf = Some r"
  shows "case r of Inl (ret, tr) \<Rightarrow> ret < 0 \<and> balanced tr
    | Inr s \<Rightarrow> fst (app_cleanup t1 t2 (loop_state (seq_loop inps s))) = ERR_OK \<and>
        balanced (app_trace (snd (app_cleanup t1 t2 (loop_state (seq_loop inps s)))))"
proof -
  have "count_ok (ae_camera env)"
    using assms(1) by (simp add: camera_env_ok_def)
  from camera_init_defined [OF this] obtain ret mgr tr where
    i: "camera_manager_init (ae_camera env) (Some app_camera_config) camera_zero = Some (ret, mgr, tr)"
    by blast
  then have ci: "camera_init (ae_camera env, app_camera_config) = (ret, mgr, tr)"
    by (simp add: camera_init_def)
  obtain r2 m2 tr2 where cc: "camera_manager_cleanup mgr = (r2, m2, tr2)"
    by (cases "camera_manager_cleanup mgr")
  have same: "same_resources mgr mgr"
    by (simp add: same_resources_def)
  obtain ur tp tru where u: "usb_transport_init (ae_opens env) = (ur, tp, tru)"
    by (cases "usb_transport_init (ae_opens env)")
  note cam_fail = camera.init_fail [OF assms(1) ci]
  note cam_done = camera.init_cleanup [OF assms(1) ci]
  show ?thesis
  proof (cases "ret < 0 \<or> ae_malloc env = 0 \<or> ur < 0")
    case True
    have "balanced (tr @ OsAlloc (ae_malloc env) # tru @ OsFree (ae_malloc env) # tr2)" if "\<not> ret < 0" "ur < 0"
      using balanced_crossed [OF cam_done [OF that(1) same cc] _ balanced_Nil, of tru "[]"]
        usb_dev.init_fail [OF _ u that(2)] by simp
    with True assms(2) i cc u cam_fail cam_done [OF _ same cc] show ?thesis
      by (auto simp: app_start_def ENOMEM_def split: if_splits)
  next
    case False
    with assms(2) i cc u obtain s where r: "r = Inr s" "app_mgr s = mgr" "app_tp s = tp"
      "app_packet_addr s = ae_malloc env" "app_trace s = tr @ OsAlloc (ae_malloc env) # tru"
      by (auto simp: app_start_def)
    let ?s = "loop_state (seq_loop inps s)"
    from seq_loop_kept [of s inps] r obtain w where
      k: "same_resources mgr (app_mgr ?s)" "usb_fd (app_tp ?s) = usb_fd tp" "app_packet_addr ?s = ae_malloc env"
        "balanced w" "app_trace ?s = tr @ OsAlloc (ae_malloc env) # tru @ w"
      by (auto simp: app_kept_def)
    obtain r3 m3 tr3 where c3: "camera_manager_cleanup (app_mgr ?s) = (r3, m3, tr3)"
      by (cases "camera_manager_cleanup (app_mgr ?s)")
    obtain r4 tp4 tr4 where c4: "usb_transport_cleanup (app_tp ?s) = (r4, tp4, tr4)"
      by (cases "usb_transport_cleanup (app_tp ?s)")
    have "balanced (tr @ tr3)" "balanced (tru @ tr4)"
      using cam_done [OF _ k(1) c3] usb_dev.init_cleanup [OF _ u _ k(2) c4] False by simp_all
    from balanced_crossed [OF this k(4)] have "balanced (tr @ OsAlloc (ae_malloc env) # tru @ w @ OsFree (ae_malloc env) # tr4 @ tr3)"
      by simp
    with False r(1) k(3,5) c3 c4 show ?thesis
      by (simp add: app_cleanup_def)
  qed
qed

definition sample_app_env :: app_env where
  "sample_app_env = \<lparr>ae_camera = sample_env 3 0, ae_malloc = 500, ae_opens = (\<lambda>k. if k < 2 then -1 else 7),
     ae_clock = \<lparr>tv_sec = 0, tv_nsec = 0\<rparr>\<rparr>"

lemma sample_app_starts: "\<exists>s. app_start sample_app_env f buf = Some (Inr s)"
proof -
  have acc: "driver_accepts (sample_env 3 0) app_camera_config 65536"
    by (simp add: driver_accepts_def sample_env_def app_camera_config_def camera_sizeimage_def config_defs)
  have "\<exists>m tr. camera_manager_init (sample_env 3 0) (Some app_camera_config) camera_zero = Some (ERR_OK, m, tr)"
    using camera_loop_ok [of 0 3 "camera_zero\<lparr>cam_config := app_camera_config, cam_fd := 5\<rparr>" "sample_env 3 0" 65536] acc
    by (auto simp: camera_init_streaming camera_zero_def sample_env_def CAMERA_BUFFER_NUM_def ERR_OK_def)
  then obtain m tr where "camera_manager_init (sample_env 3 0) (Some app_camera_config) camera_zero = Some (ERR_OK, m, tr)"
    by blast
  moreover have "usb_open_loop (\<lambda>k. if k < 2 then -1 else 7) 10 0 = (7, [OsOpen 7])"
    by (simp add: numeral_eq_Suc)
  ultimately show ?thesis
    by (simp add: app_start_def sample_app_env_def usb_transport_init_def ERR_OK_def)
qed

theorem app_leaks_nothing_witness:
  "\<exists>s. app_start sample_app_env sample_frame [] = Some (Inr s) \<and>
    balanced (app_trace (snd (app_cleanup \<lparr>tv_sec = 9, tv_nsec = 0\<rparr> \<lparr>tv_sec = 9, tv_nsec = 5\<rparr> (loop_state (seq_loop [] s)))))"
proof -
  obtain s where s: "app_start sample_app_env sample_frame [] = Some (Inr s)"
    using sample_app_starts by blast
  have "camera_env_ok (ae_camera sample_app_env, app_camera_config)"
    by (simp add: camera_env_ok_def sample_app_env_def sample_env_def CAMERA_BUFFER_NUM_def)
  from app_leaks_nothing [OF this s, of "\<lparr>tv_sec = 9, tv_nsec = 0\<rparr>" "\<lparr>tv_sec = 9, tv_nsec = 5\<rparr>" "[]"] s show ?thesis
    by simp
qed

text \<open>C31: the limit on USB errors in the sequential loop is dead. Every captured frame resets the counter
  that USB errors share with camera errors, so an iteration that has captured a frame never ends the
  loop, and leaves a count of at most one, however often sending fails.\<close>

theorem sequential_usb_errors_never_stop:
  assumes "camera_get_frame (si_frame inp) (Some (app_frame s)) (app_mgr s) = (ret, frame, mgr, tr)" "0 \<le> ret"
  shows "\<exists>s'. seq_iteration inp s = Continue s' \<and> app_error_count s' \<le> 1 \<and>
    app_frame_count s' = app_frame_count s + 1"
proof -
  have "\<exists>s'. seq_deliver inp m t = Continue s' \<and> app_error_count s' \<le> 1 \<and> app_frame_count s' = app_frame_count t"
    if t: "app_error_count t = 0" for m t
  proof (cases "mjpeg_pack_frame (if frm_buf (app_frame t) = 0 then None else Some (si_mem inp)) (frm_size (app_frame t))
      (Some (app_sequence t)) (Some (app_packet_buffer t)) MJPEG_MAX_PACKET_SIZE")
    case (Inl e)
    with t show ?thesis
      by (simp add: seq_deliver_def)
  next
    case (Inr r)
    obtain packed seq' pkt' where r: "r = (packed, seq', pkt')"
      by (cases r)
    obtain ret2 tp tr2 where "usb_transport_send_bytes (si_write inp) (Some pkt') packed (app_tp t) = (ret2, tp, tr2)"
      by (cases "usb_transport_send_bytes (si_write inp) (Some pkt') packed (app_tp t)")
    moreover have "\<not> (10 :: u32) \<le> 1"
      by (simp add: word_le_nat_alt)
    ultimately show ?thesis
      using t Inr r by (simp add: seq_deliver_def Let_def)
  qed
  from this [of "s\<lparr>app_last_frame_ts := ts_frame_start (seq_metrics_start inp s), app_mgr := mgr,
      app_trace := app_trace s @ tr, app_frame := (case frame of Some f \<Rightarrow> f | None \<Rightarrow> app_frame s),
      app_error_count := 0, app_frame_count := app_frame_count s + 1\<rparr>"] assms
  show ?thesis
    by (simp add: seq_iteration_def Let_def)
qed

definition sample_app_state :: app_state where
  "sample_app_state = \<lparr>app_mgr = camera_zero\<lparr>cam_initialized := True\<rparr>, app_tp = usb_zero\<lparr>usb_fd := 7, connected := True\<rparr>,
     app_perf = perf_logger_init \<lparr>tv_sec = 0, tv_nsec = 0\<rparr>, app_packet_addr = 500,
     app_packet_buffer = replicate MJPEG_MAX_PACKET_SIZE 0,
     app_frame = \<lparr>frm_buf = 0, frm_size = 0, frm_timestamp_us = 0, frm_num = 0\<rparr>, app_sequence = 0,
     app_frame_count = 11, app_error_count = 9, app_last_frame_ts = 0, app_jpeg_validation_error_count = 0,
     app_consecutive_jpeg_errors = 0, app_trace = []\<rparr>"

definition sample_seq_input :: seq_input where
  "sample_seq_input = \<lparr>si_running = True, si_clock = (\<lambda>k. \<lparr>tv_sec = int k, tv_nsec = 0\<rparr>),
     si_frame = \<lparr>f_poll = 1, f_dqbuf = (0, \<lparr>v_index = 2, v_userptr = 102, v_length = 65536, v_bytesused = 9\<rparr>),
       f_clock = \<lparr>tv_sec = 1, tv_nsec = 500000\<rparr>, f_qbuf = 0\<rparr>,
     si_mem = sample_jpeg, si_write = (\<lambda>k r. WriteErr EIO)\<rparr>"

theorem sequential_usb_errors_never_stop_witness:
  "\<exists>s'. seq_iteration sample_seq_input sample_app_state = Continue s' \<and> app_error_count s' \<le> 1 \<and> app_frame_count s' = 12"
proof -
  have i: "cam_initialized (app_mgr sample_app_state)"
    by (simp add: sample_app_state_def)
  obtain ret frame mgr tr where g: "camera_get_frame (si_frame sample_seq_input) (Some (app_frame sample_app_state))
      (app_mgr sample_app_state) = (ret, frame, mgr, tr)"
    by (metis prod_cases4)
  moreover have "0 \<le> ret"
    using g i by (auto simp: camera_get_frame_def sample_seq_input_def Let_def ERR_OK_def)
  moreover have "app_frame_count sample_app_state + 1 = 12"
    by (simp add: sample_app_state_def)
  ultimately show ?thesis
    using sequential_usb_errors_never_stop [of sample_seq_input sample_app_state] by auto
qed

text \<open>The camera latency is counted twice. The sequential loop stores the time of the capture call as
  poll latency and again as dequeue latency, and the logger adds the two: each recorded frame adds twice
  the measured time to the window's camera latency.\<close>

lemma camera_latency_counted_twice:
  "avg_latency_camera (accumulate (seq_metrics_sent inp packed ret (seq_metrics_captured frame (seq_metrics_start inp s))) st)
    = avg_latency_camera st +
      2 * ucast (perf_logger_get_timestamp_us (si_clock inp 2) - perf_logger_get_timestamp_us (si_clock inp 1))"
  by (simp add: accumulate_def seq_metrics_sent_def seq_metrics_captured_def seq_metrics_start_def Let_def)

text \<open>Metrics never reach the USB device. With the context \<open>main\<close> builds, the metrics step of the
  camera thread writes to descriptor 0 only, whatever descriptor the device was opened on.\<close>

lemma metrics_go_to_descriptor_0:
  assumes "launched inp main_thread_context s0 base s1" "sys_reach s1 s" "cam_send_metrics ci s = Next s'" "fd \<noteq> 0"
  shows "written fd (s_trace s') = written fd (s_trace s)"
proof -
  have "ctx_usb_fd (s_ctx s) = 0"
    using reach_run_inv [OF assms(2) launched_run_inv [OF assms(1)]]
    by (simp add: run_inv_def wire_ok_def main_thread_context_def)
  with assms(3,4) send_metrics_packet_trace [of _ _ 0 _ _ _ _ _ fd] show ?thesis
    by (auto simp: cam_send_metrics_def cam_goto_def split: option.splits if_splits)
qed

end
