(* ===== verification/Base64.thy ===== *)
theory Base64
  imports Prelude
begin

unbundle bit_operations_syntax

section \<open>Base 64 (netutils/codecs/base64.c)\<close>

text \<open>
  The encoder and the decoder in their standard and web-safe variants.  Characters are bytes; a returned
  buffer is the list of bytes stored in it, the encoder's terminating NUL included.  Whether \<open>malloc\<close>
  succeeds, when the caller passes no buffer, is an argument.
\<close>

subsection \<open>Operations\<close>

definition base64_tab :: "bool \<Rightarrow> u8 list" where
  "base64_tab websafe = map of_char
     (if websafe then ''ABCDEFGHIJKLMNOPQRSTUVWXYZabcdefghijklmnopqrstuvwxyz0123456789__''
      else ''ABCDEFGHIJKLMNOPQRSTUVWXYZabcdefghijklmnopqrstuvwxyz0123456789+/'')"

definition base64_pad :: "bool \<Rightarrow> u8" where
  "base64_pad websafe = of_char (if websafe then CHR ''.'' else CHR ''='')"

fun base64_encode_loop :: "u8 list \<Rightarrow> u8 \<Rightarrow> bytes \<Rightarrow> bytes" where
  "base64_encode_loop tab ch (a # b # c # rest) =
     tab ! unat (drop_bit 2 a) # tab ! unat (push_bit 4 (a AND 0x03) OR drop_bit 4 b) #
     tab ! unat (push_bit 2 (b AND 0x0F) OR drop_bit 6 c) # tab ! unat (c AND 0x3F) #
     base64_encode_loop tab ch rest"
| "base64_encode_loop tab ch [] = []"
| "base64_encode_loop tab ch [a] =
     [tab ! unat (drop_bit 2 a), tab ! unat (push_bit 4 (a AND 0x03)), ch, ch]"
| "base64_encode_loop tab ch [a, b] =
     [tab ! unat (drop_bit 2 a), tab ! unat (push_bit 4 (a AND 0x03) OR drop_bit 4 b),
      tab ! unat (push_bit 2 (b AND 0x0F)), ch]"

text \<open>The buffer as the function leaves it, and \<open>*out_len\<close>; \<open>None\<close> is the NULL result.\<close>

definition base64_encode_buffer :: "bool \<Rightarrow> bool \<Rightarrow> bytes \<Rightarrow> bool \<Rightarrow> (bytes \<times> nat) option" where
  "base64_encode_buffer malloc_ok has_dst src websafe =
     (if \<not> has_dst \<and> \<not> malloc_ok then None
      else (let out = base64_encode_loop (base64_tab websafe) (base64_pad websafe) src
            in Some (out @ [0], length out)))"

text \<open>
  \<open>strchr(base64_table, c)\<close> as an index: the first occurrence, the terminator for NUL, 0 when there is
  none.
\<close>

primrec index_from :: "nat \<Rightarrow> u8 list \<Rightarrow> u8 \<Rightarrow> nat option" where
  "index_from i [] c = None"
| "index_from i (x # xs) c = (if x = c then Some i else index_from (i + 1) xs c)"

definition base64_value :: "u8 list \<Rightarrow> u8 \<Rightarrow> u8" where
  "base64_value tab c =
     (if c = 0 then of_nat (length tab)
      else (case index_from 0 tab c of Some i \<Rightarrow> of_nat i | None \<Rightarrow> 0))"

text \<open>The decoding loop; \<open>block\<close> holds the values read since the last group, \<open>prev\<close> is \<open>src[i - 1]\<close>.\<close>

fun base64_decode_loop :: "u8 list \<Rightarrow> u8 \<Rightarrow> u8 list \<Rightarrow> u8 \<Rightarrow> bytes \<Rightarrow> bytes" where
  "base64_decode_loop tab ch block prev [] = []"
| "base64_decode_loop tab ch block prev (c # src) =
     (let block' = block @ [base64_value tab c]
      in if length block' = 4 then
           (push_bit 2 (block' ! 0) OR drop_bit 4 (block' ! 1)) #
           (if prev = ch then []
            else (push_bit 4 (block' ! 1) OR drop_bit 2 (block' ! 2)) #
              (if c = ch then []
               else (push_bit 6 (block' ! 2) OR block' ! 3) # base64_decode_loop tab ch [] c src))
         else base64_decode_loop tab ch block' c src)"

definition base64_decode_buffer :: "bool \<Rightarrow> bool \<Rightarrow> bytes \<Rightarrow> bool \<Rightarrow> (bytes \<times> nat) option" where
  "base64_decode_buffer malloc_ok has_dst src websafe =
     (if \<not> has_dst \<and> \<not> malloc_ok then None
      else (let out = base64_decode_loop (base64_tab websafe) (base64_pad websafe) [] 0 src
            in Some (out, length out)))"

definition base64_encode_length :: "nat \<Rightarrow> nat" where
  "base64_encode_length n = (n + 2) div 3 * 4"

definition base64_decode_length :: "nat \<Rightarrow> nat" where
  "base64_decode_length n = n * 3 div 4"

definition base64_encode :: "bool \<Rightarrow> bool \<Rightarrow> bytes \<Rightarrow> (bytes \<times> nat) option" where
  "base64_encode malloc_ok has_dst src = base64_encode_buffer malloc_ok has_dst src False"

definition base64_decode :: "bool \<Rightarrow> bool \<Rightarrow> bytes \<Rightarrow> (bytes \<times> nat) option" where
  "base64_decode malloc_ok has_dst src = base64_decode_buffer malloc_ok has_dst src False"

definition base64w_encode :: "bool \<Rightarrow> bool \<Rightarrow> bytes \<Rightarrow> (bytes \<times> nat) option" where
  "base64w_encode malloc_ok has_dst src = base64_encode_buffer malloc_ok has_dst src True"

definition base64w_decode :: "bool \<Rightarrow> bool \<Rightarrow> bytes \<Rightarrow> (bytes \<times> nat) option" where
  "base64w_decode malloc_ok has_dst src = base64_decode_buffer malloc_ok has_dst src True"

section \<open>Sextets\<close>

text \<open>The table indices an encoding uses, as words.\<close>

fun sextets :: "bytes \<Rightarrow> u8 list" where
  "sextets (a # b # c # rest) =
     [drop_bit 2 a, push_bit 4 (a AND 0x03) OR drop_bit 4 b, push_bit 2 (b AND 0x0F) OR drop_bit 6 c, c AND 0x3F]
     @ sextets rest"
| "sextets [] = []"
| "sextets [a] = [drop_bit 2 a, push_bit 4 (a AND 0x03)]"
| "sextets [a, b] = [drop_bit 2 a, push_bit 4 (a AND 0x03) OR drop_bit 4 b, push_bit 2 (b AND 0x0F)]"

lemma u8_eqI: "(\<And>n. n < 8 \<Longrightarrow> bit (x :: u8) n = bit y n) \<Longrightarrow> x = y"
  by (rule bit_word_eqI) simp

lemma less_8: "n < (8 :: nat) \<longleftrightarrow> n = 0 \<or> n = 1 \<or> n = 2 \<or> n = 3 \<or> n = 4 \<or> n = 5 \<or> n = 6 \<or> n = 7"
  by auto

text \<open>The masks the code uses, bit by bit (the simplifier reads a word numeral's bits off the integer).\<close>

lemma low_masks: "(3 :: int) = mask 2" "(15 :: int) = mask 4" "(63 :: int) = mask 6"
  "(48 :: int) = push_bit 4 (mask 2)" "(60 :: int) = push_bit 2 (mask 4)"
  by (simp_all add: mask_eq_exp_minus_1 push_bit_eq_mult)

lemma bit_low_masks:
  "bit (3 :: int) n \<longleftrightarrow> n < 2" "bit (15 :: int) n \<longleftrightarrow> n < 4" "bit (63 :: int) n \<longleftrightarrow> n < 6"
  "bit (48 :: int) n \<longleftrightarrow> 4 \<le> n \<and> n < 6" "bit (60 :: int) n \<longleftrightarrow> 2 \<le> n \<and> n < 6"
  unfolding low_masks by (auto simp: bit_mask_iff bit_push_bit_iff)

lemma joined_bytes:
  "push_bit 2 (drop_bit 2 a) OR drop_bit 4 (push_bit 4 (a AND 0x03) OR drop_bit 4 b) = (a :: u8)"
  "push_bit 4 (push_bit 4 (a AND 0x03) OR drop_bit 4 b) OR drop_bit 2 (push_bit 2 (b AND 0x0F) OR drop_bit 6 c) = (b :: u8)"
  "push_bit 6 (push_bit 2 (b AND 0x0F) OR drop_bit 6 c) OR (c AND 0x3F) = (c :: u8)"
  "push_bit 2 (drop_bit 2 a) OR drop_bit 4 (push_bit 4 (a AND 0x03)) = a"
  "push_bit 4 (push_bit 4 (a AND 0x03) OR drop_bit 4 b) OR drop_bit 2 (push_bit 2 (b AND 0x0F)) = b"
  "push_bit 2 (drop_bit 2 a) OR drop_bit 4 (push_bit 4 a) AND 3 = a"
  "push_bit 4 (drop_bit 4 b) OR drop_bit 2 (push_bit 2 b) AND 15 = b"
  "push_bit 6 (drop_bit 6 c) OR c AND 63 = c"
  by (rule u8_eqI, simp add: less_8, elim disjE; simp add: bit_simps bit_low_masks)+

lemma bit_u8: "bit (x :: u8) n \<Longrightarrow> n < 8"
  using bit_imp_le_length [of x n] by simp

lemma small_u8: "(\<And>n. bit (v :: u8) n \<Longrightarrow> n < 6) \<Longrightarrow> unat v < 64"
proof -
  assume "\<And>n. bit v n \<Longrightarrow> n < 6"
  then have "take_bit 6 v = v"
    by (intro bit_eqI) (auto simp: bit_take_bit_iff)
  then show ?thesis
    using take_bit_nat_less_exp [of 6 "unat v"] by (simp add: unsigned_take_bit_eq [symmetric])
qed

lemma small_values:
  "unat (drop_bit 2 x) < 64" "unat (push_bit 4 (x AND 0x03) OR drop_bit 4 y) < 64"
  "unat (push_bit 2 (x AND 0x0F) OR drop_bit 6 y) < 64" "unat (x AND 0x3F) < 64"
  "unat (push_bit 4 (x AND 0x03)) < 64" "unat (push_bit 2 (x AND 0x0F)) < 64" for x y :: u8
  by (rule small_u8; auto simp: bit_simps bit_low_masks dest!: bit_u8)+

lemma sextet_small: "\<forall>v \<in> set (sextets s). unat v < 64"
  by (induction s rule: sextets.induct) (simp_all only: sextets.simps set_simps set_append ball_Un ball_simps small_values simp_thms)

text \<open>A character table that can be inverted at the values \<open>V\<close> and does not contain the padding.\<close>

definition invertible :: "u8 list \<Rightarrow> u8 \<Rightarrow> u8 set \<Rightarrow> bool" where
  "invertible tab ch V \<longleftrightarrow> (\<forall>v \<in> V. base64_value tab (tab ! unat v) = v \<and> tab ! unat v \<noteq> ch)"

lemma decode_group:
  "base64_decode_loop tab ch [] prev (w # x # y # z # src) =
     (let b0 = base64_value tab w; b1 = base64_value tab x; b2 = base64_value tab y; b3 = base64_value tab z
      in (push_bit 2 b0 OR drop_bit 4 b1) #
         (if y = ch then []
          else (push_bit 4 b1 OR drop_bit 2 b2) #
            (if z = ch then [] else (push_bit 6 b2 OR b3) # base64_decode_loop tab ch [] z src)))"
  by (simp add: Let_def)

lemma decode_encode:
  assumes "invertible tab ch (set (sextets s))"
  shows "base64_decode_loop tab ch [] prev (base64_encode_loop tab ch s) = s"
  using assms
proof (induction s arbitrary: prev rule: sextets.induct)
  case (1 a b c rest)
  then have "invertible tab ch (set (sextets rest))"
    by (simp add: invertible_def)
  from "1.IH" [OF this] "1.prems" show ?case
    by (simp add: decode_group invertible_def joined_bytes Let_def del: base64_decode_loop.simps)
next
  case (3 a)
  then show ?case
    by (simp add: decode_group invertible_def joined_bytes Let_def del: base64_decode_loop.simps)
next
  case (4 a b)
  then show ?case
    by (simp add: decode_group invertible_def joined_bytes Let_def del: base64_decode_loop.simps)
qed simp

section \<open>The two tables\<close>

definition tab_codes :: "bool \<Rightarrow> nat list" where
  "tab_codes websafe = [65..<91] @ [97..<123] @ [48..<58] @ (if websafe then [95, 95] else [43, 47])"

lemma base64_tab_ascii: "base64_tab websafe = map of_nat (tab_codes websafe)"
  by (simp add: base64_tab_def tab_codes_def)

lemma tab_codes_bounds: "k \<in> set (tab_codes websafe) \<Longrightarrow> 43 \<le> k \<and> k < 123 \<and> k \<noteq> 46 \<and> k \<noteq> 61"
  by (cases websafe) (auto simp: tab_codes_def simp del: upt_rec_numeral)

lemma tab_codes_distinct:
  "distinct (take (if websafe then 63 else 64) (tab_codes websafe))" "length (tab_codes websafe) = 64"
  by (cases websafe; auto simp: tab_codes_def simp del: upt_rec_numeral)+

lemma index_from_first: "i < length xs \<Longrightarrow> xs ! i \<notin> set (take i xs) \<Longrightarrow> index_from k xs (xs ! i) = Some (k + i)"
proof (induction xs arbitrary: i k)
  case (Cons x xs)
  then show ?case
    by (cases i) auto
qed simp

lemma of_nat_u8_eq: "m < 256 \<Longrightarrow> n < 256 \<Longrightarrow> (of_nat m :: u8) = of_nat n \<longleftrightarrow> m = n"
  by (metis unat_of_nat_u8)

lemma inj_codes: "inj_on (of_nat :: nat \<Rightarrow> u8) (set (tab_codes websafe))"
proof (rule inj_onI)
  fix i j
  assume ij: "i \<in> set (tab_codes websafe)" "j \<in> set (tab_codes websafe)" "(of_nat i :: u8) = of_nat j"
  have "i < 256" "j < 256"
    using tab_codes_bounds [OF ij(1)] tab_codes_bounds [OF ij(2)] by simp_all
  with ij(3) show "i = j"
    by (simp only: of_nat_u8_eq)
qed

lemma not_in_tab: "m < 256 \<Longrightarrow> m \<notin> set (tab_codes websafe) \<Longrightarrow> of_nat m \<notin> set (base64_tab websafe)"
proof
  assume m: "m < 256" "m \<notin> set (tab_codes websafe)" "of_nat m \<in> set (base64_tab websafe)"
  then obtain k where k: "k \<in> set (tab_codes websafe)" "(of_nat m :: u8) = of_nat k"
    unfolding base64_tab_ascii set_map by blast
  have "k < 256"
    using tab_codes_bounds [OF k(1)] by simp
  with m(1) k(2) have "m = k"
    by (simp only: of_nat_u8_eq)
  with k(1) m(2) show False
    by simp
qed

lemma distinct_tab:
  "distinct (take (if websafe then 63 else 64) (base64_tab websafe))" "0 \<notin> set (base64_tab websafe)"
  "base64_pad websafe \<notin> set (base64_tab websafe)" "length (base64_tab websafe) = 64"
proof -
  let ?n = "if websafe then 63 else 64 :: nat"
  have "inj_on (of_nat :: nat \<Rightarrow> u8) (set (take ?n (tab_codes websafe)))"
    by (rule inj_on_subset [OF inj_codes set_take_subset])
  with tab_codes_distinct(1) show "distinct (take ?n (base64_tab websafe))"
    by (simp only: base64_tab_ascii take_map distinct_map simp_thms)
  have none: "0 \<notin> set (tab_codes websafe)" "46 \<notin> set (tab_codes websafe)" "61 \<notin> set (tab_codes websafe)"
    using tab_codes_bounds by fastforce+
  show "0 \<notin> set (base64_tab websafe)"
    using not_in_tab [OF _ none(1)] by simp
  have "base64_pad websafe = of_nat (if websafe then 46 else 61)"
    by (simp add: base64_pad_def)
  with not_in_tab [OF _ none(2)] not_in_tab [OF _ none(3)] show "base64_pad websafe \<notin> set (base64_tab websafe)"
    by (cases websafe) simp_all
  show "length (base64_tab websafe) = 64"
    by (simp only: base64_tab_ascii length_map tab_codes_distinct(2))
qed

lemma invertible_tab:
  assumes "\<forall>v \<in> V. unat v < (if websafe then 63 else 64)"
  shows "invertible (base64_tab websafe) (base64_pad websafe) V"
  unfolding invertible_def
proof
  fix v
  assume "v \<in> V"
  with assms have v: "unat v < (if websafe then 63 else 64)"
    by blast
  let ?tab = "base64_tab websafe" and ?n = "if websafe then 63 else 64 :: nat"
  have len: "unat v < length ?tab" "unat v < length (take ?n ?tab)"
    using v distinct_tab(4) [of websafe] by (auto split: if_splits)
  have "?tab ! unat v \<notin> set (take (unat v) ?tab)"
  proof
    assume "?tab ! unat v \<in> set (take (unat v) ?tab)"
    then obtain j where j: "j < unat v" "?tab ! j = ?tab ! unat v"
      by (auto simp: in_set_conv_nth)
    then have "take ?n ?tab ! j = take ?n ?tab ! unat v" "j < length (take ?n ?tab)"
      using v len by simp_all
    with distinct_tab(1) [of websafe] len(2) j(1) show False
      by (simp only: nth_eq_iff_index_eq)
  qed
  then have "index_from 0 ?tab (?tab ! unat v) = Some (unat v)"
    using index_from_first [OF len(1), of 0] by simp
  moreover have "?tab ! unat v \<noteq> 0" "?tab ! unat v \<noteq> base64_pad websafe"
    using distinct_tab(2,3) [of websafe] len(1) nth_mem by metis+
  ultimately show "base64_value ?tab (?tab ! unat v) = v \<and> ?tab ! unat v \<noteq> base64_pad websafe"
    by (simp add: base64_value_def)
qed

lemma length_encode_loop: "length (base64_encode_loop tab ch s) = base64_encode_length (length s)"
proof (induction s rule: sextets.induct)
  case (1 a b c rest)
  have "(length (a # b # c # rest) + 2) div 3 = (length rest + 2) div 3 + 1"
    using div_add_self2 [of 3 "length rest + 2"] by simp
  with 1 show ?case
    by (simp add: base64_encode_length_def)
qed (simp_all add: base64_encode_length_def)

lemma roundtrip_buffer:
  assumes "has_dst \<or> malloc_ok" "invertible (base64_tab websafe) (base64_pad websafe) (set (sextets src))"
  shows "\<exists>buf n. base64_encode_buffer malloc_ok has_dst src websafe = Some (buf, n) \<and>
    n = base64_encode_length (length src) \<and> length buf = n + 1 \<and> last buf = 0 \<and>
    base64_decode_buffer malloc_ok has_dst (take n buf) websafe = Some (src, length src)"
  using assms decode_encode [OF assms(2), of 0]
  by (auto simp: base64_encode_buffer_def base64_decode_buffer_def length_encode_loop Let_def)

lemma decode_loop_length:
  "length block < 4 \<Longrightarrow> length (base64_decode_loop tab ch block prev src) \<le> (length block + length src) div 4 * 3"
proof (induction src arbitrary: block prev)
  case (Cons c src)
  show ?case
  proof (cases "length block = 3")
    case True
    have "length (base64_decode_loop tab ch [] c src) \<le> length src div 4 * 3"
      using Cons.IH [of "[]" c] by simp
    moreover have "(length block + length (c # src)) div 4 = length src div 4 + 1"
      using True by simp
    ultimately show ?thesis
      using True by (auto simp: Let_def)
  next
    case False
    with Cons.prems Cons.IH [of "block @ [base64_value tab c]" c] show ?thesis
      by (simp add: Let_def)
  qed
qed simp

lemma websafe_repeats: "base64_tab True ! 62 = base64_tab True ! 63"
  by (simp add: base64_tab_def)

lemma websafe_collision: "base64_encode_loop (base64_tab True) ch [0xFB] = base64_encode_loop (base64_tab True) ch [0xFF]"
  by (simp add: websafe_repeats)

subsection \<open>Properties\<close>

text \<open>C37: Base 64 round trip. Unless the output cannot be allocated, encoding stores exactly the number
  of characters \<open>base64_encode_length\<close> announces and a NUL, and decoding those characters gives back the
  source and its length, for every source.\<close>

theorem base64_roundtrip:
  assumes "has_dst \<or> malloc_ok"
  shows "\<exists>buf n. base64_encode malloc_ok has_dst src = Some (buf, n) \<and>
    n = base64_encode_length (length src) \<and> length buf = n + 1 \<and> last buf = 0 \<and>
    base64_decode malloc_ok has_dst (take n buf) = Some (src, length src)"
proof -
  have "invertible (base64_tab False) (base64_pad False) (set (sextets src))"
    by (rule invertible_tab) (simp add: sextet_small)
  from roundtrip_buffer [OF assms this] show ?thesis
    by (simp add: base64_encode_def base64_decode_def)
qed

theorem base64_roundtrip_witness:
  "\<exists>buf n. base64_encode True False [0xFF, 0, 0xFB, 7] = Some (buf, n) \<and> n = 8 \<and>
    base64_decode True False (take n buf) = Some ([0xFF, 0, 0xFB, 7], 4)"
  using base64_roundtrip [of False True "[0xFF, 0, 0xFB, 7]"] by (auto simp: base64_encode_length_def)

text \<open>The web-safe variant does not. Its table has the same character at positions 62 and 63, so the
  round trip holds for sources without the value 63, and different sources share an encoding.\<close>

lemma base64w_roundtrip:
  assumes "has_dst \<or> malloc_ok" "63 \<notin> set (sextets src)"
  shows "(\<exists>buf n. base64w_encode malloc_ok has_dst src = Some (buf, n) \<and>
      base64w_decode malloc_ok has_dst (take n buf) = Some (src, length src)) \<and>
    base64w_encode malloc_ok has_dst [0xFB] = base64w_encode malloc_ok has_dst [0xFF]"
proof -
  have "unat v < 63" if "v \<in> set (sextets src)" for v
  proof -
    have "unat v < 64" "v \<noteq> 63"
      using sextet_small that assms(2) by auto
    moreover have "unat v \<noteq> unat (63 :: u8)"
      using calculation(2) by (simp only: word_unat_eq_iff) simp
    ultimately show ?thesis
      by simp
  qed
  then have "invertible (base64_tab True) (base64_pad True) (set (sextets src))"
    by (intro invertible_tab) simp
  from roundtrip_buffer [OF assms(1) this] show ?thesis
    unfolding base64w_encode_def base64w_decode_def
    by (auto simp only: base64_encode_buffer_def websafe_collision list.size)
qed

text \<open>The decoder stays within its buffer. Whatever it is given, it stores at most the bytes it has
  allocated for the source length, which is at most what \<open>base64_decode_length\<close> announces.\<close>

lemma base64_decode_fits:
  "case base64_decode_buffer malloc_ok has_dst src websafe of None \<Rightarrow> True
   | Some (out, n) \<Rightarrow> n = length out \<and> n \<le> length src div 4 * 3 \<and> n \<le> base64_decode_length (length src)"
proof -
  have "length src div 4 * 3 \<le> base64_decode_length (length src)"
    unfolding base64_decode_length_def by presburger
  with decode_loop_length [of "[]" "base64_tab websafe" "base64_pad websafe" 0 src] show ?thesis
    by (simp add: base64_decode_buffer_def Let_def)
qed

end
