(* ===== verification/UrlCodec.thy ===== *)
theory UrlCodec
  imports Prelude
begin

unbundle bit_operations_syntax

section \<open>URL encoding (netutils/codecs/urldecode.c)\<close>

text \<open>
  The three encoder and decoder pairs of the file: \<open>url_encode\<close>/\<open>url_decode\<close> on C strings in new memory,
  \<open>urlencode\<close>/\<open>urldecode\<close> on counted buffers with their length functions, and
  \<open>urlrawencode\<close>/\<open>urlrawdecode\<close>, which decodes in place.  A character is a byte (\<open>char\<close> is unsigned on the
  target).  A C string is the list of the bytes of its object, terminator included; a function that reads
  or writes outside an object, or through the NULL of a failed \<open>malloc\<close>, has the result \<open>None\<close>.
\<close>

subsection \<open>Characters\<close>

definition is_digit :: "u8 \<Rightarrow> bool" where
  "is_digit c \<longleftrightarrow> 0x30 \<le> c \<and> c \<le> 0x39"

definition is_lower :: "u8 \<Rightarrow> bool" where
  "is_lower c \<longleftrightarrow> 0x61 \<le> c \<and> c \<le> 0x7A"

definition is_upper :: "u8 \<Rightarrow> bool" where
  "is_upper c \<longleftrightarrow> 0x41 \<le> c \<and> c \<le> 0x5A"

definition is_alnum :: "u8 \<Rightarrow> bool" where
  "is_alnum c \<longleftrightarrow> is_digit c \<or> is_lower c \<or> is_upper c"

definition to_lower :: "u8 \<Rightarrow> u8" where
  "to_lower c = (if is_upper c then c + 0x20 else c)"

text \<open>\<open>IS_HEX_CHAR\<close> and \<open>HEX_VALUE\<close>.\<close>

definition is_hex_char :: "u8 \<Rightarrow> bool" where
  "is_hex_char ch \<longleftrightarrow> (0x30 \<le> ch \<and> ch \<le> 0x39) \<or> (0x61 \<le> ch \<and> ch \<le> 0x66) \<or> (0x41 \<le> ch \<and> ch \<le> 0x46)"

definition hex_value :: "u8 \<Rightarrow> u8" where
  "hex_value ch =
     (if 0x30 \<le> ch \<and> ch \<le> 0x39 then ch - 0x30
      else if 0x61 \<le> ch \<and> ch \<le> 0x66 then ch - 0x61 + 10
      else ch - 0x41 + 10)"

definition from_hex :: "u8 \<Rightarrow> u8" where
  "from_hex ch = (if is_digit ch then ch - 0x30 else to_lower ch - 0x61 + 10)"

definition to_hex :: "u8 \<Rightarrow> u8" where
  "to_hex code = map of_char ''0123456789abcdef'' ! unat (code AND 15)"

text \<open>The three bytes \<open>int2h\<close> stores at \<open>hstr\<close>.\<close>

definition int2h :: "u8 \<Rightarrow> bytes" where
  "int2h c =
     (let lo = c AND 0xF; hi = drop_bit 4 c AND 0xF
      in [if hi > 9 then hi - 10 + 0x61 else hi + 0x30, if lo > 9 then lo - 10 + 0x61 else lo + 0x30, 0])"

definition h2int :: "u8 \<Rightarrow> u8" where
  "h2int c =
     (if 0x30 \<le> c \<and> c \<le> 0x39 then c - 0x30
      else if 0x61 \<le> c \<and> c \<le> 0x66 then c - 0x61 + 10
      else if 0x41 \<le> c \<and> c \<le> 0x46 then c - 0x41 + 10
      else 0)"

definition c_strlen :: "bytes \<Rightarrow> nat option" where
  "c_strlen str = (if 0 \<in> set str then Some (length (takeWhile (\<lambda>c. c \<noteq> 0) str)) else None)"

subsection \<open>Strings in new memory\<close>

fun url_encode_loop :: "bytes \<Rightarrow> bytes option" where
  "url_encode_loop [] = None"
| "url_encode_loop (c # str) =
     (if c = 0 then Some []
      else map_option
        ((@) (if is_alnum c \<or> c = 0x2D \<or> c = 0x5F \<or> c = 0x2E \<or> c = 0x7E then [c]
              else if c = 0x20 then [0x2B]
              else [0x25, to_hex (drop_bit 4 c), to_hex (c AND 15)]))
        (url_encode_loop str))"

text \<open>\<open>malloc_ok\<close>: whether \<open>malloc\<close> succeeds; the result is what is stored in the new buffer.\<close>

definition url_encode :: "bool \<Rightarrow> bytes \<Rightarrow> bytes option" where
  "url_encode malloc_ok str =
     (case (c_strlen str, url_encode_loop str) of
        (Some n, Some out) \<Rightarrow> if malloc_ok \<and> length out + 1 \<le> n * 3 + 1 then Some (out @ [0]) else None
      | _ \<Rightarrow> None)"

fun url_decode_loop :: "bytes \<Rightarrow> bytes option" where
  "url_decode_loop [] = None"
| "url_decode_loop (c # str) =
     (if c = 0 then Some []
      else if c = 0x25 then
        (case str of
           [] \<Rightarrow> None
         | h # str1 \<Rightarrow>
             if h = 0 then url_decode_loop str
             else
               (case str1 of
                  [] \<Rightarrow> None
                | l # str2 \<Rightarrow>
                    if l = 0 then url_decode_loop str
                    else map_option ((#) (push_bit 4 (from_hex h) OR from_hex l)) (url_decode_loop str2)))
      else if c = 0x2B then map_option ((#) 0x20) (url_decode_loop str)
      else map_option ((#) c) (url_decode_loop str))"

definition url_decode :: "bool \<Rightarrow> bytes \<Rightarrow> bytes option" where
  "url_decode malloc_ok str =
     (case (c_strlen str, url_decode_loop str) of
        (Some n, Some out) \<Rightarrow> if malloc_ok \<and> length out + 1 \<le> n + 1 then Some (out @ [0]) else None
      | _ \<Rightarrow> None)"

subsection \<open>Counted buffers\<close>

text \<open>
  The source is its \<open>src_len\<close> bytes; the result is what is stored at \<open>dest\<close> and \<open>*dest_len\<close>.  The C
  \<open>int\<close>s are numbers: a buffer of the target is far below the 2^31 bytes at which they would wrap.
\<close>

definition hex_chars :: "u8 list" where
  "hex_chars = map of_char ''0123456789ABCDEF''"

fun urlencode_loop :: "bytes \<Rightarrow> bytes" where
  "urlencode_loop [] = []"
| "urlencode_loop (c # src) =
     (if (0x30 \<le> c \<and> c \<le> 0x39) \<or> (0x61 \<le> c \<and> c \<le> 0x7A) \<or> (0x41 \<le> c \<and> c \<le> 0x5A) \<or>
         (c = 0x5F \<or> c = 0x2D \<or> c = 0x2E \<or> c = 0x7E) then [c]
      else if c = 0x20 then [0x2B]
      else [0x25, hex_chars ! unat (drop_bit 4 c), hex_chars ! unat (c AND 0x0F)])
     @ urlencode_loop src"

definition urlencode :: "bytes \<Rightarrow> bytes \<times> nat" where
  "urlencode src = (let out = urlencode_loop src in (out @ [0], length out))"

fun urldecode_loop :: "bytes \<Rightarrow> bytes" where
  "urldecode_loop [] = []"
| "urldecode_loop (c # src) =
     (if c = 0x25 \<and> 2 \<le> length src then
        (if is_hex_char (src ! 0) \<and> is_hex_char (src ! 1)
         then (push_bit 4 (hex_value (src ! 0)) OR hex_value (src ! 1)) # urldecode_loop (drop 2 src)
         else c # urldecode_loop src)
      else if c = 0x2B then 0x20 # urldecode_loop src
      else c # urldecode_loop src)"

definition urldecode :: "bytes \<Rightarrow> bytes \<times> nat" where
  "urldecode src = (let out = urldecode_loop src in (out @ [0], length out))"

fun urlencode_len :: "bytes \<Rightarrow> nat" where
  "urlencode_len [] = 0"
| "urlencode_len (c # src) =
     (if (0x30 \<le> c \<and> c \<le> 0x39) \<or> (0x61 \<le> c \<and> c \<le> 0x7A) \<or> (0x41 \<le> c \<and> c \<le> 0x5A) \<or>
         (c = 0x5F \<or> c = 0x2D \<or> c = 0x2E \<or> c = 0x7E \<or> c = 0x20) then 1 else 3)
     + urlencode_len src"

fun urldecode_len :: "bytes \<Rightarrow> nat" where
  "urldecode_len [] = 0"
| "urldecode_len (c # src) =
     1 + urldecode_len (if c = 0x25 \<and> 2 \<le> length src \<and> is_hex_char (src ! 0) \<and> is_hex_char (src ! 1)
                        then drop 2 src else src)"

subsection \<open>Decoding in place\<close>

text \<open>\<open>i\<close> and \<open>d\<close> are the offsets of \<open>urlbuf\<close> and \<open>dst\<close> in the one buffer.\<close>

function urlrawdecode_loop :: "bytes \<Rightarrow> nat \<Rightarrow> nat \<Rightarrow> bytes option" where
  "urlrawdecode_loop buf i d =
     (if length buf \<le> i then None
      else
        (let c = buf ! i
         in if c = 0 then (if d < length buf then Some (buf[d := 0]) else None)
            else if c = 0x25 then
              (if length buf \<le> i + 2 then None
               else urlrawdecode_loop (buf[d := push_bit 4 (h2int (buf ! (i + 1))) OR h2int (buf ! (i + 2))])
                      (i + 3) (d + 1))
            else urlrawdecode_loop (buf[d := if c = 0x2B then 0x20 else c]) (i + 1) (d + 1)))"
  by pat_completeness auto

termination
  by (relation "measure (\<lambda>(buf, i, d). length buf - i)") auto

declare urlrawdecode_loop.simps [simp del]

definition urlrawdecode :: "bytes \<Rightarrow> bytes option" where
  "urlrawdecode buf = urlrawdecode_loop buf 0 0"

text \<open>
  The terminator \<open>int2h\<close> stores after its two digits is overwritten by what the loop stores next, so the
  output keeps the digits alone.
\<close>

fun urlrawencode_loop :: "bytes \<Rightarrow> bytes option" where
  "urlrawencode_loop [] = None"
| "urlrawencode_loop (c # str) =
     (if c = 0 then Some []
      else map_option
        ((@) (if c = 0x20 \<or> is_alnum c \<or> c = 0x5F \<or> c = 0x2D \<or> c = 0x2E \<or> c = 0x7E
              then [if c = 0x20 then 0x2B else c]
              else 0x25 # take 2 (int2h c)))
        (urlrawencode_loop str))"

definition urlrawencode :: "bytes \<Rightarrow> bytes option" where
  "urlrawencode str = map_option (\<lambda>out. out @ [0]) (urlrawencode_loop str)"

section \<open>Hexadecimal digits\<close>

lemma nibble_cases:
  assumes "unat (v :: u8) < 16"
  obtains "v = 0" | "v = 1" | "v = 2" | "v = 3" | "v = 4" | "v = 5" | "v = 6" | "v = 7" | "v = 8" | "v = 9"
    | "v = 10" | "v = 11" | "v = 12" | "v = 13" | "v = 14" | "v = 15"
proof -
  have "unat v = 0 \<or> unat v = 1 \<or> unat v = 2 \<or> unat v = 3 \<or> unat v = 4 \<or> unat v = 5 \<or> unat v = 6 \<or>
    unat v = 7 \<or> unat v = 8 \<or> unat v = 9 \<or> unat v = 10 \<or> unat v = 11 \<or> unat v = 12 \<or> unat v = 13 \<or>
    unat v = 14 \<or> unat v = 15"
    using assms by presburger
  with that show thesis
    by (simp add: word_unat_eq_iff) (elim disjE; simp)
qed

definition hex_coding :: "(u8 \<Rightarrow> u8) \<Rightarrow> (u8 \<Rightarrow> u8) \<Rightarrow> bool" where
  "hex_coding digit val \<longleftrightarrow> (\<forall>v. unat v < 16 \<longrightarrow> val (digit v) = v \<and> is_hex_char (digit v))"

lemma to_hex_coding: "hex_coding to_hex from_hex"
  unfolding hex_coding_def
  by (intro allI impI, erule nibble_cases)
    (simp_all add: to_hex_def from_hex_def is_digit_def to_lower_def is_upper_def is_hex_char_def)

lemma upper_hex_coding: "hex_coding (\<lambda>v. hex_chars ! unat v) hex_value"
  unfolding hex_coding_def
  by (intro allI impI, erule nibble_cases) (simp_all add: hex_chars_def hex_value_def is_hex_char_def)

lemma int2h_coding: "hex_coding (\<lambda>v. if v > 9 then v - 10 + 0x61 else v + 0x30) h2int"
  unfolding hex_coding_def
  by (intro allI impI, erule nibble_cases) (simp_all add: h2int_def is_hex_char_def)

lemma nibbles:
  "unat (drop_bit 4 (c :: u8)) < 16" "unat (c AND 15) < 16" "push_bit 4 (drop_bit 4 c) OR (c AND 15) = c"
  "drop_bit 4 c AND 15 = drop_bit 4 c"
proof -
  have low: "v AND 15 = take_bit 4 v" for v :: u8
    by (simp add: take_bit_eq_mask mask_numeral)
  have "drop_bit 4 (unat c) < 16"
    using unsigned_less [where 'a = nat, of c] by (simp add: drop_bit_eq_div)
  then show "unat (drop_bit 4 c) < 16"
    by (simp only: unat_drop_bit_eq)
  show "unat (c AND 15) < 16"
    using take_bit_nat_less_exp [of 4 "unat c"] by (simp add: low unsigned_take_bit_eq)
  show "push_bit 4 (drop_bit 4 c) OR (c AND 15) = c"
    unfolding low by (rule bit_word_eqI) (auto simp: bit_simps)
  show "drop_bit 4 c AND 15 = drop_bit 4 c"
    unfolding low by (rule bit_word_eqI) (auto simp: bit_simps dest: bit_imp_le_length)
qed

lemma coded_nibbles:
  assumes "hex_coding digit val"
  shows "push_bit 4 (val (digit (drop_bit 4 c))) OR val (digit (c AND 15)) = c"
    "is_hex_char (digit (drop_bit 4 c))" "is_hex_char (digit (c AND 15))"
  using assms nibbles [of c] by (simp_all only: hex_coding_def simp_thms)

lemma hex_char_nonzero: "is_hex_char c \<Longrightarrow> c \<noteq> 0"
  by (auto simp: is_hex_char_def)

section \<open>Codes of single characters\<close>

text \<open>
  The contract of a code that encodes one character at a time: the decoder, given the code of a
  character and whatever follows, gives the character and goes on with what follows.  A decoder of
  counted buffers ends at the end (\<open>fin = []\<close>), one of C strings at the terminator (\<open>fin = [0]\<close>).
\<close>

locale char_code =
  fixes emit :: "u8 \<Rightarrow> bytes"
    and dec :: "bytes \<Rightarrow> bytes option"
    and good :: "u8 \<Rightarrow> bool"
    and fin :: bytes
  assumes dec_fin: "dec fin = Some []"
    and dec_emit: "good c \<Longrightarrow> dec (emit c @ rest) = map_option ((#) c) (dec rest)"
    and emit_short: "length (emit c) \<le> 3"
begin

lemma decode_encoded: "\<forall>c \<in> set s. good c \<Longrightarrow> dec (concat (map emit s) @ fin) = Some s"
proof (induction s)
  case (Cons c s)
  then show ?case
    using dec_emit [of c "concat (map emit s) @ fin"] by simp
qed (simp add: dec_fin)

lemma encoded_length: "length (concat (map emit s)) \<le> 3 * length s"
proof (induction s)
  case (Cons c s)
  with emit_short [of c] show ?case
    by simp
qed simp

lemma encoded_inject:
  assumes "\<forall>c \<in> set s. good c" "\<forall>c \<in> set t. good c" "concat (map emit s) = concat (map emit t)"
  shows "s = t"
  using decode_encoded [OF assms(1)] decode_encoded [OF assms(2)] unfolding assms(3) by simp

end

text \<open>The code of a character in each of the three encoders.\<close>

definition unreserved :: "u8 \<Rightarrow> bool" where
  "unreserved c \<longleftrightarrow> is_alnum c \<or> c = 0x2D \<or> c = 0x5F \<or> c = 0x2E \<or> c = 0x7E"

definition emit_with :: "(u8 \<Rightarrow> u8) \<Rightarrow> u8 \<Rightarrow> bytes" where
  "emit_with digit c =
     (if unreserved c then [c] else if c = 0x20 then [0x2B] else [0x25, digit (drop_bit 4 c), digit (c AND 15)])"

abbreviation int2h_digit :: "u8 \<Rightarrow> u8" where
  "int2h_digit v \<equiv> if v > 9 then v - 10 + 0x61 else v + 0x30"

abbreviation upper_digit :: "u8 \<Rightarrow> u8" where
  "upper_digit v \<equiv> hex_chars ! unat v"

lemma unreserved_not_special: "unreserved c \<Longrightarrow> c \<noteq> 0 \<and> c \<noteq> 0x25 \<and> c \<noteq> 0x2B \<and> c \<noteq> 0x20"
  by (auto simp: unreserved_def is_alnum_def is_digit_def is_lower_def is_upper_def)

lemma emit_with_short: "length (emit_with digit c) \<le> 3"
  by (simp add: emit_with_def)

lemma string_encode_emits:
  "url_encode_loop (s @ [0]) = Some (concat (map (emit_with to_hex) s))" if "0 \<notin> set s"
  using that by (induction s) (simp_all add: emit_with_def unreserved_def)

lemma raw_encode_emits:
  "urlrawencode_loop (s @ [0]) = Some (concat (map (emit_with int2h_digit) s))" if "0 \<notin> set s"
  using that
proof (induction s)
  case (Cons c s)
  then show ?case
    using nibbles(4) [of c] unreserved_not_special [of c]
    by (auto simp: emit_with_def unreserved_def int2h_def Let_def)
qed simp

lemma counted_encode_emits: "urlencode_loop s = concat (map (emit_with upper_digit) s)"
  by (induction s) (auto simp: emit_with_def unreserved_def is_alnum_def is_digit_def is_lower_def is_upper_def)

text \<open>
  The three interpretations have one shape: the decoder's equations on an escape and on a plain
  character give the law.
\<close>

lemma decode_emit_with:
  assumes "hex_coding digit val"
    and "\<And>h l. is_hex_char h \<Longrightarrow> is_hex_char l \<Longrightarrow>
      dec (0x25 # h # l # rest) = map_option ((#) (push_bit 4 (val h) OR val l)) (dec rest)"
    and "\<And>c. unreserved c \<Longrightarrow> dec (c # rest) = map_option ((#) c) (dec rest)"
    and "dec (0x2B # rest) = map_option ((#) 0x20) (dec rest)"
  shows "dec (emit_with digit c @ rest) = map_option ((#) c) (dec rest)"
  using assms(2) [OF coded_nibbles(2,3) [OF assms(1)], of c c] assms(3) [of c] assms(4) coded_nibbles(1) [OF assms(1), of c]
  by (auto simp: emit_with_def)

interpretation strings: char_code "emit_with to_hex" url_decode_loop "\<lambda>c. True" "[0]"
  by unfold_locales
    (simp, rule decode_emit_with [OF to_hex_coding],
      simp_all add: emit_with_short unreserved_not_special hex_char_nonzero)

interpretation counted: char_code "emit_with upper_digit" "\<lambda>s. Some (urldecode_loop s)" "\<lambda>c. True" "[]"
  by unfold_locales
    (simp, rule decode_emit_with [OF upper_hex_coding], simp_all add: emit_with_short unreserved_not_special)

section \<open>Decoding in place as a function of the stream\<close>

text \<open>The decoder as it would be without sharing the buffer: from the bytes to the decoded string.\<close>

fun raw_decode :: "bytes \<Rightarrow> bytes option" where
  "raw_decode [] = None"
| "raw_decode (c # str) =
     (if c = 0 then Some []
      else if c = 0x25 then
        (case str of
           h # l # rest \<Rightarrow> map_option ((#) (push_bit 4 (h2int h) OR h2int l)) (raw_decode rest)
         | _ \<Rightarrow> None)
      else map_option ((#) (if c = 0x2B then 0x20 else c)) (raw_decode str))"

interpretation raw: char_code "emit_with int2h_digit" raw_decode "\<lambda>c. True" "[0]"
  by unfold_locales
    (simp, rule decode_emit_with [OF int2h_coding], simp_all add: emit_with_short unreserved_not_special)

lemma raw_decode_step:
  assumes "i < length buf"
  shows "raw_decode (drop i buf) =
     (if buf ! i = 0 then Some []
      else if buf ! i = 0x25 then
        (if length buf \<le> i + 2 then None
         else map_option ((#) (push_bit 4 (h2int (buf ! (i + 1))) OR h2int (buf ! (i + 2)))) (raw_decode (drop (i + 3) buf)))
      else map_option ((#) (if buf ! i = 0x2B then 0x20 else buf ! i)) (raw_decode (drop (i + 1) buf)))"
proof (cases "i + 2 < length buf")
  case True
  then have "drop i buf = buf ! i # buf ! (i + 1) # buf ! (i + 2) # drop (i + 3) buf"
    "drop (i + 1) buf = buf ! (i + 1) # buf ! (i + 2) # drop (i + 3) buf"
    by (simp_all add: Cons_nth_drop_Suc [symmetric] numeral_2_eq_2 numeral_3_eq_3)
  with True show ?thesis
    by simp
next
  case False
  then have len: "length (drop (i + 1) buf) \<le> 1" and drop: "drop i buf = buf ! i # drop (i + 1) buf"
    using assms by (simp_all add: Cons_nth_drop_Suc)
  show ?thesis
  proof (cases "drop (i + 1) buf")
    case Nil
    then show ?thesis
      using False unfolding drop Nil by simp
  next
    case (Cons x xs)
    then have "xs = []"
      using len unfolding Cons by simp
    with Cons show ?thesis
      using False unfolding drop Cons by simp
  qed
qed

lemma write_in_place:
  assumes "d < n" "d < length (buf :: bytes)"
  shows "take (d + 1) (buf[d := x]) = take d buf @ [x]" "drop n (buf[d := x]) = drop n buf"
  using assms by (simp_all add: take_Suc_conv_app_nth take_update_cancel drop_update_cancel)

definition overwritten :: "bytes \<Rightarrow> nat \<Rightarrow> bytes \<Rightarrow> bytes" where
  "overwritten buf d out = take d buf @ out @ [0] @ drop (d + length out + 1) buf"

lemma overwritten_write:
  "d < length buf \<Longrightarrow> overwritten (buf[d := x]) (Suc d) = (\<lambda>out. overwritten buf d (x # out))"
  "d < length buf \<Longrightarrow> overwritten buf d [] = buf[d := 0]"
  by (simp_all add: overwritten_def fun_eq_iff write_in_place(1) [simplified] drop_update_cancel upd_conv_take_nth_drop add.commute)

lemma in_place_decode:
  "d \<le> i \<Longrightarrow> urlrawdecode_loop buf i d = map_option (overwritten buf d) (raw_decode (drop i buf))"
proof (induction buf i d rule: urlrawdecode_loop.induct)
  case (1 buf i d)
  show ?case
  proof (cases "length buf \<le> i")
    case True
    then show ?thesis
      by (simp add: urlrawdecode_loop.simps)
  next
    case False
    with "1.prems" have d: "d < length buf" "i < length buf"
      by simp_all
    have "drop (i + 3) (buf[d := x]) = drop (i + 3) buf" "drop (i + 1) (buf[d := x]) = drop (i + 1) buf" for x
      using "1.prems" d by (simp_all only: write_in_place(2))
    with 1 False d show ?thesis
      unfolding urlrawdecode_loop.simps [of buf i d] raw_decode_step [OF d(2)]
      by (simp add: Let_def option.map_comp comp_def overwritten_write)
  qed
qed

section \<open>Buffer sizes\<close>

lemma c_strlen_terminated: "0 \<notin> set s \<Longrightarrow> c_strlen (s @ 0 # rest) = Some (length s)"
  by (simp add: c_strlen_def takeWhile_tail) (metis (mono_tags, lifting) takeWhile_eq_all_conv)

lemma urldecode_loop_length: "urldecode_len src = length (urldecode_loop src)" "length (urldecode_loop src) \<le> length src"
  by (induction src rule: urldecode_loop.induct) (auto simp: Let_def)

lemma urlencode_loop_length: "urlencode_len src = length (urlencode_loop src)" "length (urlencode_loop src) \<le> 3 * length src"
proof -
  show "urlencode_len src = length (urlencode_loop src)"
    by (induction src) auto
  show "length (urlencode_loop src) \<le> 3 * length src"
    unfolding counted_encode_emits by (rule counted.encoded_length)
qed

lemma url_decode_loop_total:
  "0 \<notin> set s \<Longrightarrow> \<exists>out. url_decode_loop (s @ [0]) = Some out \<and> length out \<le> length s"
proof (induction s rule: length_induct)
  case (1 s)
  show ?case
  proof (cases s)
    case (Cons c t)
    have IH: "\<exists>out. url_decode_loop (u @ [0]) = Some out \<and> length out \<le> length u"
      if "length u < length s" "set u \<subseteq> set s" for u
      using 1 that by auto
    have "\<exists>out. url_decode_loop (t @ [0]) = Some out \<and> length out \<le> length t"
      using IH [of t] Cons by auto
    moreover have "\<exists>out. url_decode_loop (u @ [0]) = Some out \<and> length out \<le> length u" if "t = h # l # u" for h l u
      using IH [of u] Cons that by auto
    ultimately show ?thesis
      using Cons "1.prems" by (cases t rule: remdups_adj.cases) fastforce+
  qed simp
qed

lemma emitted_nonzero:
  assumes "hex_coding digit val"
  shows "0 \<notin> set (emit_with digit c)"
proof -
  have "digit (drop_bit 4 c) \<noteq> 0" "digit (c AND 15) \<noteq> 0"
    using coded_nibbles(2,3) [OF assms, of c] hex_char_nonzero by simp_all
  then show ?thesis
    by (auto simp: emit_with_def unreserved_not_special)
qed

lemma emitted_nonempty: "emit_with digit c \<noteq> []"
  by (simp add: emit_with_def)

lemma length_concat_nonempty: "(\<And>x. f x \<noteq> []) \<Longrightarrow> length xs \<le> length (concat (map f xs))"
proof (induction xs)
  case (Cons x xs)
  then have "1 \<le> length (f x)"
    by (simp add: Suc_le_eq)
  with Cons show ?case
    by simp
qed simp

section \<open>Properties\<close>

text \<open>C38: URL encoding of counted buffers. For every source, decoding the characters stored by
  \<open>urlencode\<close> gives back the source; the lengths both functions store are those the length functions
  announce, at most three times the source and at most the source.\<close>

theorem urlencode_roundtrip:
  "urldecode (take (snd (urlencode src)) (fst (urlencode src))) = (src @ [0], length src) \<and>
    snd (urlencode src) = urlencode_len src \<and> urlencode_len src \<le> 3 * length src \<and>
    snd (urldecode src) = urldecode_len src \<and> urldecode_len src \<le> length src"
proof -
  have "urldecode_loop (urlencode_loop src) = src"
    using counted.decode_encoded [of src] by (simp add: counted_encode_emits)
  then show ?thesis
    using urlencode_loop_length [of src] urldecode_loop_length [of src]
    by (simp add: urlencode_def urldecode_def Let_def)
qed

text \<open>URL encoding of C strings. When \<open>malloc\<close> succeeds, encoding and decoding any C string stay
  within the string and the buffer allocated, and decoding an encoded string gives back the string.\<close>

lemma url_encode_roundtrip:
  assumes "0 \<notin> set s"
  shows "(\<exists>buf. url_encode True (s @ [0]) = Some buf \<and> url_decode True buf = Some (s @ [0])) \<and>
    (\<exists>out. url_decode True (s @ [0]) = Some (out @ [0]) \<and> length out \<le> length s)"
proof -
  let ?enc = "concat (map (emit_with to_hex) s)"
  have "0 \<notin> set ?enc" "length s \<le> length ?enc"
    using emitted_nonzero [OF to_hex_coding] length_concat_nonempty [OF emitted_nonempty] by auto
  then have "url_decode True (?enc @ [0]) = Some (s @ [0])"
    using strings.decode_encoded [of s] by (simp add: url_decode_def c_strlen_terminated)
  moreover have "url_encode True (s @ [0]) = Some (?enc @ [0])"
    using strings.encoded_length [of s] string_encode_emits [OF assms] assms
    by (simp add: url_encode_def c_strlen_terminated mult.commute)
  moreover have "\<exists>out. url_decode True (s @ [0]) = Some (out @ [0]) \<and> length out \<le> length s"
    using url_decode_loop_total [OF assms] assms by (auto simp: url_decode_def c_strlen_terminated)
  ultimately show ?thesis
    by blast
qed

text \<open>Decoding in place. \<open>urlrawdecode\<close>, which reads and writes one buffer, gives what decoding into
  a second buffer gives, written over the start of the buffer with a terminator; it undoes \<open>urlrawencode\<close>
  on every C string; but on a string that ends with a lone percent sign it reads past the terminator.\<close>

lemma urlrawdecode_in_place:
  assumes "0 \<notin> set s" "0x25 \<notin> set t" "0 \<notin> set t"
  shows "urlrawdecode buf = map_option (\<lambda>out. out @ [0] @ drop (length out + 1) buf) (raw_decode buf) \<and>
    (\<exists>enc. urlrawencode (s @ [0]) = Some enc \<and> length enc \<le> 3 * length s + 1 \<and>
      map_option (take (length s + 1)) (urlrawdecode enc) = Some (s @ [0])) \<and>
    urlrawdecode (t @ [0x25, 0]) = None"
proof -
  have in_place: "urlrawdecode b = map_option (\<lambda>out. out @ [0] @ drop (length out + 1) b) (raw_decode b)" for b
    unfolding urlrawdecode_def using in_place_decode [of 0 0 b] by (simp add: overwritten_def [abs_def])
  let ?enc = "concat (map (emit_with int2h_digit) s) @ [0]"
  have "urlrawencode (s @ [0]) = Some ?enc"
    unfolding urlrawencode_def raw_encode_emits [OF assms(1)] by simp
  moreover have "length ?enc \<le> 3 * length s + 1"
    using raw.encoded_length [of s] by (simp only: length_append list.size)
  moreover have "map_option (take (length s + 1)) (urlrawdecode ?enc) = Some (s @ [0])"
    unfolding in_place raw.decode_encoded [of s, OF ballI [OF TrueI]] by simp
  moreover have "raw_decode (t @ [0x25, 0]) = None"
    using assms(2,3) by (induction t) simp_all
  then have "urlrawdecode (t @ [0x25, 0]) = None"
    by (simp only: in_place option.map)
  ultimately show ?thesis
    using in_place by blast
qed

end
