(* ===== verification/Md5.thy ===== *)
theory Md5
  imports Prelude
begin

unbundle bit_operations_syntax

section \<open>MD5 (netutils/codecs/md5.c)\<close>

text \<open>
  The streaming hash: context, transform, update, final, and the one-shot functions on a buffer and on a
  file.  The target is little endian, so \<open>byte_reverse\<close> is empty and \<open>(uint32_t *)ctx->in\<close> reads
  little-endian words.  The four registers of the transform are the variables \<open>a\<close> to \<open>d\<close> of the code and
  its 64 \<open>MD5STEP\<close> lines a table of operands, read in order.
\<close>

subsection \<open>Context and steps\<close>

record md5_context =
  md5_buf :: "u32 list"
  md5_bits0 :: u32
  md5_bits1 :: u32
  md5_in :: bytes

datatype md5_fn = F1 | F2 | F3 | F4

definition md5_F1 :: "u32 \<Rightarrow> u32 \<Rightarrow> u32 \<Rightarrow> u32" where
  "md5_F1 x y z = z XOR (x AND (y XOR z))"

fun md5_apply :: "md5_fn \<Rightarrow> u32 \<Rightarrow> u32 \<Rightarrow> u32 \<Rightarrow> u32" where
  "md5_apply F1 x y z = md5_F1 x y z"
| "md5_apply F2 x y z = md5_F1 z x y"
| "md5_apply F3 x y z = x XOR y XOR z"
| "md5_apply F4 x y z = y XOR (x OR NOT z)"

datatype md5_reg = Ra | Rb | Rc | Rd

type_synonym md5_regs = "u32 \<times> u32 \<times> u32 \<times> u32"

fun reg :: "md5_regs \<Rightarrow> md5_reg \<Rightarrow> u32" where
  "reg (a, b, c, d) Ra = a"
| "reg (a, b, c, d) Rb = b"
| "reg (a, b, c, d) Rc = c"
| "reg (a, b, c, d) Rd = d"

fun set_reg :: "md5_reg \<Rightarrow> u32 \<Rightarrow> md5_regs \<Rightarrow> md5_regs" where
  "set_reg Ra v (a, b, c, d) = (v, b, c, d)"
| "set_reg Rb v (a, b, c, d) = (a, v, c, d)"
| "set_reg Rc v (a, b, c, d) = (a, b, v, d)"
| "set_reg Rd v (a, b, c, d) = (a, b, c, v)"

type_synonym md5_operands = "md5_fn \<times> md5_reg \<times> md5_reg \<times> md5_reg \<times> md5_reg \<times> nat \<times> u32 \<times> nat"

text \<open>\<open>MD5STEP(f, w, x, y, z, in[k] + t, s)\<close>.\<close>

definition md5_step :: "u32 list \<Rightarrow> md5_operands \<Rightarrow> md5_regs \<Rightarrow> md5_regs" where
  "md5_step inp = (\<lambda>(f, w, x, y, z, k, t, s) r.
     (let v = reg r w + (md5_apply f (reg r x) (reg r y) (reg r z) + (inp ! k + t));
          v = push_bit s v OR drop_bit (32 - s) v
      in set_reg w (v + reg r x) r))"

definition md5_steps :: "md5_operands list" where
  "md5_steps =
  [(F1, Ra, Rb, Rc, Rd, 0, 0xd76aa478, 7), (F1, Rd, Ra, Rb, Rc, 1, 0xe8c7b756, 12),
   (F1, Rc, Rd, Ra, Rb, 2, 0x242070db, 17), (F1, Rb, Rc, Rd, Ra, 3, 0xc1bdceee, 22),
   (F1, Ra, Rb, Rc, Rd, 4, 0xf57c0faf, 7), (F1, Rd, Ra, Rb, Rc, 5, 0x4787c62a, 12),
   (F1, Rc, Rd, Ra, Rb, 6, 0xa8304613, 17), (F1, Rb, Rc, Rd, Ra, 7, 0xfd469501, 22),
   (F1, Ra, Rb, Rc, Rd, 8, 0x698098d8, 7), (F1, Rd, Ra, Rb, Rc, 9, 0x8b44f7af, 12),
   (F1, Rc, Rd, Ra, Rb, 10, 0xffff5bb1, 17), (F1, Rb, Rc, Rd, Ra, 11, 0x895cd7be, 22),
   (F1, Ra, Rb, Rc, Rd, 12, 0x6b901122, 7), (F1, Rd, Ra, Rb, Rc, 13, 0xfd987193, 12),
   (F1, Rc, Rd, Ra, Rb, 14, 0xa679438e, 17), (F1, Rb, Rc, Rd, Ra, 15, 0x49b40821, 22),
   (F2, Ra, Rb, Rc, Rd, 1, 0xf61e2562, 5), (F2, Rd, Ra, Rb, Rc, 6, 0xc040b340, 9),
   (F2, Rc, Rd, Ra, Rb, 11, 0x265e5a51, 14), (F2, Rb, Rc, Rd, Ra, 0, 0xe9b6c7aa, 20),
   (F2, Ra, Rb, Rc, Rd, 5, 0xd62f105d, 5), (F2, Rd, Ra, Rb, Rc, 10, 0x02441453, 9),
   (F2, Rc, Rd, Ra, Rb, 15, 0xd8a1e681, 14), (F2, Rb, Rc, Rd, Ra, 4, 0xe7d3fbc8, 20),
   (F2, Ra, Rb, Rc, Rd, 9, 0x21e1cde6, 5), (F2, Rd, Ra, Rb, Rc, 14, 0xc33707d6, 9),
   (F2, Rc, Rd, Ra, Rb, 3, 0xf4d50d87, 14), (F2, Rb, Rc, Rd, Ra, 8, 0x455a14ed, 20),
   (F2, Ra, Rb, Rc, Rd, 13, 0xa9e3e905, 5), (F2, Rd, Ra, Rb, Rc, 2, 0xfcefa3f8, 9),
   (F2, Rc, Rd, Ra, Rb, 7, 0x676f02d9, 14), (F2, Rb, Rc, Rd, Ra, 12, 0x8d2a4c8a, 20),
   (F3, Ra, Rb, Rc, Rd, 5, 0xfffa3942, 4), (F3, Rd, Ra, Rb, Rc, 8, 0x8771f681, 11),
   (F3, Rc, Rd, Ra, Rb, 11, 0x6d9d6122, 16), (F3, Rb, Rc, Rd, Ra, 14, 0xfde5380c, 23),
   (F3, Ra, Rb, Rc, Rd, 1, 0xa4beea44, 4), (F3, Rd, Ra, Rb, Rc, 4, 0x4bdecfa9, 11),
   (F3, Rc, Rd, Ra, Rb, 7, 0xf6bb4b60, 16), (F3, Rb, Rc, Rd, Ra, 10, 0xbebfbc70, 23),
   (F3, Ra, Rb, Rc, Rd, 13, 0x289b7ec6, 4), (F3, Rd, Ra, Rb, Rc, 0, 0xeaa127fa, 11),
   (F3, Rc, Rd, Ra, Rb, 3, 0xd4ef3085, 16), (F3, Rb, Rc, Rd, Ra, 6, 0x04881d05, 23),
   (F3, Ra, Rb, Rc, Rd, 9, 0xd9d4d039, 4), (F3, Rd, Ra, Rb, Rc, 12, 0xe6db99e5, 11),
   (F3, Rc, Rd, Ra, Rb, 15, 0x1fa27cf8, 16), (F3, Rb, Rc, Rd, Ra, 2, 0xc4ac5665, 23),
   (F4, Ra, Rb, Rc, Rd, 0, 0xf4292244, 6), (F4, Rd, Ra, Rb, Rc, 7, 0x432aff97, 10),
   (F4, Rc, Rd, Ra, Rb, 14, 0xab9423a7, 15), (F4, Rb, Rc, Rd, Ra, 5, 0xfc93a039, 21),
   (F4, Ra, Rb, Rc, Rd, 12, 0x655b59c3, 6), (F4, Rd, Ra, Rb, Rc, 3, 0x8f0ccc92, 10),
   (F4, Rc, Rd, Ra, Rb, 10, 0xffeff47d, 15), (F4, Rb, Rc, Rd, Ra, 1, 0x85845dd1, 21),
   (F4, Ra, Rb, Rc, Rd, 8, 0x6fa87e4f, 6), (F4, Rd, Ra, Rb, Rc, 15, 0xfe2ce6e0, 10),
   (F4, Rc, Rd, Ra, Rb, 6, 0xa3014314, 15), (F4, Rb, Rc, Rd, Ra, 13, 0x4e0811a1, 21),
   (F4, Ra, Rb, Rc, Rd, 4, 0xf7537e82, 6), (F4, Rd, Ra, Rb, Rc, 11, 0xbd3af235, 10),
   (F4, Rc, Rd, Ra, Rb, 2, 0x2ad7d2bb, 15), (F4, Rb, Rc, Rd, Ra, 9, 0xeb86d391, 21)]"

definition md5_transform :: "u32 list \<Rightarrow> u32 list \<Rightarrow> u32 list" where
  "md5_transform buf inp =
     (let (a, b, c, d) = fold (md5_step inp) md5_steps (buf ! 0, buf ! 1, buf ! 2, buf ! 3)
      in [buf ! 0 + a, buf ! 1 + b, buf ! 2 + c, buf ! 3 + d])"

subsection \<open>Streaming\<close>

text \<open>A context as it is declared: the arrays have their lengths, the contents are arbitrary.\<close>

definition md5_object :: "md5_context \<Rightarrow> bool" where
  "md5_object ctx \<longleftrightarrow> length (md5_buf ctx) = 4 \<and> length (md5_in ctx) = 64"

definition md5_init :: "md5_context \<Rightarrow> md5_context" where
  "md5_init ctx = ctx\<lparr>md5_buf := [0x67452301, 0xefcdab89, 0x98badcfe, 0x10325476], md5_bits0 := 0, md5_bits1 := 0\<rparr>"

text \<open>\<open>(uint32_t *)ctx->in\<close>.\<close>

definition block_words :: "bytes \<Rightarrow> u32 list" where
  "block_words b = map (\<lambda>i. le_word (read_bytes b (4 * i) 4)) [0..<16]"

definition md5_block :: "md5_context \<Rightarrow> md5_context" where
  "md5_block ctx = ctx\<lparr>md5_buf := md5_transform (md5_buf ctx) (block_words (md5_in ctx))\<rparr>"

definition md5_fill :: "nat \<Rightarrow> bytes \<Rightarrow> md5_context \<Rightarrow> md5_context" where
  "md5_fill off bs ctx = ctx\<lparr>md5_in := write_bytes (md5_in ctx) off bs\<rparr>"

function md5_update_blocks :: "bytes \<Rightarrow> md5_context \<Rightarrow> md5_context" where
  "md5_update_blocks data ctx =
     (if 64 \<le> length data then md5_update_blocks (drop 64 data) (md5_block (md5_fill 0 (take 64 data) ctx))
      else md5_fill 0 data ctx)"
  by pat_completeness auto

termination
  by (relation "measure (\<lambda>(data, ctx). length data)") auto

declare md5_update_blocks.simps [simp del]

definition md5_update :: "bytes \<Rightarrow> md5_context \<Rightarrow> md5_context" where
  "md5_update data ctx =
     (let len = of_nat (length data) :: u32;
          t = md5_bits0 ctx;
          bits0 = t + push_bit 3 len;
          bits1 = (if bits0 < t then md5_bits1 ctx + 1 else md5_bits1 ctx) + drop_bit 29 len;
          ctx = ctx\<lparr>md5_bits0 := bits0, md5_bits1 := bits1\<rparr>;
          t = unat (drop_bit 3 t AND 0x3f)
      in if t \<noteq> 0 then
           (if length data < 64 - t then md5_fill t data ctx
            else md5_update_blocks (drop (64 - t) data) (md5_block (md5_fill t (take (64 - t) data) ctx)))
         else md5_update_blocks data ctx)"

text \<open>The digest, and the context the function leaves.\<close>

definition md5_cleared :: md5_context where
  "md5_cleared = \<lparr>md5_buf = replicate 4 0, md5_bits0 = 0, md5_bits1 = 0, md5_in = replicate 64 0\<rparr>"

definition md5_final :: "md5_context \<Rightarrow> bytes \<times> md5_context" where
  "md5_final ctx =
     (let count = unat (drop_bit 3 (md5_bits0 ctx) AND 0x3f);
          ctx = md5_fill count [0x80] ctx;
          p = count + 1;
          count = 64 - 1 - count;
          ctx = (if count < 8 then md5_fill 0 (replicate 56 0) (md5_block (md5_fill p (replicate count 0) ctx))
                 else md5_fill p (replicate (count - 8) 0) ctx);
          ctx = md5_fill 60 (le_bytes 4 (md5_bits1 ctx)) (md5_fill 56 (le_bytes 4 (md5_bits0 ctx)) ctx)
      in (concat (map (le_bytes 4) (md5_buf (md5_block ctx))), md5_cleared))"

text \<open>\<open>ctx\<close> is the uninitialised local variable.\<close>

definition md5_sum :: "md5_context \<Rightarrow> bytes \<Rightarrow> bytes" where
  "md5_sum ctx data = fst (md5_final (md5_update data (md5_init ctx)))"

text \<open>\<open>snprintf("%02x")\<close> of a byte, and the string \<open>md5_hash\<close> returns: \<open>None\<close> when the buffer cannot be
  allocated, since the code then writes through NULL.\<close>

definition hex2 :: "u8 \<Rightarrow> bytes" where
  "hex2 b = (let digits = map of_char ''0123456789abcdef''
             in [digits ! unat (drop_bit 4 b), digits ! unat (b AND 0x0F)])"

definition md5_hash :: "md5_context \<Rightarrow> bool \<Rightarrow> bytes \<Rightarrow> bytes option" where
  "md5_hash ctx malloc_ok data = (if malloc_ok then Some (concat (map hex2 (md5_sum ctx data)) @ [0]) else None)"

text \<open>
  \<open>md5_file\<close>: \<open>opened\<close> is the error of \<open>open\<close> if it fails, \<open>reads\<close> the results of the successive calls
  of \<open>read\<close> (an error or the bytes read, none at the end of the file; a list that runs out is at the end
  of the file).  The result is the return value and the digest, if one is stored.
\<close>

fun md5_read_loop :: "(int + bytes) list \<Rightarrow> md5_context \<Rightarrow> int \<times> md5_context" where
  "md5_read_loop [] ctx = (0, ctx)"
| "md5_read_loop (Inl errno # reads) ctx = (- errno, ctx)"
| "md5_read_loop (Inr data # reads) ctx =
     (if data = [] then (0, ctx) else md5_read_loop reads (md5_update data ctx))"

definition md5_file :: "md5_context \<Rightarrow> int option \<Rightarrow> bool \<Rightarrow> (int + bytes) list \<Rightarrow> int \<times> bytes option" where
  "md5_file ctx opened malloc_ok reads =
     (case opened of
        Some errno \<Rightarrow> (- errno, None)
      | None \<Rightarrow>
          if \<not> malloc_ok then (-12, None)
          else (let (ret, ctx) = md5_read_loop reads (md5_init ctx) in (ret, Some (fst (md5_final ctx)))))"

section \<open>The algorithm of RFC 1321\<close>

text \<open>
  The specification: padding, the four auxiliary functions, the operation of a step on registers that
  rotate, and the order in which the words of a block and the rotations are used.  The table of sines is
  the one of the code.
\<close>

definition rfc_fun :: "nat \<Rightarrow> u32 \<Rightarrow> u32 \<Rightarrow> u32 \<Rightarrow> u32" where
  "rfc_fun n x y z =
     (if n < 16 then (x AND y) OR (NOT x AND z)
      else if n < 32 then (x AND z) OR (y AND NOT z)
      else if n < 48 then x XOR y XOR z
      else y XOR (x OR NOT z))"

definition rfc_index :: "nat \<Rightarrow> nat" where
  "rfc_index n = (if n < 16 then n else if n < 32 then (1 + 5 * n) mod 16 else if n < 48 then (5 + 3 * n) mod 16 else 7 * n mod 16)"

definition rfc_shift :: "nat \<Rightarrow> nat" where
  "rfc_shift n =
     (if n < 16 then [7, 12, 17, 22] else if n < 32 then [5, 9, 14, 20] else if n < 48 then [4, 11, 16, 23] else [6, 10, 15, 21])
     ! (n mod 4)"

definition rfc_sines :: "u32 list" where
  "rfc_sines = map (\<lambda>(f, w, x, y, z, k, t, s). t) md5_steps"

definition rfc_step :: "u32 list \<Rightarrow> nat \<Rightarrow> md5_regs \<Rightarrow> md5_regs" where
  "rfc_step X n = (\<lambda>(a, b, c, d).
     (d, b + word_rotl (rfc_shift n) (a + rfc_fun n b c d + X ! rfc_index n + rfc_sines ! n), b, c))"

definition rfc_compress :: "bytes \<Rightarrow> u32 list \<Rightarrow> u32 list" where
  "rfc_compress block h =
     (let (a, b, c, d) = fold (rfc_step (block_words block)) [0..<64] (h ! 0, h ! 1, h ! 2, h ! 3)
      in [h ! 0 + a, h ! 1 + b, h ! 2 + c, h ! 3 + d])"

function rfc_blocks :: "bytes \<Rightarrow> u32 list \<Rightarrow> u32 list" where
  "rfc_blocks m h = (if 64 \<le> length m then rfc_blocks (drop 64 m) (rfc_compress (take 64 m) h) else h)"
  by pat_completeness auto

termination
  by (relation "measure (\<lambda>(m, h). length m)") auto

declare rfc_blocks.simps [simp del]

definition rfc_padding :: "nat \<Rightarrow> bytes" where
  "rfc_padding n = [0x80] @ replicate ((119 - n mod 64) mod 64) 0 @ le_bytes 8 (of_nat (8 * n) :: u64)"

definition rfc_md5 :: "bytes \<Rightarrow> bytes" where
  "rfc_md5 m = concat (map (le_bytes 4)
     (rfc_blocks (m @ rfc_padding (length m)) [0x67452301, 0xefcdab89, 0x98badcfe, 0x10325476]))"

section \<open>The transform\<close>

text \<open>The operands of step \<open>n\<close>, and the code's registers in the order the specification has them then.\<close>

definition rfc_operands :: "nat \<Rightarrow> u32 \<Rightarrow> md5_operands" where
  "rfc_operands n t =
     (if n < 16 then F1 else if n < 32 then F2 else if n < 48 then F3 else F4,
      [Ra, Rd, Rc, Rb] ! (n mod 4), [Rb, Ra, Rd, Rc] ! (n mod 4), [Rc, Rb, Ra, Rd] ! (n mod 4),
      [Rd, Rc, Rb, Ra] ! (n mod 4), rfc_index n, t, rfc_shift n)"

fun rotated :: "nat \<Rightarrow> md5_regs \<Rightarrow> md5_regs" where
  "rotated n (a, b, c, d) =
     (if n mod 4 = 0 then (a, b, c, d) else if n mod 4 = 1 then (d, a, b, c)
      else if n mod 4 = 2 then (c, d, a, b) else (b, c, d, a))"

lemma md5_steps_operands: "md5_steps = map (\<lambda>n. rfc_operands n (rfc_sines ! n)) [0..<64]"
proof -
  have "[0..<64] = 0 # 1 # [2..<64]"
    by (simp add: upt_conv_Cons)
  then show ?thesis
    unfolding rfc_sines_def md5_steps_def by (simp add: rfc_operands_def rfc_index_def rfc_shift_def)
qed

lemma optimized_functions:
  "md5_apply (if n < 16 then F1 else if n < 32 then F2 else if n < 48 then F3 else F4) x y z = rfc_fun n x y z"
  by (rule bit_word_eqI) (auto simp: rfc_fun_def md5_F1_def bit_simps)

lemma rotl_shifts: "s < 32 \<Longrightarrow> push_bit s w OR drop_bit (32 - s) w = word_rotl s (w :: u32)"
proof (rule bit_word_eqI)
  fix n
  assume s: "s < 32" and "n < LENGTH(32)"
  then have n: "n < 32"
    by simp
  have "(n + 32 - s) mod 32 = (if s \<le> n then n - s else n + 32 - s)"
  proof (cases "s \<le> n")
    case True
    then have "n + 32 - s = (n - s) + 32"
      by simp
    with True n show ?thesis
      by (simp only: mod_add_self2) simp
  qed (use s in simp)
  moreover have "\<not> bit w (32 + n - s)" if "s \<le> n"
    using that bit_imp_le_length [of w "32 + n - s"] by auto
  ultimately show "bit (push_bit s w OR drop_bit (32 - s) w) n = bit (word_rotl s w) n"
    using s n by (auto simp: bit_simps bit_word_rotl_iff add.commute [of 32 n])
qed

lemma mod_4_cases: "n mod 4 = 0 \<or> n mod 4 = 1 \<or> n mod 4 = 2 \<or> n mod 4 = (3 :: nat)"
  by presburger

lemma rfc_shift_small: "rfc_shift n < 32"
  using mod_4_cases [of n] by (elim disjE) (simp_all add: rfc_shift_def)

lemma step_rotates:
  "rotated (Suc n) (md5_step X (rfc_operands n (rfc_sines ! n)) r) = rfc_step X n (rotated n r)"
proof (cases r)
  case (fields a b c d)
  have "Suc n mod 4 = (if n mod 4 = 3 then 0 else Suc (n mod 4))"
    by (simp add: mod_Suc)
  with mod_4_cases [of n] fields show ?thesis
    by (elim disjE)
      (simp_all add: rfc_operands_def md5_step_def rfc_step_def Let_def optimized_functions rotl_shifts rfc_shift_small ac_simps)
qed

lemma fold_rotates:
  "rotated m (fold (md5_step X) (map (\<lambda>n. rfc_operands n (rfc_sines ! n)) [0..<m]) r) = fold (rfc_step X) [0..<m] r"
  by (induction m) (simp_all add: step_rotates, cases r, simp)

lemma md5_transform_compress: "md5_transform h (block_words b) = rfc_compress b h"
proof -
  have "rotated 64 r = r" for r
    by (cases r) simp
  with fold_rotates [of 64 "block_words b"]
  have "fold (md5_step (block_words b)) md5_steps r = fold (rfc_step (block_words b)) [0..<64] r" for r
    unfolding md5_steps_operands by metis
  then show ?thesis
    by (simp only: md5_transform_def rfc_compress_def)
qed

section \<open>Streaming\<close>

lemma rfc_blocks_long: "64 \<le> length m \<Longrightarrow> rfc_blocks m h = rfc_blocks (drop 64 m) (rfc_compress (take 64 m) h)"
  by (subst rfc_blocks.simps) simp

lemma rfc_blocks_short: "length m < 64 \<Longrightarrow> rfc_blocks m h = h"
  by (subst rfc_blocks.simps) simp

lemma rfc_blocks_one: "length b = 64 \<Longrightarrow> rfc_blocks b h = rfc_compress b h"
  by (simp add: rfc_blocks_long rfc_blocks_short)

lemma rfc_blocks_append:
  "64 dvd length a \<Longrightarrow> rfc_blocks (a @ b) h = rfc_blocks b (rfc_blocks a h)"
proof (induction a h rule: rfc_blocks.induct)
  case (1 a h)
  show ?case
  proof (cases "64 \<le> length a")
    case True
    with "1.prems" have "64 dvd length (drop 64 a)"
      by (simp add: dvd_diff_nat)
    from "1.IH" [OF True this] True show ?thesis
      by (simp add: rfc_blocks_long)
  next
    case False
    with "1.prems" have "length a = 0"
      by (metis dvd_imp_le neq0_conv)
    then show ?thesis
      by (simp add: rfc_blocks_short)
  qed
qed

abbreviation rfc_start :: "u32 list" where
  "rfc_start \<equiv> [0x67452301, 0xefcdab89, 0x98badcfe, 0x10325476]"

text \<open>The context after whole blocks \<open>a\<close>, with the bytes \<open>b\<close> waiting at the start of \<open>in\<close>.\<close>

definition pending :: "bytes \<Rightarrow> bytes \<Rightarrow> md5_context \<Rightarrow> bool" where
  "pending a b ctx \<longleftrightarrow> length (md5_in ctx) = 64 \<and> 64 dvd length a \<and> length b \<le> 64 \<and>
     md5_buf ctx = rfc_blocks a rfc_start \<and> take (length b) (md5_in ctx) = b"

lemma pending_fill:
  assumes "pending a b ctx" "length b + length c \<le> 64"
  shows "pending a (b @ c) (md5_fill (length b) c ctx)"
  using assms by (simp add: pending_def md5_fill_def take_write_bytes)

lemma pending_restart:
  "pending a [] ctx \<Longrightarrow> length c \<le> 64 \<Longrightarrow> pending a c (md5_fill 0 c ctx)"
  using pending_fill [of a "[]" ctx c] by simp

lemma pending_block:
  assumes "pending a b ctx" "length b = 64"
  shows "pending (a @ b) [] (md5_block ctx)"
proof -
  have "md5_in ctx = b"
    using assms unfolding pending_def by (metis order_refl take_all)
  with assms show ?thesis
    by (simp add: pending_def md5_block_def md5_transform_compress rfc_blocks_append rfc_blocks_one dvd_add)
qed

lemma fill_bits [simp]: "md5_bits0 (md5_fill off bs ctx) = md5_bits0 ctx" "md5_bits1 (md5_fill off bs ctx) = md5_bits1 ctx"
  by (simp_all add: md5_fill_def)

lemma block_bits [simp]: "md5_bits0 (md5_block ctx) = md5_bits0 ctx" "md5_bits1 (md5_block ctx) = md5_bits1 ctx"
  by (simp_all add: md5_block_def)

lemma update_blocks_bits [simp]:
  "md5_bits0 (md5_update_blocks data ctx) = md5_bits0 ctx \<and> md5_bits1 (md5_update_blocks data ctx) = md5_bits1 ctx"
  by (induction data ctx rule: md5_update_blocks.induct) (simp add: md5_update_blocks.simps)

text \<open>The context that has absorbed \<open>m\<close>.\<close>

definition absorbed :: "bytes \<Rightarrow> md5_context \<Rightarrow> bool" where
  "absorbed m ctx \<longleftrightarrow> (\<exists>a b. m = a @ b \<and> length b < 64 \<and> pending a b ctx) \<and>
     md5_bits0 ctx = of_nat (8 * length m) \<and> md5_bits1 ctx = of_nat (8 * length m div 2 ^ 32)"

lemma update_blocks_pending:
  "pending a [] ctx \<Longrightarrow>
     \<exists>a' b. a @ data = a' @ b \<and> length b < 64 \<and> pending a' b (md5_update_blocks data ctx)"
proof (induction data ctx arbitrary: a rule: md5_update_blocks.induct)
  case (1 data ctx)
  show ?case
  proof (cases "64 \<le> length data")
    case True
    with "1.prems" have "pending (a @ take 64 data) [] (md5_block (md5_fill 0 (take 64 data) ctx))"
      by (intro pending_block pending_restart) simp_all
    from "1.IH" [OF True this] True show ?thesis
      by (simp add: md5_update_blocks.simps [of data])
  next
    case False
    with pending_restart [OF "1.prems", of data] have "pending a data (md5_update_blocks data ctx)"
      by (simp add: md5_update_blocks.simps [of data])
    with False show ?thesis
      by (intro exI [of _ a] exI [of _ data]) simp
  qed
qed

section \<open>The bit counter\<close>

lemma carry_div:
  fixes q r u v N :: nat
  assumes "r < N" "v < N"
  shows "((r + v) + N * (q + u)) div N = q + (if ((r + v) + N * (q + u)) mod N < r then 1 else 0) + u"
proof (cases "r + v < N")
  case True
  then show ?thesis
    using assms by simp
next
  case False
  then have "(r + v) div N = 1" "(r + v) mod N = r + v - N"
    using assms by (simp_all add: div_if mod_if)
  then show ?thesis
    using assms False by simp
qed

lemma carry_arith:
  "(n + 8 * l) div 2 ^ 32 = n div 2 ^ 32 + (if (n + 8 * l) mod 2 ^ 32 < n mod 2 ^ 32 then 1 else 0) + l div 2 ^ 29"
  for n l :: nat
proof -
  have N: "(2 :: nat) ^ 32 = 2 ^ 29 * 8"
    by simp
  have "(n mod (M * 8) + 8 * (l mod M)) + M * 8 * (n div (M * 8) + l div M) =
      (M * 8 * (n div (M * 8)) + n mod (M * 8)) + 8 * (M * (l div M) + l mod M)" for M
    by (simp only: algebra_simps)
  then have sum: "(n mod 2 ^ 32 + 8 * (l mod 2 ^ 29)) + 2 ^ 32 * (n div 2 ^ 32 + l div 2 ^ 29) = n + 8 * l"
    by (simp only: N mult_div_mod_eq)
  have "8 * (l mod 2 ^ 29) < 2 ^ 29 * 8"
    by simp
  from carry_div [OF mod_less_divisor this [folded N], of n "n div 2 ^ 32" "l div 2 ^ 29"] show ?thesis
    unfolding sum by simp
qed

lemma md5_count: "unat (drop_bit 3 (of_nat (8 * n) :: u32) AND 0x3f) = n mod 64"
proof -
  have mask: "v AND 0x3f = take_bit 6 v" for v :: u32
    by (simp add: take_bit_eq_mask mask_numeral)
  have "unat (drop_bit 3 (of_nat (8 * n) :: u32) AND 0x3f) = (8 * n mod (8 * 2 ^ 29)) div 8 mod 2 ^ 6"
    unfolding mask by (simp only: unsigned_take_bit_eq unat_drop_bit_eq unat_of_nat)
      (simp add: take_bit_eq_mod drop_bit_eq_div)
  also have "\<dots> = n mod 2 ^ 29 mod 2 ^ 6"
    by (simp only: mult_mod_right [symmetric]) simp
  also have "\<dots> = n mod 64"
    by (simp add: mod_mod_cancel)
  finally show ?thesis .
qed

lemma md5_bit_counter:
  fixes n l :: nat
  assumes "l < 2 ^ 32"
  shows "of_nat (8 * n) + push_bit 3 (of_nat l) = (of_nat (8 * (n + l)) :: u32)"
    "(if of_nat (8 * (n + l)) < (of_nat (8 * n) :: u32) then of_nat (8 * n div 2 ^ 32) + 1 else of_nat (8 * n div 2 ^ 32))
       + drop_bit 29 (of_nat l) = (of_nat (8 * (n + l) div 2 ^ 32) :: u32)"
proof -
  show "of_nat (8 * n) + push_bit 3 (of_nat l) = (of_nat (8 * (n + l)) :: u32)"
    by (simp add: push_bit_eq_mult algebra_simps)
  have "l div 2 ^ 29 < 2 ^ 32"
    using assms by (rule le_less_trans [OF div_le_dividend])
  then have "drop_bit 29 (of_nat l) = (of_nat (l div 2 ^ 29) :: u32)"
    using assms by (simp only: word_unat_eq_iff unat_drop_bit_eq unat_of_nat_u32) (simp only: drop_bit_eq_div)
  moreover have "of_nat (8 * (n + l)) < (of_nat (8 * n) :: u32) \<longleftrightarrow> (8 * n + 8 * l) mod 2 ^ 32 < 8 * n mod 2 ^ 32"
    by (simp only: word_less_nat_alt unat_of_nat take_bit_eq_mod distrib_left) simp
  ultimately show "(if of_nat (8 * (n + l)) < (of_nat (8 * n) :: u32) then of_nat (8 * n div 2 ^ 32) + 1 else of_nat (8 * n div 2 ^ 32))
       + drop_bit 29 (of_nat l) = (of_nat (8 * (n + l) div 2 ^ 32) :: u32)"
    using carry_arith [of "8 * n" l] by (simp add: distrib_left del: of_nat_mult)
qed

section \<open>Update and final\<close>

text \<open>
  The contract of a streaming hash: it starts having absorbed nothing, and each update absorbs its data
  after what came before.  Then what it has absorbed does not depend on how the data is cut.
\<close>

locale absorber =
  fixes absorbs :: "bytes \<Rightarrow> 's \<Rightarrow> bool"
    and start :: "'s \<Rightarrow> bool"
    and update :: "bytes \<Rightarrow> 's \<Rightarrow> 's"
  assumes absorbs_start: "start s \<Longrightarrow> absorbs [] s"
    and absorbs_update: "absorbs m s \<Longrightarrow> length data < 2 ^ 32 \<Longrightarrow> absorbs (m @ data) (update data s)"
begin

lemma absorbs_chunks:
  "absorbs m s \<Longrightarrow> \<forall>d \<in> set ds. length d < 2 ^ 32 \<Longrightarrow> absorbs (m @ concat ds) (fold update ds s)"
proof (induction ds arbitrary: m s)
  case (Cons d ds)
  then show ?case
    using absorbs_update [of m s d] by (simp flip: append_assoc)
qed simp

lemmas absorbs_all = absorbs_chunks [OF absorbs_start, unfolded append_Nil]

end

lemma pending_bits: "pending a b (ctx\<lparr>md5_bits0 := x, md5_bits1 := y\<rparr>) = pending a b ctx"
  by (simp add: pending_def)

definition md5_started :: "md5_context \<Rightarrow> bool" where
  "md5_started ctx \<longleftrightarrow> (\<exists>obj. md5_object obj \<and> ctx = md5_init obj)"

lemma absorbed_init: "md5_started ctx \<Longrightarrow> absorbed [] ctx"
  unfolding absorbed_def by (auto simp: md5_started_def md5_object_def md5_init_def pending_def rfc_blocks_short)

lemma absorbed_count:
  "absorbed m ctx \<Longrightarrow> \<exists>a b. m = a @ b \<and> length b < 64 \<and> pending a b ctx \<and> unat (drop_bit 3 (md5_bits0 ctx) AND 0x3f) = length b"
proof -
  assume "absorbed m ctx"
  then obtain a b where ab: "m = a @ b" "length b < 64" "pending a b ctx" "md5_bits0 ctx = of_nat (8 * length m)"
    unfolding absorbed_def by blast
  then have "length m mod 64 = length b"
    by (auto simp: pending_def elim!: dvdE)
  with ab md5_count [of "length m"] show ?thesis
    by (metis (no_types))
qed

lemma absorbed_update:
  assumes "absorbed m ctx" "length data < 2 ^ 32"
  shows "absorbed (m @ data) (md5_update data ctx)"
proof -
  from absorbed_count [OF assms(1)] obtain a b where m: "m = a @ b" "length b < 64" "pending a b ctx"
    and count: "unat (drop_bit 3 (md5_bits0 ctx) AND 0x3f) = length b"
    by blast
  have bits: "md5_bits0 ctx = of_nat (8 * length m)" "md5_bits1 ctx = of_nat (8 * length m div 2 ^ 32)"
    using assms(1) by (simp_all only: absorbed_def)
  define c where "c = ctx\<lparr>md5_bits0 := of_nat (8 * length (m @ data)), md5_bits1 := of_nat (8 * length (m @ data) div 2 ^ 32)\<rparr>"
  have c: "pending a b c" "md5_bits0 c = of_nat (8 * length (m @ data))" "md5_bits1 c = of_nat (8 * length (m @ data) div 2 ^ 32)"
    using m(3) by (simp_all add: c_def pending_bits)
  have run: "md5_update data ctx =
      (if length b \<noteq> 0 then
         (if length data < 64 - length b then md5_fill (length b) data c
          else md5_update_blocks (drop (64 - length b) data) (md5_block (md5_fill (length b) (take (64 - length b) data) c)))
       else md5_update_blocks data c)"
    unfolding md5_update_def Let_def count unfolding bits md5_bit_counter [OF assms(2)] c_def length_append ..
  have "\<exists>a' b'. (a @ b) @ data = a' @ b' \<and> length b' < 64 \<and> pending a' b' (md5_update data ctx)"
  proof -
    consider "b = []" | "b \<noteq> []" "length data < 64 - length b" | "b \<noteq> []" "64 - length b \<le> length data"
      by linarith
    then show ?thesis
    proof cases
      case 1
      with update_blocks_pending [of a c data] c(1) show ?thesis
        unfolding run by simp
    next
      case 2
      with pending_fill [OF c(1), of data] have "pending a (b @ data) (md5_update data ctx)"
        unfolding run by simp
      with 2 show ?thesis
        by (intro exI [of _ a] exI [of _ "b @ data"]) simp
    next
      case 3
      let ?head = "take (64 - length b) data"
      have "pending (a @ b @ ?head) [] (md5_block (md5_fill (length b) ?head c))"
        using 3 m(2) by (intro pending_block pending_fill [OF c(1)]) simp_all
      from update_blocks_pending [OF this, of "drop (64 - length b) data"] 3 show ?thesis
        unfolding run by (simp add: not_less)
    qed
  qed
  moreover have "md5_bits0 (md5_update data ctx) = md5_bits0 c" "md5_bits1 (md5_update data ctx) = md5_bits1 c"
    unfolding run by simp_all
  ultimately show ?thesis
    unfolding absorbed_def m(1) c(2,3) [unfolded m(1)] by (simp only: c(2,3) m(1) simp_thms)
qed

interpretation md5: absorber absorbed md5_started md5_update
  by unfold_locales (erule absorbed_init, erule (1) absorbed_update)

lemma le_bytes_halves: "le_bytes 8 (w :: u64) = le_bytes 4 (ucast w :: u32) @ le_bytes 4 (ucast (drop_bit 32 w) :: u32)"
  by (simp add: eval_nat_numeral, intro conjI; rule bit_word_eqI) (auto simp: bit_simps)

lemma rfc_length_bytes:
  "le_bytes 8 (of_nat n :: u64) = le_bytes 4 (of_nat n :: u32) @ le_bytes 4 (of_nat (n div 2 ^ 32) :: u32)"
proof -
  have "ucast (of_nat n :: u64) = (of_nat n :: u32)"
    by (rule bit_word_eqI) (auto simp: bit_simps)
  moreover have "ucast (drop_bit 32 (of_nat n :: u64)) = (of_nat (n div 2 ^ 32) :: u32)"
    unfolding drop_bit_eq_div [symmetric] by (rule bit_word_eqI) (auto simp: bit_simps)
  ultimately show ?thesis
    by (simp only: le_bytes_halves)
qed

lemma final_block:
  assumes "pending a b ctx" "length b = 56" "64 dvd length a"
  shows "md5_buf (md5_block (md5_fill 60 (le_bytes 4 y) (md5_fill 56 (le_bytes 4 x) ctx))) =
    rfc_blocks (a @ b @ le_bytes 4 x @ le_bytes 4 y) rfc_start"
proof -
  have "pending a (b @ le_bytes 4 x) (md5_fill 56 (le_bytes 4 x) ctx)"
    using pending_fill [OF assms(1), of "le_bytes 4 x"] assms(2) by simp
  then have "pending a ((b @ le_bytes 4 x) @ le_bytes 4 y) (md5_fill 60 (le_bytes 4 y) (md5_fill 56 (le_bytes 4 x) ctx))"
    using pending_fill [of a "b @ le_bytes 4 x" _ "le_bytes 4 y"] assms(2) by simp
  then have "pending (a @ (b @ le_bytes 4 x) @ le_bytes 4 y) [] (md5_block (md5_fill 60 (le_bytes 4 y) (md5_fill 56 (le_bytes 4 x) ctx)))"
    by (rule pending_block) (simp add: assms(2))
  then show ?thesis
    by (simp add: pending_def)
qed

lemma absorbed_final:
  assumes "absorbed m ctx"
  shows "md5_final ctx = (rfc_md5 m, md5_cleared)"
proof -
  from absorbed_count [OF assms] obtain a b where m: "m = a @ b" "length b < 64" "pending a b ctx"
    and count: "unat (drop_bit 3 (md5_bits0 ctx) AND 0x3f) = length b"
    by blast
  have a: "64 dvd length a" and mod: "length m mod 64 = length b"
    using m by (auto simp: pending_def elim!: dvdE)
  let ?mark = "md5_fill (length b) [0x80] ctx"
  let ?zeros = "\<lambda>n. replicate n (0 :: u8)"
  define c where "c = (if 64 - 1 - length b < 8
    then md5_fill 0 (?zeros 56) (md5_block (md5_fill (length b + 1) (?zeros (64 - 1 - length b)) ?mark))
    else md5_fill (length b + 1) (?zeros (64 - 1 - length b - 8)) ?mark)"
  have mark: "pending a (b @ [0x80]) ?mark"
    using m(2) by (intro pending_fill [OF m(3)]) simp
  have "\<exists>a' b'. pending a' b' c \<and> length b' = 56 \<and> a' @ b' = m @ [0x80] @ ?zeros ((119 - length m mod 64) mod 64)"
  proof (cases "length b < 56")
    case True
    then have "\<not> 64 - 1 - length b < 8" "64 - 1 - length b - 8 = 55 - length b"
      by simp_all
    then have "c = md5_fill (length b + 1) (?zeros (55 - length b)) ?mark"
      unfolding c_def by (simp only: if_False)
    then have "pending a ((b @ [0x80]) @ ?zeros (55 - length b)) c"
      using pending_fill [OF mark, of "?zeros (55 - length b)"] True by simp
    moreover have "(119 - length b) mod 64 = 55 - length b"
      using True by (simp add: mod_if)
    ultimately show ?thesis
      using True unfolding mod unfolding m(1)
      by (intro exI [of _ a] exI [of _ "(b @ [0x80]) @ ?zeros (55 - length b)"]) simp
  next
    case False
    then have "pending a ((b @ [0x80]) @ ?zeros (63 - length b)) (md5_fill (length b + 1) (?zeros (63 - length b)) ?mark)"
      using pending_fill [OF mark, of "?zeros (63 - length b)"] m(2) by simp
    then have "pending (a @ (b @ [0x80]) @ ?zeros (63 - length b)) (?zeros 56)
      (md5_fill 0 (?zeros 56) (md5_block (md5_fill (length b + 1) (?zeros (63 - length b)) ?mark)))"
      using m(2) by (intro pending_restart pending_block) simp_all
    moreover have "c = md5_fill 0 (?zeros 56) (md5_block (md5_fill (length b + 1) (?zeros (63 - length b)) ?mark))"
      using False by (simp add: c_def)
    moreover have "(119 - length b) mod 64 = 63 - length b + 56"
      using False m(2) by simp
    then have "?zeros (63 - length b) @ ?zeros 56 = ?zeros ((119 - length b) mod 64)"
      by (simp only: replicate_add)
    ultimately show ?thesis
      unfolding mod unfolding m(1)
      by (intro exI [of _ "a @ (b @ [0x80]) @ ?zeros (63 - length b)"] exI [of _ "?zeros 56"])
        (simp only: append_assoc length_replicate simp_thms)
  qed
  then obtain a' b' where c: "pending a' b' c" "length b' = 56"
    and pad: "a' @ b' = m @ [0x80] @ ?zeros ((119 - length m mod 64) mod 64)"
    by blast
  have bits: "md5_bits0 c = of_nat (8 * length m)" "md5_bits1 c = of_nat (8 * length m div 2 ^ 32)"
    using assms by (simp_all add: c_def absorbed_def)
  have "md5_final ctx = (concat (map (le_bytes 4) (md5_buf (md5_block
      (md5_fill 60 (le_bytes 4 (md5_bits1 c)) (md5_fill 56 (le_bytes 4 (md5_bits0 c)) c))))), md5_cleared)"
    unfolding md5_final_def Let_def count c_def by (simp only: fill_bits)
  moreover have "m @ rfc_padding (length m) =
      (a' @ b') @ le_bytes 4 (of_nat (8 * length m) :: u32) @ le_bytes 4 (of_nat (8 * length m div 2 ^ 32) :: u32)"
    unfolding pad rfc_padding_def rfc_length_bytes by (simp only: append_assoc)
  moreover have "64 dvd length a'"
    using c(1) by (simp add: pending_def)
  ultimately show ?thesis
    unfolding rfc_md5_def bits by (simp only: final_block [OF c] append_assoc)
qed

lemma length_rfc_blocks: "length h = 4 \<Longrightarrow> length (rfc_blocks m h) = 4"
  by (induction m h rule: rfc_blocks.induct)
    (subst rfc_blocks.simps, simp add: rfc_compress_def Let_def split: prod.split)

lemma length_rfc_md5: "length (rfc_md5 m) = 16"
  by (simp add: rfc_md5_def length_concat comp_def sum_list_triv length_rfc_blocks)

lemma md5_chunks:
  assumes "md5_object ctx" "\<forall>d \<in> set chunks. length d < 2 ^ 32"
  shows "md5_final (fold md5_update chunks (md5_init ctx)) = (rfc_md5 (concat chunks), md5_cleared)"
  using assms by (intro absorbed_final md5.absorbs_all) (auto simp: md5_started_def)

section \<open>Files\<close>

lemma read_loop_chunks:
  "\<forall>d \<in> set ds. d \<noteq> [] \<Longrightarrow>
     md5_read_loop (map Inr ds @ rest) ctx = md5_read_loop rest (fold md5_update ds ctx)"
  by (induction ds arbitrary: ctx) simp_all

section \<open>Properties\<close>




text \<open>Hashing a file or a buffer. A file that opens and is read to its end, in any non-empty pieces,
  gives 0 and its digest; a read error gives the error, and the digest of what was read before it is
  stored all the same; a failure to open or to allocate stores none. \<open>md5_hash\<close> gives the 32 hexadecimal
  digits of the digest and a NUL, which fit its buffer of 33 bytes.\<close>

lemma md5_file_results:
  assumes "md5_object ctx" "\<forall>d \<in> set ds. d \<noteq> [] \<and> length d \<le> 1024" "length data < 2 ^ 32"
  shows "md5_file ctx None True (map Inr ds @ Inr [] # rest) = (0, Some (rfc_md5 (concat ds))) \<and>
    md5_file ctx None True (map Inr ds @ Inl errno # rest) = (- errno, Some (rfc_md5 (concat ds))) \<and>
    md5_file ctx (Some errno) malloc_ok reads = (- errno, None) \<and>
    md5_file ctx None False reads = (-12, None) \<and>
    (\<exists>s. md5_hash ctx True data = Some s \<and> s = concat (map hex2 (rfc_md5 data)) @ [0] \<and> length s = 33)"
proof -
  have "md5_final (fold md5_update ds (md5_init ctx)) = (rfc_md5 (concat ds), md5_cleared)"
    using assms(2) by (intro md5_chunks [OF assms(1)]) fastforce
  moreover have "md5_sum ctx data = rfc_md5 data"
    using md5_chunks [OF assms(1), of "[data]"] assms(3) by (simp add: md5_sum_def)
  moreover have "length (concat (map hex2 (rfc_md5 data))) = 32"
    using length_rfc_md5 [of data] by (simp add: length_concat comp_def hex2_def Let_def sum_list_triv)
  ultimately show ?thesis
    using assms(2) by (simp add: md5_file_def read_loop_chunks md5_hash_def)
qed

end
