(* ===== verification/CameraSample.thy ===== *)
theory CameraSample
  imports Os
begin

unbundle bit_operations_syntax

section \<open>The camera command (examples/camera)\<close>

text \<open>
  The snapshot command that comes with the SDK, in \<open>examples/camera\<close> (\<open>camera_main.c\<close> and
  \<open>camera_fileutil.c\<close>, without the LCD, which is off by default): parsing of its arguments, the two
  capture streams, the three-state main loop that previews, takes the pictures, previews again and
  leaves, and the image files.  Answers of the driver, the allocator, the file system and the clock are
  arguments; addresses are naturals, 0 is NULL.
\<close>

subsection \<open>Configuration and types\<close>

definition IMAGE_JPG_SIZE :: nat where "IMAGE_JPG_SIZE = 524288"
definition IMAGE_RGB_SIZE :: nat where "IMAGE_RGB_SIZE = 153600"
definition VIDEO_BUFNUM :: nat where "VIDEO_BUFNUM = 3"
definition STILL_BUFNUM :: nat where "STILL_BUFNUM = 1"
definition MAX_CAPTURE_NUM :: int where "MAX_CAPTURE_NUM = 100"
definition DEFAULT_CAPTURE_NUM :: int where "DEFAULT_CAPTURE_NUM = 10"
definition START_CAPTURE_TIME :: int where "START_CAPTURE_TIME = 5"
definition KEEP_VIDEO_TIME :: int where "KEEP_VIDEO_TIME = 10"
definition SPOT_METERING_POSX :: int where "SPOT_METERING_POSX = 10"
definition SPOT_METERING_POSY :: int where "SPOT_METERING_POSY = SPOT_METERING_POSX"
definition IMAGE_FILENAME_LEN :: nat where "IMAGE_FILENAME_LEN = 32"

definition RET_OK :: int where "RET_OK = 0"
definition RET_ERROR :: int where "RET_ERROR = -1"

datatype buf_type = VIDEO_CAPTURE | STILL_CAPTURE
datatype buf_mode = MODE_FIFO | MODE_RING
datatype frame_size = FULLHD | QUADVGA | QVGA
datatype app_phase = BEFORE_CAPTURE | UNDER_CAPTURE | AFTER_CAPTURE

record timeval =
  tv_s :: int
  tv_us :: int

subsection \<open>Arguments\<close>

text \<open>\<open>atoi\<close> of the C library, on numbers without a bound.\<close>

primrec atoi_digits :: "int \<Rightarrow> string \<Rightarrow> int" where
  "atoi_digits acc [] = acc"
| "atoi_digits acc (c # cs) =
     (if (48 :: int) \<le> of_char c \<and> (of_char c :: int) \<le> 57 then atoi_digits (acc * 10 + (of_char c - 48)) cs else acc)"

definition c_isspace :: "char \<Rightarrow> bool" where
  "c_isspace c \<longleftrightarrow> c = CHR '' '' \<or> (of_char c :: nat) \<in> {9..13}"

definition c_atoi :: "string \<Rightarrow> int" where
  "c_atoi s =
     (case dropWhile c_isspace s of
        [] \<Rightarrow> 0
      | c # cs \<Rightarrow>
          if c = CHR ''-'' then - atoi_digits 0 cs
          else if c = CHR ''+'' then atoi_digits 0 cs
          else atoi_digits 0 (c # cs))"

record sample_args =
  arg_capture_num :: int
  arg_type :: buf_type
  arg_spot_en :: bool

text \<open>The loop over the arguments; \<open>Inl\<close> is the return of \<open>ERROR\<close>.\<close>

fun parse_loop :: "bool \<Rightarrow> string list \<Rightarrow> sample_args \<Rightarrow> sample_args res" where
  "parse_loop is_num_set [] a = Inr a"
| "parse_loop is_num_set (s # argv) a =
     (if s = ''-jpg'' then parse_loop is_num_set argv (a\<lparr>arg_type := STILL_CAPTURE\<rparr>)
      else if s = ''-s'' then parse_loop is_num_set argv (a\<lparr>arg_spot_en := True\<rparr>)
      else if s \<noteq> [] \<and> hd s = CHR ''-'' then parse_loop is_num_set argv a
      else if \<not> is_num_set then
        (let n = c_atoi s
         in if n < 0 \<or> n > MAX_CAPTURE_NUM then Inl RET_ERROR
            else parse_loop True argv (a\<lparr>arg_capture_num := n\<rparr>))
      else Inl RET_ERROR)"

definition parse_arguments :: "string list \<Rightarrow> sample_args res" where
  "parse_arguments argv =
     (if length argv > 3 then Inl RET_ERROR
      else parse_loop False argv
        \<lparr>arg_capture_num = DEFAULT_CAPTURE_NUM, arg_type = VIDEO_CAPTURE, arg_spot_en = False\<rparr>)"

subsection \<open>Buffers\<close>

record v_buffers =
  vb_array :: nat
  vb_start :: "nat list"
  vb_length :: nat

definition free_buffer :: "v_buffers option \<Rightarrow> trace" where
  "free_buffer vb =
     (case vb of
        None \<Rightarrow> []
      | Some b \<Rightarrow> map OsFree (filter (\<lambda>a. a \<noteq> 0) (vb_start b)) @ [OsFree (vb_array b)])"

record prepare_env =
  pe_s_fmt :: "frame_size \<Rightarrow> pixfmt \<Rightarrow> int"
  pe_reqbufs :: "buf_mode \<Rightarrow> nat \<Rightarrow> int"
  pe_malloc :: nat
  pe_memalign :: "nat \<Rightarrow> nat"
  pe_qbuf :: "nat \<Rightarrow> int"
  pe_streamon :: int

text \<open>The allocation loop: the blocks and the trace, or the trace of the failure that gave all back.\<close>

fun prepare_alloc :: "prepare_env \<Rightarrow> nat \<Rightarrow> nat \<Rightarrow> nat list \<Rightarrow> trace + (nat list \<times> trace)" where
  "prepare_alloc env 0 cnt starts = Inr (starts, [])"
| "prepare_alloc env (Suc k) cnt starts =
     (let a = pe_memalign env cnt
      in if a = 0 then Inl (map OsFree (rev starts) @ [OsFree (pe_malloc env)])
         else (case prepare_alloc env k (cnt + 1) (starts @ [a]) of
             Inl tr \<Rightarrow> Inl (OsAlloc a # tr)
           | Inr (bs, tr) \<Rightarrow> Inr (bs, OsAlloc a # tr)))"

text \<open>The queueing loop, with whether it ran to its end.\<close>

fun prepare_queue :: "prepare_env \<Rightarrow> int \<Rightarrow> nat \<Rightarrow> nat \<Rightarrow> bool \<times> trace" where
  "prepare_queue env fd 0 cnt = (True, [])"
| "prepare_queue env fd (Suc k) cnt =
     (if pe_qbuf env cnt \<noteq> 0 then (False, [])
      else (case prepare_queue env fd k (cnt + 1) of (ok, tr) \<Rightarrow> (ok, OsQbuf fd cnt # tr)))"

definition camera_prepare ::
  "prepare_env \<Rightarrow> int \<Rightarrow> buf_mode \<Rightarrow> pixfmt \<Rightarrow> frame_size \<Rightarrow> nat \<Rightarrow> nat \<Rightarrow> int \<times> v_buffers option \<times> trace" where
  "camera_prepare env fd mode pix fsize bufnum bufsize =
     (if pe_s_fmt env fsize pix < 0 then (pe_s_fmt env fsize pix, None, [])
      else if pe_reqbufs env mode bufnum < 0 then (pe_reqbufs env mode bufnum, None, [])
      else if pe_malloc env = 0 then (RET_ERROR, None, [])
      else (case prepare_alloc env bufnum 0 [] of
          Inl tr \<Rightarrow> (RET_ERROR, None, OsAlloc (pe_malloc env) # tr)
        | Inr (starts, tr) \<Rightarrow>
            let vb = \<lparr>vb_array = pe_malloc env, vb_start = starts, vb_length = bufsize\<rparr>;
                (ok, qtr) = prepare_queue env fd bufnum 0;
                tr1 = OsAlloc (pe_malloc env) # tr @ qtr
            in if \<not> ok then (RET_ERROR, None, tr1 @ free_buffer (Some vb))
               else if pe_streamon env < 0 then (pe_streamon env, None, tr1 @ free_buffer (Some vb))
               else (RET_OK, Some vb, tr1 @ [OsStreamOn fd])))"

subsection \<open>Driver calls of the main loop\<close>

text \<open>A taken picture: the result of \<open>DQBUF\<close> with the buffer's index, size and memory, then the file and
  the result of \<open>QBUF\<close>.\<close>

record picture_env =
  pi_dqbuf :: int
  pi_index :: nat
  pi_bytesused :: nat
  pi_mem :: bytes
  pi_fopen :: bool
  pi_fwrite :: nat
  pi_qbuf :: int

definition get_camimage :: "picture_env \<Rightarrow> int \<Rightarrow> int \<times> trace" where
  "get_camimage env fd =
     (if pi_dqbuf env \<noteq> 0 then (RET_ERROR, []) else (RET_OK, [OsDqbuf fd (pi_index env)]))"

definition release_camimage :: "picture_env \<Rightarrow> int \<Rightarrow> int \<times> trace" where
  "release_camimage env fd =
     (if pi_qbuf env \<noteq> 0 then (RET_ERROR, []) else (RET_OK, [OsQbuf fd (pi_index env)]))"

definition start_stillcapture :: "int \<Rightarrow> buf_type \<Rightarrow> int" where
  "start_stillcapture ioctl_ret t = (if t = STILL_CAPTURE then (if ioctl_ret < 0 then RET_ERROR else RET_OK) else RET_OK)"

definition stop_stillcapture :: "int \<Rightarrow> buf_type \<Rightarrow> int" where
  "stop_stillcapture ioctl_ret t = (if t = STILL_CAPTURE then (if ioctl_ret < 0 then RET_ERROR else RET_OK) else RET_OK)"

text \<open>The controls sent to the driver: control and value.\<close>

datatype camera_ctrl = CtrlMetering bool | CtrlSpotPosition u32

definition set_spot_metering :: "bool \<Rightarrow> camera_ctrl" where
  "set_spot_metering on = CtrlMetering on"

definition set_spot_metering_pos :: "int \<Rightarrow> int \<Rightarrow> camera_ctrl" where
  "set_spot_metering_pos x y =
     CtrlSpotPosition (push_bit 16 (of_int x AND 0xffff) OR (of_int y AND 0xffff))"

subsection \<open>Image files\<close>

definition futil_initialize :: "int \<Rightarrow> string" where
  "futil_initialize stat_ret = (if stat_ret < 0 then ''/mnt/spif'' else ''/mnt/sd0'')"

text \<open>\<open>%03d\<close> of a number from 1 to 999.\<close>

definition digit3 :: "nat \<Rightarrow> string" where
  "digit3 n = map (\<lambda>d. char_of (48 + d)) [n div 100, n div 10 mod 10, n mod 10]"

definition image_name :: "string \<Rightarrow> nat \<Rightarrow> string \<Rightarrow> string" where
  "image_name dir n suffix =
     take (IMAGE_FILENAME_LEN - 1) (dir @ ''/VIDEO'' @ digit3 n @ ''.'' @ suffix)"

text \<open>The result, the counter, and the file: its name and contents, if it could be opened.\<close>

definition futil_writeimage ::
  "picture_env \<Rightarrow> string \<Rightarrow> string \<Rightarrow> nat \<Rightarrow> int \<times> nat \<times> (string \<times> bytes) option" where
  "futil_writeimage env dir suffix framecount =
     (let n = (if framecount + 1 \<ge> 1000 then 1 else framecount + 1)
      in if \<not> pi_fopen env then (RET_ERROR, n, None)
         else (RET_OK, n, Some (image_name dir n suffix, take (pi_fwrite env) (take (pi_bytesused env) (pi_mem env)))))"

subsection \<open>The main loop\<close>

text \<open>\<open>timersub\<close> and \<open>timercmp\<close> of the C library.\<close>

definition timersub :: "timeval \<Rightarrow> timeval \<Rightarrow> timeval" where
  "timersub a b =
     (if tv_us a < tv_us b
      then \<lparr>tv_s = tv_s a - tv_s b - 1, tv_us = tv_us a - tv_us b + 1000000\<rparr>
      else \<lparr>tv_s = tv_s a - tv_s b, tv_us = tv_us a - tv_us b\<rparr>)"

definition timer_greater :: "timeval \<Rightarrow> timeval \<Rightarrow> bool" where
  "timer_greater a b \<longleftrightarrow> (if tv_s a = tv_s b then tv_us a > tv_us b else tv_s a > tv_s b)"

text \<open>The locals of \<open>main\<close> that the loop only reads, and those it changes with the globals.\<close>

record sample_consts =
  sc_fd :: int
  sc_type :: buf_type
  sc_dir :: string
  sc_eternal :: bool

record sample_state =
  sm_phase :: app_phase
  sm_capture_num :: nat
  sm_start :: timeval
  sm_wait :: timeval
  sm_framecount :: nat
  sm_files :: "(string \<times> bytes) list"
  sm_trace :: trace

text \<open>The loop goes on, or control has jumped to \<open>exit_this_app\<close> with a value of \<open>ret\<close>.\<close>

datatype sample_next = Running sample_state | Leaving int sample_state

record loop_input =
  li_preview :: picture_env
  li_now :: timeval
  li_start :: int
  li_pictures :: "nat \<Rightarrow> picture_env"
  li_stop :: int
  li_restart :: timeval

fun capture_loop :: "(nat \<Rightarrow> picture_env) \<Rightarrow> sample_consts \<Rightarrow> nat \<Rightarrow> nat \<Rightarrow> sample_state \<Rightarrow> int \<times> sample_state" where
  "capture_loop pics c 0 j s = (RET_OK, s)"
| "capture_loop pics c (Suc k) j s =
     (let (ret, tr) = get_camimage (pics j) (sc_fd c);
          s1 = s\<lparr>sm_trace := sm_trace s @ tr\<rparr>
      in if ret \<noteq> RET_OK then (ret, s1)
         else
           let (_, n, file) = futil_writeimage (pics j) (sc_dir c)
                 (if sc_type c = VIDEO_CAPTURE then ''RGB'' else ''JPG'') (sm_framecount s1);
               (ret, tr) = release_camimage (pics j) (sc_fd c);
               s2 = s1\<lparr>sm_framecount := n, sm_trace := sm_trace s1 @ tr,
                 sm_files := sm_files s1 @ (case file of None \<Rightarrow> [] | Some f \<Rightarrow> [f])\<rparr>
           in if ret \<noteq> RET_OK then (ret, s2)
              else capture_loop pics c k (j + 1) (s2\<lparr>sm_capture_num := k\<rparr>))"

text \<open>Waiting with a preview: the states before and after the capture.\<close>

definition preview_step :: "loop_input \<Rightarrow> sample_consts \<Rightarrow> sample_state \<Rightarrow> sample_next" where
  "preview_step inp c s =
     (let (ret, tr) = get_camimage (li_preview inp) (sc_fd c);
          s1 = s\<lparr>sm_trace := sm_trace s @ tr\<rparr>
      in if ret \<noteq> RET_OK then Leaving ret s1
         else
           let (ret, tr) = release_camimage (li_preview inp) (sc_fd c);
               s2 = s1\<lparr>sm_trace := sm_trace s1 @ tr\<rparr>
           in if ret \<noteq> RET_OK then Leaving ret s2
              else if \<not> sc_eternal c \<and> timer_greater (timersub (li_now inp) (sm_start s2)) (sm_wait s2) then
                (if sm_phase s2 = BEFORE_CAPTURE then Running (s2\<lparr>sm_phase := UNDER_CAPTURE\<rparr>)
                 else Leaving RET_OK s2)
              else Running s2)"

definition capture_step :: "loop_input \<Rightarrow> sample_consts \<Rightarrow> sample_state \<Rightarrow> sample_next" where
  "capture_step inp c s =
     (let ret = start_stillcapture (li_start inp) (sc_type c)
      in if ret \<noteq> RET_OK then Leaving ret s
         else
           let (ret, s1) = capture_loop (li_pictures inp) c (sm_capture_num s) 0 s
           in if ret \<noteq> RET_OK then Leaving ret s1
              else
                let ret = stop_stillcapture (li_stop inp) (sc_type c)
                in if ret \<noteq> RET_OK then Leaving ret s1
                   else Running (s1\<lparr>sm_phase := AFTER_CAPTURE,
                     sm_wait := \<lparr>tv_s = KEEP_VIDEO_TIME, tv_us = 0\<rparr>, sm_start := li_restart inp\<rparr>))"

definition sample_step :: "loop_input \<Rightarrow> sample_consts \<Rightarrow> sample_state \<Rightarrow> sample_next" where
  "sample_step inp c s =
     (case sm_phase s of UNDER_CAPTURE \<Rightarrow> capture_step inp c s | _ \<Rightarrow> preview_step inp c s)"

primrec sample_loop :: "loop_input list \<Rightarrow> sample_consts \<Rightarrow> sample_state \<Rightarrow> sample_next" where
  "sample_loop [] c s = Running s"
| "sample_loop (inp # inps) c s =
     (case sample_step inp c s of Running s' \<Rightarrow> sample_loop inps c s' | Leaving ret s' \<Rightarrow> Leaving ret s')"

subsection \<open>The command\<close>

record sample_env =
  se_stat :: int
  se_video_initialize :: int
  se_open :: int
  se_driver :: string
  se_still :: prepare_env
  se_video :: prepare_env
  se_start :: timeval

text \<open>
  The result: the return value, or \<open>None\<close> while the loop is still running when the inputs end; the files
  and the counter; whether the video driver is left initialised; the controls sent; the trace.
\<close>

record sample_result =
  sr_ret :: "int option"
  sr_files :: "(string \<times> bytes) list"
  sr_framecount :: nat
  sr_driver :: bool
  sr_ctrls :: "camera_ctrl list"
  sr_trace :: trace

definition sensor_size :: "string \<Rightarrow> frame_size" where
  "sensor_size driver =
     (if take 6 driver = ''ISX012'' then FULLHD
      else if take 6 driver = ''ISX019'' then QUADVGA
      else QUADVGA)"

text \<open>\<open>exit_this_app\<close> and the labels after it.\<close>

definition exit_this_app :: "int \<Rightarrow> v_buffers option \<Rightarrow> v_buffers option \<Rightarrow> trace" where
  "exit_this_app fd video still = OsClose fd # free_buffer video @ free_buffer still"

definition sample_setup :: "sample_env \<Rightarrow> sample_args \<Rightarrow> sample_consts" where
  "sample_setup env a = \<lparr>sc_fd = se_open env, sc_type = arg_type a, sc_dir = futil_initialize (se_stat env),
     sc_eternal = (arg_capture_num a = 0)\<rparr>"

definition sample_before :: "sample_env \<Rightarrow> sample_args \<Rightarrow> nat \<Rightarrow> trace \<Rightarrow> sample_state" where
  "sample_before env a framecount tr = \<lparr>sm_phase = BEFORE_CAPTURE, sm_capture_num = nat (arg_capture_num a),
     sm_start = se_start env, sm_wait = \<lparr>tv_s = START_CAPTURE_TIME, tv_us = 0\<rparr>, sm_framecount = framecount,
     sm_files = [], sm_trace = tr\<rparr>"

definition sample_main :: "sample_env \<Rightarrow> string list \<Rightarrow> loop_input list \<Rightarrow> nat \<Rightarrow> sample_result" where
  "sample_main env argv inps framecount =
     (let left = (\<lambda>ret drv tr. \<lparr>sr_ret = Some ret, sr_files = [], sr_framecount = framecount, sr_driver = drv,
            sr_ctrls = [], sr_trace = tr\<rparr>)
      in case parse_arguments argv of
        Inl e \<Rightarrow> left RET_ERROR False []
      | Inr a \<Rightarrow>
          if se_video_initialize env \<noteq> 0 then left (se_video_initialize env) False []
          else let fd = se_open env
          in if fd < 0 then left RET_ERROR False []
          else
            let (ret, still, tr) = (if arg_capture_num a \<noteq> 0
                  then camera_prepare (se_still env) fd MODE_FIFO PIX_JPEG (sensor_size (se_driver env)) STILL_BUFNUM IMAGE_JPG_SIZE
                  else (RET_OK, None, []))
            in if ret \<noteq> RET_OK then left ret False (OsOpen fd # tr @ exit_this_app fd None still)
            else
              let (ret, video, tr') = camera_prepare (se_video env) fd MODE_RING PIX_RGB565 QVGA VIDEO_BUFNUM IMAGE_RGB_SIZE
              in if ret \<noteq> RET_OK then left ret False (OsOpen fd # tr @ tr' @ exit_this_app fd video still)
              else
                let ctrls = (if arg_spot_en a
                      then [set_spot_metering True, set_spot_metering_pos SPOT_METERING_POSX SPOT_METERING_POSY] else []);
                    s = sample_before env a framecount (OsOpen fd # tr @ tr')
                in case sample_loop inps (sample_setup env a) s of
                     Running s' \<Rightarrow> \<lparr>sr_ret = None, sr_files = sm_files s', sr_framecount = sm_framecount s',
                       sr_driver = True, sr_ctrls = ctrls, sr_trace = sm_trace s'\<rparr>
                   | Leaving ret s' \<Rightarrow> \<lparr>sr_ret = Some ret, sr_files = sm_files s', sr_framecount = sm_framecount s',
                       sr_driver = False, sr_ctrls = ctrls, sr_trace = sm_trace s' @ exit_this_app fd video still\<rparr>)"

section \<open>Buffers\<close>

lemma free_events [simp]:
  "allocs (map OsFree xs) = []" "frees (map OsFree xs) = xs" "open_fds (map OsFree xs) = {}" "closed_fds (map OsFree xs) = {}"
  by (induction xs) simp_all

lemma prepare_alloc_failed:
  "prepare_alloc env k cnt starts = Inl tr \<Longrightarrow>
     mset (frees tr) = mset (allocs tr) + mset starts + {#pe_malloc env#} \<and> open_fds tr = {} \<and> closed_fds tr = {}"
proof (induction k arbitrary: cnt starts tr)
  case (Suc k)
  show ?case
  proof (cases "pe_memalign env cnt = 0")
    case True
    with Suc.prems show ?thesis
      by auto
  next
    case False
    with Suc.prems obtain tr' where tr: "prepare_alloc env k (cnt + 1) (starts @ [pe_memalign env cnt]) = Inl tr'"
      "tr = OsAlloc (pe_memalign env cnt) # tr'"
      by (auto simp: Let_def split: sum.splits)
    from Suc.IH [OF tr(1)] tr(2) show ?thesis
      by simp
  qed
qed simp

lemma prepare_alloc_done:
  "prepare_alloc env k cnt starts = Inr (bs, tr) \<Longrightarrow>
     bs = starts @ map (pe_memalign env) [cnt..<cnt + k] \<and> tr = map OsAlloc (map (pe_memalign env) [cnt..<cnt + k]) \<and>
     (\<forall>i \<in> {cnt..<cnt + k}. pe_memalign env i \<noteq> 0)"
proof (induction k arbitrary: cnt starts tr)
  case (Suc k)
  then obtain tr' where a: "pe_memalign env cnt \<noteq> 0"
    and tr: "prepare_alloc env k (cnt + 1) (starts @ [pe_memalign env cnt]) = Inr (bs, tr')" "tr = OsAlloc (pe_memalign env cnt) # tr'"
    by (auto simp: Let_def split: sum.splits if_splits)
  have "[cnt..<cnt + Suc k] = cnt # [cnt + 1..<cnt + 1 + k]" "{cnt..<cnt + Suc k} = insert cnt {cnt + 1..<cnt + 1 + k}"
    by (auto simp: upt_rec)
  with Suc.IH [OF tr(1)] a tr(2) show ?case
    by simp
qed simp

text \<open>What the trace of a queueing loop is: the buffers before the first refused one.\<close>

lemma prepare_queue_trace:
  "\<exists>n \<le> k. prepare_queue env fd k cnt = (n = k, map (OsQbuf fd) [cnt..<cnt + n])"
proof (induction k arbitrary: cnt)
  case (Suc k)
  show ?case
  proof (cases "pe_qbuf env cnt = 0")
    case True
    from Suc.IH [of "cnt + 1"] obtain n where n: "n \<le> k"
      "prepare_queue env fd k (cnt + 1) = (n = k, map (OsQbuf fd) [cnt + 1..<cnt + 1 + n])"
      by blast
    have "[cnt..<cnt + Suc n] = cnt # [cnt + 1..<cnt + 1 + n]"
      by (simp add: upt_rec)
    with True n show ?thesis
      by (intro exI [of _ "Suc n"]) simp
  qed (auto intro: exI [of _ 0])
qed simp

lemma queue_events [simp]:
  "allocs (map (OsQbuf fd) xs) = []" "frees (map (OsQbuf fd) xs) = []" "open_fds (map (OsQbuf fd) xs) = {}" "closed_fds (map (OsQbuf fd) xs) = {}"
  by (induction xs) simp_all

lemma alloc_events [simp]:
  "allocs (map OsAlloc xs) = xs" "frees (map OsAlloc xs) = []" "open_fds (map OsAlloc xs) = {}" "closed_fds (map OsAlloc xs) = {}"
  by (induction xs) simp_all

text \<open>A stream holds exactly the buffers it took and did not give back.\<close>

definition holds_buffers :: "v_buffers option \<Rightarrow> trace \<Rightarrow> bool" where
  "holds_buffers vb tr \<longleftrightarrow> mset (allocs tr) = mset (frees tr) + mset (frees (free_buffer vb)) \<and>
     open_fds tr = {} \<and> closed_fds tr = {}"

lemma camera_prepare_holds:
  "camera_prepare env fd mode pix fsize n len = (ret, vb, tr) \<Longrightarrow> holds_buffers vb tr \<and> (ret \<noteq> RET_OK \<longrightarrow> vb = None)"
proof -
  assume r: "camera_prepare env fd mode pix fsize n len = (ret, vb, tr)"
  show ?thesis
  proof (cases "pe_s_fmt env fsize pix < 0 \<or> pe_reqbufs env mode n < 0 \<or> pe_malloc env = 0")
    case True
    with r show ?thesis
      by (auto simp: camera_prepare_def holds_buffers_def free_buffer_def split: if_splits)
  next
    case False
    then have ok: "\<not> pe_s_fmt env fsize pix < 0" "\<not> pe_reqbufs env mode n < 0" "pe_malloc env \<noteq> 0"
      by simp_all
    show ?thesis
    proof (cases "prepare_alloc env n 0 []")
      case (Inl a)
      with r ok prepare_alloc_failed [OF Inl] show ?thesis
        by (auto simp: camera_prepare_def holds_buffers_def free_buffer_def)
    next
      case (Inr b)
      obtain bs atr where b: "b = (bs, atr)"
        by (cases b)
      obtain m where q: "prepare_queue env fd n 0 = (m = n, map (OsQbuf fd) [0..<m])"
        using prepare_queue_trace [of n env fd 0] by auto
      from prepare_alloc_done [OF Inr [unfolded b]]
      have bs: "atr = map OsAlloc bs" "filter (\<lambda>a. a \<noteq> 0) bs = bs"
        by (auto simp: filter_id_conv)
      with r ok Inr b q show ?thesis
        by (auto simp: camera_prepare_def holds_buffers_def free_buffer_def Let_def RET_OK_def split: if_splits)
    qed
  qed
qed

section \<open>The loop takes and releases nothing\<close>

definition quiet :: "trace \<Rightarrow> bool" where
  "quiet w \<longleftrightarrow> allocs w = [] \<and> frees w = [] \<and> open_fds w = {} \<and> closed_fds w = {}"

lemma quiet_simps [simp]:
  "quiet []" "quiet (OsDqbuf fd i # w) = quiet w" "quiet (OsQbuf fd i # w) = quiet w" "quiet (v @ w) \<longleftrightarrow> quiet v \<and> quiet w"
  by (auto simp: quiet_def)

definition extends_quietly :: "sample_state \<Rightarrow> sample_state \<Rightarrow> bool" where
  "extends_quietly s s' \<longleftrightarrow> (\<exists>w. quiet w \<and> sm_trace s' = sm_trace s @ w)"

lemma extends_quietly_trans: "extends_quietly s s' \<Longrightarrow> extends_quietly s' s'' \<Longrightarrow> extends_quietly s s''"
  unfolding extends_quietly_def by (metis append_assoc quiet_simps(4))

lemma driver_call_quiet:
  "get_camimage env fd = (ret, tr) \<Longrightarrow> quiet tr" "release_camimage env fd = (ret, tr) \<Longrightarrow> quiet tr"
  by (auto simp: get_camimage_def release_camimage_def split: if_splits)

lemma capture_loop_quiet: "capture_loop pics c k j s = (ret, s') \<Longrightarrow> extends_quietly s s'"
proof (induction k arbitrary: j s)
  case 0
  then show ?case
    by (auto simp: extends_quietly_def)
next
  case (Suc k)
  obtain r1 t1 where g: "get_camimage (pics j) (sc_fd c) = (r1, t1)"
    by (cases "get_camimage (pics j) (sc_fd c)")
  obtain r2 t2 where q: "release_camimage (pics j) (sc_fd c) = (r2, t2)"
    by (cases "release_camimage (pics j) (sc_fd c)")
  have quiet: "quiet t1" "quiet t2"
    using driver_call_quiet(1) [OF g] driver_call_quiet(2) [OF q] .
  show ?case
  proof (cases "r1 = RET_OK \<and> r2 = RET_OK")
    case True
    obtain u n f where w: "futil_writeimage (pics j) (sc_dir c)
        (if sc_type c = VIDEO_CAPTURE then ''RGB'' else ''JPG'') (sm_framecount s) = (u, n, f)"
      by (cases "futil_writeimage (pics j) (sc_dir c) (if sc_type c = VIDEO_CAPTURE then ''RGB'' else ''JPG'') (sm_framecount s)")
    let ?s = "s\<lparr>sm_framecount := n, sm_trace := sm_trace s @ t1 @ t2,
      sm_files := sm_files s @ (case f of None \<Rightarrow> [] | Some x \<Rightarrow> [x]), sm_capture_num := k\<rparr>"
    have "capture_loop pics c k (j + 1) ?s = (ret, s')"
      using Suc.prems True g q w by (simp add: Let_def)
    from Suc.IH [OF this] have "extends_quietly ?s s'" .
    moreover have "extends_quietly s ?s"
      using quiet by (auto simp: extends_quietly_def)
    ultimately show ?thesis
      by (rule extends_quietly_trans [rotated])
  next
    case False
    with Suc.prems g q quiet show ?thesis
      by (auto simp: extends_quietly_def Let_def split: if_splits prod.splits)
  qed
qed

lemma sample_step_quiet:
  "case sample_step inp c s of Running s' \<Rightarrow> extends_quietly s s' | Leaving ret s' \<Rightarrow> extends_quietly s s'"
proof (cases "sm_phase s = UNDER_CAPTURE")
  case True
  obtain r s1 where l: "capture_loop (li_pictures inp) c (sm_capture_num s) 0 s = (r, s1)"
    by (cases "capture_loop (li_pictures inp) c (sm_capture_num s) 0 s")
  from capture_loop_quiet [OF this] have "extends_quietly s s1" .
  moreover have "extends_quietly s s"
    by (simp add: extends_quietly_def)
  ultimately show ?thesis
    using True l by (simp add: sample_step_def capture_step_def Let_def extends_quietly_def)
next
  case False
  obtain r1 t1 where g: "get_camimage (li_preview inp) (sc_fd c) = (r1, t1)"
    by (cases "get_camimage (li_preview inp) (sc_fd c)")
  obtain r2 t2 where q: "release_camimage (li_preview inp) (sc_fd c) = (r2, t2)"
    by (cases "release_camimage (li_preview inp) (sc_fd c)")
  have "quiet t1" "quiet t2"
    using driver_call_quiet(1) [OF g] driver_call_quiet(2) [OF q] .
  with False g q show ?thesis
    by (cases "sm_phase s") (simp_all add: sample_step_def preview_step_def Let_def extends_quietly_def)
qed

lemma sample_loop_quiet:
  "case sample_loop inps c s of Running s' \<Rightarrow> extends_quietly s s' | Leaving ret s' \<Rightarrow> extends_quietly s s'"
proof (induction inps arbitrary: s)
  case Nil
  then show ?case
    by (simp add: extends_quietly_def)
next
  case (Cons inp inps)
  show ?case
  proof (cases "sample_step inp c s")
    case (Running s1)
    with sample_step_quiet [of s inp c] have "extends_quietly s s1"
      by simp
    with Cons.IH [of s1] Running extends_quietly_trans [of s s1] show ?thesis
      by (simp split: sample_next.splits)
  next
    case (Leaving ret s1)
    with sample_step_quiet [of s inp c] show ?thesis
      by simp
  qed
qed

lemma exit_balanced:
  assumes "holds_buffers still tr" "holds_buffers video tr'" "quiet w"
  shows "balanced (OsOpen fd # tr @ tr' @ w @ exit_this_app fd video still)"
proof -
  have free: "allocs (free_buffer vb) = []" "open_fds (free_buffer vb) = {}" "closed_fds (free_buffer vb) = {}" for vb
    by (simp_all add: free_buffer_def split: option.split)
  show ?thesis
    using assms by (simp add: balanced_def exit_this_app_def holds_buffers_def quiet_def free ac_simps)
qed

section \<open>The pictures\<close>

definition next_number :: "nat \<Rightarrow> nat" where
  "next_number n = (if n + 1 \<ge> 1000 then 1 else n + 1)"

definition image_suffix :: "buf_type \<Rightarrow> string" where
  "image_suffix t = (if t = VIDEO_CAPTURE then ''RGB'' else ''JPG'')"

definition picture_bytes :: "picture_env \<Rightarrow> bytes" where
  "picture_bytes p = take (pi_fwrite p) (take (pi_bytesused p) (pi_mem p))"

text \<open>The files of \<open>n\<close> pictures when the counter was at \<open>f\<close> and every file can be opened.\<close>

definition picture_files :: "(nat \<Rightarrow> picture_env) \<Rightarrow> sample_consts \<Rightarrow> nat \<Rightarrow> nat \<Rightarrow> nat \<Rightarrow> (string \<times> bytes) list" where
  "picture_files pics c f j n =
     map (\<lambda>i. (image_name (sc_dir c) ((next_number ^^ Suc i) f) (image_suffix (sc_type c)), picture_bytes (pics (j + i)))) [0..<n]"

lemma picture_files_Suc:
  "picture_files pics c f j (Suc n) =
     (image_name (sc_dir c) (next_number f) (image_suffix (sc_type c)), picture_bytes (pics j)) #
     picture_files pics c (next_number f) (j + 1) n"
proof -
  have "[0..<Suc n] = 0 # map Suc [0..<n]"
    by (simp add: map_Suc_upt upt_conv_Cons)
  then show ?thesis
    by (simp add: picture_files_def funpow_Suc_right del: upt_Suc funpow.simps)
qed

lemma capture_loop_files:
  "capture_loop pics c k j s = (RET_OK, s') \<Longrightarrow> \<forall>j. pi_fopen (pics j) \<Longrightarrow>
     sm_files s' = sm_files s @ picture_files pics c (sm_framecount s) j k \<and> sm_phase s' = sm_phase s"
proof (induction k arbitrary: j s)
  case 0
  then show ?case
    by (auto simp: picture_files_def)
next
  case (Suc k)
  have w: "futil_writeimage (pics j) (sc_dir c) suf f =
      (RET_OK, next_number f, Some (image_name (sc_dir c) (next_number f) suf, picture_bytes (pics j)))" for suf f
    using Suc.prems(2) by (simp add: futil_writeimage_def next_number_def picture_bytes_def)
  obtain r1 t1 where g: "get_camimage (pics j) (sc_fd c) = (r1, t1)"
    by (cases "get_camimage (pics j) (sc_fd c)")
  obtain r2 t2 where q: "release_camimage (pics j) (sc_fd c) = (r2, t2)"
    by (cases "release_camimage (pics j) (sc_fd c)")
  let ?s = "s\<lparr>sm_framecount := next_number (sm_framecount s), sm_trace := sm_trace s @ t1 @ t2,
    sm_files := sm_files s @ [(image_name (sc_dir c) (next_number (sm_framecount s)) (image_suffix (sc_type c)), picture_bytes (pics j))],
    sm_capture_num := k\<rparr>"
  have "capture_loop pics c k (j + 1) ?s = (RET_OK, s')"
    using Suc.prems(1) g q by (auto simp: Let_def w image_suffix_def split: if_splits)
  from Suc.IH [OF this Suc.prems(2)] show ?case
    by (simp add: picture_files_Suc)
qed

lemma preview_step_keeps:
  "case preview_step inp c s of
     Running s' \<Rightarrow> sm_files s' = sm_files s \<and> sm_framecount s' = sm_framecount s \<and> sm_capture_num s' = sm_capture_num s \<and>
       (sm_phase s' = sm_phase s \<or> \<not> sc_eternal c \<and> sm_phase s = BEFORE_CAPTURE \<and> sm_phase s' = UNDER_CAPTURE)
   | Leaving ret s' \<Rightarrow> sm_files s' = sm_files s \<and> (ret = RET_OK \<longrightarrow> \<not> sc_eternal c \<and> sm_phase s \<noteq> BEFORE_CAPTURE)"
  by (auto simp: preview_step_def get_camimage_def release_camimage_def RET_OK_def RET_ERROR_def Let_def)

text \<open>What a run of the loop that leaves normally has added to the files.\<close>

definition taken :: "loop_input list \<Rightarrow> sample_consts \<Rightarrow> sample_state \<Rightarrow> (string \<times> bytes) list \<Rightarrow> bool" where
  "taken inps c s fs \<longleftrightarrow>
     (if sm_phase s = AFTER_CAPTURE then fs = []
      else \<exists>inp \<in> set inps. fs = picture_files (li_pictures inp) c (sm_framecount s) 0 (sm_capture_num s))"

lemma sample_loop_files:
  "sample_loop inps c s = Leaving RET_OK s' \<Longrightarrow> \<forall>inp \<in> set inps. \<forall>j. pi_fopen (li_pictures inp j) \<Longrightarrow>
     \<exists>fs. sm_files s' = sm_files s @ fs \<and> taken inps c s fs"
proof (induction inps arbitrary: s)
  case (Cons inp inps)
  show ?case
  proof (cases "sm_phase s = UNDER_CAPTURE")
    case True
    obtain r s1 where l: "capture_loop (li_pictures inp) c (sm_capture_num s) 0 s = (r, s1)"
      by (cases "capture_loop (li_pictures inp) c (sm_capture_num s) 0 s")
    let ?s = "s1\<lparr>sm_phase := AFTER_CAPTURE, sm_wait := \<lparr>tv_s = KEEP_VIDEO_TIME, tv_us = 0\<rparr>, sm_start := li_restart inp\<rparr>"
    have r: "r = RET_OK" "sample_loop inps c ?s = Leaving RET_OK s'"
      using Cons.prems(1) True l by (auto simp: sample_step_def capture_step_def Let_def split: if_splits)
    have files: "sm_files s1 = sm_files s @ picture_files (li_pictures inp) c (sm_framecount s) 0 (sm_capture_num s)"
      using capture_loop_files [OF l [unfolded r(1)]] Cons.prems(2) by simp
    from Cons.IH [OF r(2)] Cons.prems(2) have "sm_files s' = sm_files s1"
      by (auto simp: taken_def)
    with files True show ?thesis
      by (auto simp: taken_def)
  next
    case False
    then have step: "sample_step inp c s = preview_step inp c s"
      by (cases "sm_phase s") (simp_all add: sample_step_def)
    show ?thesis
    proof (cases "preview_step inp c s")
      case (Running s1)
      with Cons.prems(1) step have "sample_loop inps c s1 = Leaving RET_OK s'"
        by simp
      from Cons.IH [OF this] Cons.prems(2) obtain fs where fs: "sm_files s' = sm_files s1 @ fs" "taken inps c s1 fs"
        by auto
      moreover have "taken (inp # inps) c s fs" "sm_files s1 = sm_files s"
        using preview_step_keeps [of s c inp] Running fs(2) False by (auto simp: taken_def split: if_splits)
      ultimately show ?thesis
        by auto
    next
      case (Leaving ret s1)
      with Cons.prems(1) step have "ret = RET_OK" "s1 = s'"
        by simp_all
      with preview_step_keeps [of s c inp] Leaving False show ?thesis
        by (cases "sm_phase s") (auto simp: taken_def)
    qed
  qed
qed simp

lemma sample_loop_eternal:
  "sample_loop inps c s = Leaving ret s' \<Longrightarrow> sc_eternal c \<Longrightarrow> sm_phase s = BEFORE_CAPTURE \<Longrightarrow>
     ret \<noteq> RET_OK \<and> sm_files s' = sm_files s"
proof (induction inps arbitrary: s)
  case (Cons inp inps)
  show ?case
  proof (cases "preview_step inp c s")
    case (Running s1)
    have "sample_loop inps c s1 = Leaving ret s'" "sm_phase s1 = BEFORE_CAPTURE" "sm_files s1 = sm_files s"
      using Running Cons.prems preview_step_keeps [of s c inp] by (auto simp: sample_step_def)
    with Cons.IH [of s1] Cons.prems(2) show ?thesis
      by simp
  next
    case (Leaving r s1)
    with Cons.prems preview_step_keeps [of s c inp] show ?thesis
      by (auto simp: sample_step_def)
  qed
qed simp

lemma next_number_iter: "f < 1000 \<Longrightarrow> (next_number ^^ Suc i) f = (f + i) mod 999 + 1"
proof (induction i)
  case 0
  then show ?case
    by (cases "f = 999") (auto simp: next_number_def)
next
  case (Suc i)
  have step: "next_number (x mod 999 + 1) = Suc x mod 999 + 1" for x
    using mod_less_divisor [of 999 x] by (auto simp: next_number_def mod_Suc)
  have "(next_number ^^ Suc (Suc i)) f = next_number ((next_number ^^ Suc i) f)"
    by simp
  also have "\<dots> = (f + Suc i) mod 999 + 1"
    unfolding Suc.IH [OF Suc.prems] step by simp
  finally show ?case .
qed

lemma char_digit_inject: "(char_of (48 + d) :: char) = char_of (48 + e) \<Longrightarrow> d < 10 \<Longrightarrow> e < 10 \<Longrightarrow> d = (e :: nat)"
proof -
  assume de: "(char_of (48 + d) :: char) = char_of (48 + e)" "d < 10" "e < 10"
  have "of_char (char_of (48 + d)) = (of_char (char_of (48 + e)) :: nat)"
    using de(1) by (simp only:)
  then have "(48 + d) mod 256 = (48 + e) mod 256"
    by (simp only: of_char_of)
  with de(2,3) show "d = e"
    by simp
qed

lemma decimal3: "n = (n div 100 * 10 + n div 10 mod 10) * 10 + n mod 10" for n :: nat
proof -
  have "n div 100 = n div 10 div 10"
    by (simp add: div_mult2_eq [symmetric])
  then have "n div 100 * 10 + n div 10 mod 10 = n div 10"
    by (simp only: div_mult_mod_eq)
  then show ?thesis
    by (simp only: div_mult_mod_eq)
qed

lemma digit3_inject:
  assumes "m < 1000" "n < 1000" "digit3 m = digit3 n"
  shows "m = n"
proof -
  from assms(3) have eq: "(char_of (48 + m div 100) :: char) = char_of (48 + n div 100)"
    "(char_of (48 + m div 10 mod 10) :: char) = char_of (48 + n div 10 mod 10)"
    "(char_of (48 + m mod 10) :: char) = char_of (48 + n mod 10)"
    unfolding digit3_def list.map list.inject by blast+
  have "m div 100 = n div 100"
    by (rule char_digit_inject [OF eq(1)]) (use assms(1,2) in simp_all)
  moreover have "m div 10 mod 10 = n div 10 mod 10"
    by (rule char_digit_inject [OF eq(2)]) simp_all
  moreover have "m mod 10 = n mod 10"
    by (rule char_digit_inject [OF eq(3)]) simp_all
  ultimately show ?thesis
    using decimal3 [of m] decimal3 [of n] by (simp only:)
qed

lemma image_name_inject:
  assumes "image_name (futil_initialize r) m (image_suffix t) = image_name (futil_initialize r) n (image_suffix t)"
    and "m < 1000" "n < 1000"
  shows "m = n"
proof -
  have "length (futil_initialize r) \<le> 9" "length (image_suffix t) = 3"
    by (simp_all add: futil_initialize_def image_suffix_def)
  then have "image_name (futil_initialize r) k (image_suffix t) = futil_initialize r @ ''/VIDEO'' @ digit3 k @ ''.'' @ image_suffix t" for k
    by (simp add: image_name_def IMAGE_FILENAME_LEN_def digit3_def)
  then have "digit3 m = digit3 n"
    using assms(1) by (simp add: digit3_def)
  then show ?thesis
    by (rule digit3_inject [OF assms(2,3)])
qed

lemma parse_loop_range:
  "parse_loop b argv a = Inr a' \<Longrightarrow> 0 \<le> arg_capture_num a \<and> arg_capture_num a \<le> MAX_CAPTURE_NUM \<Longrightarrow>
     0 \<le> arg_capture_num a' \<and> arg_capture_num a' \<le> MAX_CAPTURE_NUM"
  by (induction b argv a rule: parse_loop.induct) (auto simp: Let_def split: if_splits)

lemma parse_range: "parse_arguments argv = Inr a \<Longrightarrow> 0 \<le> arg_capture_num a \<and> arg_capture_num a \<le> 100"
  using parse_loop_range [of False argv _ a]
  by (fastforce simp: parse_arguments_def DEFAULT_CAPTURE_NUM_def MAX_CAPTURE_NUM_def split: if_splits)

section \<open>The command as a whole\<close>

lemma holds_none [simp]: "holds_buffers None []"
  by (simp add: holds_buffers_def free_buffer_def)

lemma sample_main_exit:
  assumes "sr_ret (sample_main env argv inps f) = Some ret"
  shows "ret \<noteq> RET_OK \<and> sr_files (sample_main env argv inps f) = [] \<and> \<not> sr_driver (sample_main env argv inps f) \<and>
      balanced (sr_trace (sample_main env argv inps f)) \<or>
    (\<exists>a tr tr' video still s'. parse_arguments argv = Inr a \<and> holds_buffers still tr \<and> holds_buffers video tr' \<and>
      sample_loop inps (sample_setup env a) (sample_before env a f (OsOpen (se_open env) # tr @ tr')) = Leaving ret s' \<and>
      sr_files (sample_main env argv inps f) = sm_files s' \<and> \<not> sr_driver (sample_main env argv inps f) \<and>
      sr_trace (sample_main env argv inps f) = sm_trace s' @ exit_this_app (se_open env) video still)"
proof (cases "parse_arguments argv")
  case (Inl e)
  with assms show ?thesis
    by (simp add: sample_main_def RET_OK_def RET_ERROR_def)
next
  case (Inr a)
  note args = Inr
  show ?thesis
  proof (cases "se_video_initialize env \<noteq> 0 \<or> se_open env < 0")
    case True
    with assms args show ?thesis
      by (auto simp: sample_main_def RET_OK_def RET_ERROR_def)
  next
    case False
    then have init: "\<not> se_video_initialize env \<noteq> 0" "\<not> se_open env < 0"
      by simp_all
    let ?still = "if arg_capture_num a \<noteq> 0
      then camera_prepare (se_still env) (se_open env) MODE_FIFO PIX_JPEG (sensor_size (se_driver env)) STILL_BUFNUM IMAGE_JPG_SIZE
      else (RET_OK, None, [])"
    obtain r still tr where st: "?still = (r, still, tr)"
      by (cases ?still)
    then have s: "holds_buffers still tr" "r \<noteq> RET_OK \<longrightarrow> still = None"
      using camera_prepare_holds [of "se_still env" "se_open env" MODE_FIFO PIX_JPEG "sensor_size (se_driver env)" STILL_BUFNUM IMAGE_JPG_SIZE]
      by (auto split: if_splits)
    obtain r' video tr' where vi: "camera_prepare (se_video env) (se_open env) MODE_RING PIX_RGB565 QVGA VIDEO_BUFNUM IMAGE_RGB_SIZE = (r', video, tr')"
      by (cases "camera_prepare (se_video env) (se_open env) MODE_RING PIX_RGB565 QVGA VIDEO_BUFNUM IMAGE_RGB_SIZE")
    from camera_prepare_holds [OF this] have v: "holds_buffers video tr'" "r' \<noteq> RET_OK \<longrightarrow> video = None"
      by simp_all
    have bal: "balanced (OsOpen (se_open env) # tr @ exit_this_app (se_open env) None still)"
      "balanced (OsOpen (se_open env) # tr @ tr' @ exit_this_app (se_open env) video still)"
      using exit_balanced [OF s(1) holds_none, of "[]"] exit_balanced [OF s(1) v(1), of "[]"] by simp_all
    have run: "sample_main env argv inps f = (
      let left = (\<lambda>ret drv tr. \<lparr>sr_ret = Some ret, sr_files = [], sr_framecount = f, sr_driver = drv, sr_ctrls = [], sr_trace = tr\<rparr>);
          fd = se_open env
      in if r \<noteq> RET_OK then left r False (OsOpen fd # tr @ exit_this_app fd None still)
         else if r' \<noteq> RET_OK then left r' False (OsOpen fd # tr @ tr' @ exit_this_app fd video still)
         else
           let ctrls = (if arg_spot_en a
                 then [set_spot_metering True, set_spot_metering_pos SPOT_METERING_POSX SPOT_METERING_POSY] else [])
           in case sample_loop inps (sample_setup env a) (sample_before env a f (OsOpen fd # tr @ tr')) of
                Running s' \<Rightarrow> \<lparr>sr_ret = None, sr_files = sm_files s', sr_framecount = sm_framecount s',
                  sr_driver = True, sr_ctrls = ctrls, sr_trace = sm_trace s'\<rparr>
              | Leaving ret s' \<Rightarrow> \<lparr>sr_ret = Some ret, sr_files = sm_files s', sr_framecount = sm_framecount s',
                  sr_driver = False, sr_ctrls = ctrls, sr_trace = sm_trace s' @ exit_this_app fd video still\<rparr>)"
      unfolding sample_main_def Let_def by (simp only: args init st vi sum.case prod.case if_False)
    show ?thesis
    proof (cases "r = RET_OK \<and> r' = RET_OK")
      case True
      with assms obtain s' where
        "sample_loop inps (sample_setup env a) (sample_before env a f (OsOpen (se_open env) # tr @ tr')) = Leaving ret s'"
        by (simp add: run Let_def split: sample_next.splits)
      with True args s v show ?thesis
        by (intro disjI2 exI [of _ a] exI [of _ tr] exI [of _ tr'] exI [of _ video] exI [of _ still] exI [of _ s'])
          (simp add: run Let_def)
    next
      case False
      with assms bal show ?thesis
        by (auto simp: run Let_def split: if_splits)
    qed
  qed
qed

lemma picture_files_nth:
  assumes "f < 1000" "i < n"
  shows "picture_files pics c f 0 n ! i =
    (image_name (sc_dir c) ((f + i) mod 999 + 1) (image_suffix (sc_type c)), picture_bytes (pics i))"
  using assms(2) next_number_iter [OF assms(1), of i] by (simp add: picture_files_def)

lemma mod_close_le:
  assumes "i \<le> j" "(f + i) mod m = (f + j) mod m" "j < (m :: nat)"
  shows "i = j"
proof -
  have "m dvd (f + j) - (f + i)"
    using mod_eq_dvd_iff_nat [of "f + i" "f + j" m] assms(1,2) by simp
  then have "m dvd j - i"
    by simp
  then have "j - i = 0 \<or> m \<le> j - i"
    using dvd_imp_le [of m "j - i"] by linarith
  with assms(1,3) show ?thesis
    by linarith
qed

lemma mod_close_inject:
  assumes "(f + i) mod m = (f + j) mod m" "i < m" "j < (m :: nat)"
  shows "i = j"
  using mod_close_le [of i j f m] mod_close_le [of j i f m] assms by (cases "i \<le> j") simp_all

lemma picture_names_distinct:
  assumes "f < 1000" "n \<le> 100" "sc_dir c = futil_initialize r"
  shows "distinct (map fst (picture_files pics c f 0 n))"
proof -
  have len: "length (map fst (picture_files pics c f 0 n)) = n"
    by (simp add: picture_files_def)
  have nth: "map fst (picture_files pics c f 0 n) ! i =
      image_name (futil_initialize r) ((f + i) mod 999 + 1) (image_suffix (sc_type c))" if "i < n" for i
    using picture_files_nth [OF assms(1) that, of pics c] that len by (simp add: assms(3))
  have small: "k mod 999 + 1 < (1000 :: nat)" for k
    using mod_less_divisor [of 999 k] by simp
  show ?thesis
    unfolding distinct_conv_nth len
  proof (intro allI impI notI)
    fix i j
    assume ij: "i < n" "j < n" "i \<noteq> j" "map fst (picture_files pics c f 0 n) ! i = map fst (picture_files pics c f 0 n) ! j"
    from image_name_inject [OF ij(4) [unfolded nth [OF ij(1)] nth [OF ij(2)]] small small]
    have "(f + i) mod 999 = (f + j) mod 999"
      by simp
    from mod_close_inject [OF this] ij assms(2) show False
      by simp
  qed
qed

section \<open>What the command gets wrong\<close>

text \<open>
  The position for spot metering holds both coordinates, but \<open>SPOT_METERING_POSY\<close> is defined as the x
  coordinate: the position sent is (10, 10), where the configuration and the README have (10, 20).
\<close>

lemma spot_position_sent: "set_spot_metering_pos SPOT_METERING_POSX SPOT_METERING_POSY = set_spot_metering_pos 10 10"
  by (simp add: SPOT_METERING_POSX_def SPOT_METERING_POSY_def)

text \<open>
  When a buffer cannot be queued, or the stream cannot be started, the blocks are freed although the
  driver still has those queued before: \<open>main\<close> closes the device only afterwards.
\<close>

lemma prepare_frees_queued:
  assumes "prepare_alloc env n 0 [] = Inr (starts, tr0)" "pe_malloc env \<noteq> 0"
    and "\<not> pe_s_fmt env fsize pix < 0" "\<not> pe_reqbufs env mode n < 0"
    and "pe_streamon env < 0" "\<forall>i < n. pe_qbuf env i = 0" "i < n"
  shows "\<exists>ret tr. camera_prepare env fd mode pix fsize n len = (ret, None, tr) \<and> i \<in> driver_owned {} tr \<and>
    pe_memalign env i \<in> set (frees tr)"
proof -
  have q: "prepare_queue env fd k c = (True, map (OsQbuf fd) [c..<c + k])" if "c + k = n" for c k
    using that assms(6)
  proof (induction k arbitrary: c)
    case (Suc k)
    then show ?case
      by (simp add: upt_conv_Cons)
  qed simp
  have freed: "driver_owned D (map OsFree xs) = D" "driver_owned D (map OsAlloc xs) = D" for D xs
    by (induction xs) simp_all
  have queued: "driver_owned D (map (OsQbuf fd) ys) = D \<union> set ys" for D ys
    by (induction ys arbitrary: D) auto
  note owned = freed queued
  note alloc = prepare_alloc_done [OF assms(1)]
  have "map (pe_memalign env) [0..<n] = starts" "filter (\<lambda>a. a \<noteq> 0) starts = starts" "tr0 = map OsAlloc starts"
    using alloc by (auto simp: filter_id_conv)
  then show ?thesis
    using assms(1-5,7) q [of 0 n] by (auto simp: camera_prepare_def free_buffer_def owned)
qed

section \<open>A concrete run\<close>

definition good_prepare :: "nat \<Rightarrow> prepare_env" where
  "good_prepare base = \<lparr>pe_s_fmt = (\<lambda>_ _. 0), pe_reqbufs = (\<lambda>_ _. 0), pe_malloc = base, pe_memalign = (\<lambda>i. base + 1 + i),
     pe_qbuf = (\<lambda>_. 0), pe_streamon = 0\<rparr>"

definition good_picture :: picture_env where
  "good_picture = \<lparr>pi_dqbuf = 0, pi_index = 0, pi_bytesused = 2, pi_mem = [7, 8, 9], pi_fopen = True, pi_fwrite = 2, pi_qbuf = 0\<rparr>"

definition good_input :: "int \<Rightarrow> loop_input" where
  "good_input now = \<lparr>li_preview = good_picture, li_now = \<lparr>tv_s = now, tv_us = 0\<rparr>, li_start = 0,
     li_pictures = (\<lambda>_. good_picture), li_stop = 0, li_restart = \<lparr>tv_s = now, tv_us = 0\<rparr>\<rparr>"

definition good_env :: sample_env where
  "good_env = \<lparr>se_stat = 0, se_video_initialize = 0, se_open = 3, se_driver = ''ISX012'', se_still = good_prepare 100,
     se_video = good_prepare 200, se_start = \<lparr>tv_s = 0, tv_us = 0\<rparr>\<rparr>"

lemma parse_two: "parse_arguments [''2''] = Inr \<lparr>arg_capture_num = 2, arg_type = VIDEO_CAPTURE, arg_spot_en = False\<rparr>"
  by (simp add: parse_arguments_def c_atoi_def c_isspace_def MAX_CAPTURE_NUM_def)

lemma good_fields:
  "pe_s_fmt (good_prepare b) fs px = 0" "pe_reqbufs (good_prepare b) md n = 0" "pe_malloc (good_prepare b) = b"
  "pe_memalign (good_prepare b) i = b + 1 + i" "pe_qbuf (good_prepare b) i = 0" "pe_streamon (good_prepare b) = 0"
  by (simp_all add: good_prepare_def)

lemma good_buffers:
  "\<exists>tr. camera_prepare (good_prepare b) fd mode pix fsize n len = (RET_OK, Some \<lparr>vb_array = b, vb_start = map (\<lambda>i. b + 1 + i) [0..<n], vb_length = len\<rparr>, tr)"
  if "0 < b"
proof -
  have q: "\<exists>tr. prepare_queue (good_prepare b) fd n k = (True, tr)" for k
  proof (induction n arbitrary: k)
    case (Suc n)
    then obtain tr where "prepare_queue (good_prepare b) fd n (k + 1) = (True, tr)"
      by blast
    then show ?case
      by (auto simp: good_fields)
  qed simp
  have a: "\<exists>tr. prepare_alloc (good_prepare b) n k bs = Inr (bs @ map (\<lambda>i. b + 1 + i) [k..<k + n], tr)" for k bs
  proof (induction n arbitrary: k bs)
    case (Suc n)
    then obtain tr where "prepare_alloc (good_prepare b) n (k + 1) (bs @ [b + 1 + k]) =
        Inr ((bs @ [b + 1 + k]) @ map (\<lambda>i. b + 1 + i) [k + 1..<k + 1 + n], tr)"
      by blast
    moreover have "[k..<k + Suc n] = k # [k + 1..<k + 1 + n]"
      by (simp add: upt_rec)
    ultimately show ?case
      by (simp add: good_fields)
  qed simp
  obtain t1 t2 where "prepare_queue (good_prepare b) fd n 0 = (True, t1)"
    "prepare_alloc (good_prepare b) n 0 [] = Inr (map (\<lambda>i. b + 1 + i) [0..<n], t2)"
    using q [of 0] a [of 0 "[]"] by auto
  with that show ?thesis
    by (simp add: camera_prepare_def good_fields)
qed

lemma good_run: "sr_ret (sample_main good_env [''2''] [good_input 6, good_input 7, good_input 18] 0) = Some RET_OK"
proof -
  obtain t1 where t1: "camera_prepare (good_prepare 100) 3 MODE_FIFO PIX_JPEG (sensor_size ''ISX012'') STILL_BUFNUM IMAGE_JPG_SIZE =
      (RET_OK, Some \<lparr>vb_array = 100, vb_start = map (\<lambda>i. 100 + 1 + i) [0..<STILL_BUFNUM], vb_length = IMAGE_JPG_SIZE\<rparr>, t1)"
    using good_buffers [of 100] by fastforce
  obtain t2 where t2: "camera_prepare (good_prepare 200) 3 MODE_RING PIX_RGB565 QVGA VIDEO_BUFNUM IMAGE_RGB_SIZE =
      (RET_OK, Some \<lparr>vb_array = 200, vb_start = map (\<lambda>i. 200 + 1 + i) [0..<VIDEO_BUFNUM], vb_length = IMAGE_RGB_SIZE\<rparr>, t2)"
    using good_buffers [of 200] by fastforce
  show ?thesis
    unfolding sample_main_def parse_two
    by (simp add: good_env_def t1 t2 sample_before_def sample_setup_def sample_step_def preview_step_def good_input_def
        good_picture_def get_camimage_def release_camimage_def timersub_def timer_greater_def START_CAPTURE_TIME_def
        KEEP_VIDEO_TIME_def capture_step_def start_stillcapture_def stop_stillcapture_def futil_writeimage_def
        numeral_2_eq_2 RET_OK_def)
qed

section \<open>Properties\<close>





end
