(* ===== verification/PppContext.thy ===== *)
theory PppContext
  imports Prelude "HOL-Library.Monad_Syntax"
begin

unbundle bit_operations_syntax

section \<open>The context of the PPP daemon (netutils/pppd/ppp.h)\<close>

text \<open>
  The constants and the context record that the files of the daemon share (\<open>ppp.h\<close>, \<open>ppp_conf.h\<close>; PAP
  is off by default and left out), and access to its receive buffer: a pointer into the buffer is an
  index, and a read or write outside it has the result \<open>None\<close>.  The output of the daemon is a list of
  events.
\<close>

definition PPP_RX_BUFFER_SIZE :: nat where "PPP_RX_BUFFER_SIZE = 1024"
definition AHDLC_TX_OFFLINE :: u8 where "AHDLC_TX_OFFLINE = 5"

definition CRC_GOOD_VALUE :: u16 where "CRC_GOOD_VALUE = 0xf0b8"

definition PPP_ESCAPED :: u8 where "PPP_ESCAPED = 0x1"
definition PPP_RX_READY :: u8 where "PPP_RX_READY = 0x2"
definition PPP_RX_ASYNC_MAP :: u8 where "PPP_RX_ASYNC_MAP = 0x4"
definition PPP_TX_ASYNC_MAP :: u8 where "PPP_TX_ASYNC_MAP = 0x8"
definition PPP_PFC :: u8 where "PPP_PFC = 0x10"
definition PPP_ACFC :: u8 where "PPP_ACFC = 0x20"

definition LCP :: u16 where "LCP = 0xc021"
definition IPCP :: u16 where "IPCP = 0x8021"
definition IPV4 :: u16 where "IPV4 = 0x0021"

text \<open>
  What the daemon does to the outside: a character put on the line, a write to the modem, a chat script
  run with its result, a pause, the calls that configure the interface, a packet written to it.
\<close>

datatype ppp_event =
    LinePut u8
  | ModemWrite bytes
  | DisconnectScript int
  | ConnectScript int
  | Pause nat
  | NetIfdown
  | NetIfup
  | NetSetAddr bytes
  | NetSetPeerAddr bytes
  | TunWrite bytes

text \<open>
  The context; an address is its four bytes in network order.  Of the settings the scripts matter, and
  only whether they are there; \<open>chat_results\<close> are the results of the script runs to come, and \<open>ppp_out\<close>
  the events so far.
\<close>

record ppp_context =
  ip_buf :: bytes
  ip_len :: u16
  ppp_flags :: u8
  ppp_tx_mru :: u16
  ppp_id :: u8
  ip_no_data_time :: u16
  local_ip :: bytes
  peer_ip :: bytes
  lcp_state :: u8
  lcp_retry :: u8
  lcp_prev_seconds :: int
  ipcp_state :: u8
  ipcp_retry :: u8
  ipcp_prev_seconds :: int
  ahdlc_rx_buffer :: bytes
  ahdlc_tx_crc :: u16
  ahdlc_rx_crc :: u16
  ahdlc_rx_count :: u16
  ahdlc_flags :: u8
  ahdlc_tx_offline :: u8
  ahdlc_crc_error :: u16
  ahdlc_rx_tobig_error :: u16
  ppp_rx_frame_count :: u32
  ppp_tx_frame_count :: u32
  has_connect_script :: bool
  has_disconnect_script :: bool
  chat_results :: "int list"
  ppp_out :: "ppp_event list"

text \<open>Access to the receive buffer.\<close>

definition rx_read :: "ppp_context \<Rightarrow> nat \<Rightarrow> u8 option" where
  "rx_read ctx i = (if i < length (ahdlc_rx_buffer ctx) then Some (ahdlc_rx_buffer ctx ! i) else None)"

definition rx_write :: "nat \<Rightarrow> u8 \<Rightarrow> ppp_context \<Rightarrow> ppp_context option" where
  "rx_write i c ctx =
     (if i < length (ahdlc_rx_buffer ctx)
      then Some (ctx\<lparr>ahdlc_rx_buffer := (ahdlc_rx_buffer ctx)[i := c]\<rparr>) else None)"

definition rx_slice :: "ppp_context \<Rightarrow> nat \<Rightarrow> nat \<Rightarrow> bytes option" where
  "rx_slice ctx off n =
     (if off + n \<le> length (ahdlc_rx_buffer ctx) then Some (take n (drop off (ahdlc_rx_buffer ctx))) else None)"

definition emit :: "ppp_event list \<Rightarrow> ppp_context \<Rightarrow> ppp_context" where
  "emit es ctx = ctx\<lparr>ppp_out := ppp_out ctx @ es\<rparr>"

text \<open>The characters the daemon has put on the line.\<close>

fun line_chars :: "ppp_event list \<Rightarrow> bytes" where
  "line_chars [] = []"
| "line_chars (LinePut c # es) = c # line_chars es"
| "line_chars (e # es) = line_chars es"

lemma line_chars_append [simp]: "line_chars (a @ b) = line_chars a @ line_chars b"
  by (induction a rule: line_chars.induct) auto

end
