(* ===== verification/Ahdlc.thy ===== *)
theory Ahdlc
  imports ProtocolHandler PppContext
begin

unbundle bit_operations_syntax

section \<open>PPP framing (netutils/pppd/ahdlc.c)\<close>

text \<open>
  The framing layer: byte stuffing and the frame check sequence on transmission, and the receiver, which
  takes one character at a time.  What the framing layer calls above itself (\<open>ppp_upcall\<close>,
  \<open>ppp_reconnect\<close>) is an argument here and is given in \<open>Ppp\<close>.
\<close>

subsection \<open>Frame check sequence\<close>

definition crcadd :: "u16 \<Rightarrow> u8 \<Rightarrow> u16" where
  "crcadd crcvalue c =
     (let b = (crcvalue XOR ucast c) AND 0xff;
          b = (b XOR push_bit 4 b) AND 0xff;
          b = push_bit 8 b XOR push_bit 3 b XOR drop_bit 4 b
      in drop_bit 8 crcvalue XOR b)"

subsection \<open>Receiver\<close>

definition ahdlc_init :: "ppp_context \<Rightarrow> ppp_context" where
  "ahdlc_init ctx = ctx\<lparr>ahdlc_flags := PPP_RX_ASYNC_MAP, ahdlc_rx_count := 0, ahdlc_tx_offline := 0,
     ahdlc_crc_error := 0, ahdlc_rx_tobig_error := 0\<rparr>"

definition ahdlc_rx_ready :: "ppp_context \<Rightarrow> ppp_context" where
  "ahdlc_rx_ready ctx = ctx\<lparr>ahdlc_rx_count := 0, ahdlc_rx_crc := 0xffff,
     ahdlc_flags := ahdlc_flags ctx OR PPP_RX_READY\<rparr>"

text \<open>The layer above: protocol, index of the data in the receive buffer, length.\<close>

type_synonym upcall = "ppp_context \<Rightarrow> u16 \<Rightarrow> nat \<Rightarrow> u16 \<Rightarrow> ppp_context option"

text \<open>The end of a frame.\<close>

definition ahdlc_rx_end :: "upcall \<Rightarrow> ppp_context \<Rightarrow> ppp_context option" where
  "ahdlc_rx_end upcall ctx =
     (if ahdlc_rx_crc ctx = CRC_GOOD_VALUE then
        do {
          let ctx = ctx\<lparr>ppp_rx_frame_count := ppp_rx_frame_count ctx + 1,
            ahdlc_rx_count := ahdlc_rx_count ctx - 2, ahdlc_flags := ahdlc_flags ctx AND NOT PPP_RX_READY\<rparr>;
          b0 \<leftarrow> rx_read ctx 0;
          ctx \<leftarrow> (if b0 AND 1 \<noteq> 0 \<and> ahdlc_flags ctx AND PPP_PFC \<noteq> 0
                 then upcall ctx (ucast b0) 1 (ahdlc_rx_count ctx - 1)
                 else do {
                   b1 \<leftarrow> rx_read ctx 1;
                   upcall ctx (push_bit 8 (ucast b0) OR ucast b1) 2 (ahdlc_rx_count ctx - 2)
                 });
          Some (ahdlc_rx_ready (ctx\<lparr>ahdlc_tx_offline := 0\<rparr>))
        }
      else
        Some (ahdlc_rx_ready
          (if ahdlc_rx_count ctx > 3 then ctx\<lparr>ahdlc_crc_error := ahdlc_crc_error ctx + 1\<rparr> else ctx)))"

text \<open>A character of a frame, after unescaping.\<close>

definition ahdlc_rx_store :: "ppp_context \<Rightarrow> u8 \<Rightarrow> ppp_context option" where
  "ahdlc_rx_store ctx c =
     (if unat (ahdlc_rx_count ctx) \<ge> PPP_RX_BUFFER_SIZE
      then Some (ahdlc_rx_ready (ctx\<lparr>ahdlc_rx_tobig_error := ahdlc_rx_tobig_error ctx + 1\<rparr>))
      else
        let ctx = ctx\<lparr>ahdlc_rx_crc := crcadd (ahdlc_rx_crc ctx) c\<rparr>
        in if ahdlc_rx_count ctx = 0 \<and> (c = 0xff \<or> c = 0x03) then Some ctx
           else map_option (\<lambda>ctx. ctx\<lparr>ahdlc_rx_count := ahdlc_rx_count ctx + 1\<rparr>)
                  (rx_write (unat (ahdlc_rx_count ctx)) c ctx))"

text \<open>One character; the first component is the return value, 1 when the character is not taken.\<close>

definition ahdlc_rx :: "upcall \<Rightarrow> ppp_context \<Rightarrow> u8 \<Rightarrow> (u8 \<times> ppp_context) option" where
  "ahdlc_rx upcall ctx c =
     (if ahdlc_flags ctx AND PPP_RX_READY = 0 then Some (1, ctx)
      else map_option (\<lambda>ctx. (0, ctx))
       (if c < 0x20 \<and> ahdlc_flags ctx AND PPP_RX_ASYNC_MAP = 0 then Some ctx
        else if ahdlc_flags ctx AND PPP_ESCAPED \<noteq> 0 then
          (let ctx = ctx\<lparr>ahdlc_flags := ahdlc_flags ctx AND NOT PPP_ESCAPED\<rparr>
           in if c = 0x7e then Some (ahdlc_rx_ready ctx) else ahdlc_rx_store ctx (c XOR 0x20))
        else if c = 0x7e then ahdlc_rx_end upcall ctx
        else if c = 0x7d then Some (ctx\<lparr>ahdlc_flags := ahdlc_flags ctx OR PPP_ESCAPED\<rparr>)
        else ahdlc_rx_store ctx c))"

subsection \<open>Transmitter\<close>

definition ahdlc_tx_char :: "u16 \<Rightarrow> u8 \<Rightarrow> ppp_context \<Rightarrow> ppp_context" where
  "ahdlc_tx_char protocol c ctx =
     (let ctx = ctx\<lparr>ahdlc_tx_crc := crcadd (ahdlc_tx_crc ctx) c\<rparr>
      in if c = 0x7d \<or> c = 0x7e \<or> c < 0x20 \<and> (protocol = LCP \<or> ahdlc_flags ctx AND PPP_TX_ASYNC_MAP = 0)
         then emit [LinePut 0x7d, LinePut (c XOR 0x20)] ctx
         else emit [LinePut c] ctx)"

text \<open>\<open>ahdlc_tx\<close> after the check for a silent peer.\<close>

definition ahdlc_tx_frame :: "ppp_context \<Rightarrow> u16 \<Rightarrow> bytes \<Rightarrow> bytes \<Rightarrow> ppp_context" where
  "ahdlc_tx_frame ctx protocol hdr buffer =
     (let ctx = (emit [LinePut 0x7e] ctx)\<lparr>ahdlc_tx_crc := 0xffff\<rparr>;
          ctx = (if ahdlc_flags ctx AND PPP_ACFC = 0 \<or> protocol = LCP
                 then ahdlc_tx_char protocol 0x03 (ahdlc_tx_char protocol 0xff ctx) else ctx);
          ctx = ahdlc_tx_char protocol (ucast (drop_bit 8 protocol)) ctx;
          ctx = ahdlc_tx_char protocol (ucast (protocol AND 0xff)) ctx;
          ctx = fold (ahdlc_tx_char protocol) hdr ctx;
          ctx = fold (ahdlc_tx_char protocol) buffer ctx;
          i = ahdlc_tx_crc ctx XOR 0xffff;
          ctx = ahdlc_tx_char protocol (ucast (i AND 0xff)) ctx;
          ctx = ahdlc_tx_char protocol (ucast (drop_bit 8 i AND 0xff)) ctx;
          ctx = emit [LinePut 0x7e] ctx
      in ctx\<lparr>ppp_tx_frame_count := ppp_tx_frame_count ctx + 1\<rparr>)"

definition ahdlc_tx ::
  "(ppp_context \<Rightarrow> ppp_context option) \<Rightarrow> ppp_context \<Rightarrow> u16 \<Rightarrow> bytes \<Rightarrow> bytes \<Rightarrow> ppp_context option" where
  "ahdlc_tx reconnect ctx protocol hdr buffer =
     (let offline = ahdlc_tx_offline ctx;
          ctx = ctx\<lparr>ahdlc_tx_offline := offline + 1\<rparr>
      in if offline > AHDLC_TX_OFFLINE then reconnect (ctx\<lparr>ahdlc_tx_offline := 0\<rparr>)
         else Some (ahdlc_tx_frame ctx protocol hdr buffer))"

text \<open>The loop of \<open>ppp_poll\<close> that takes characters from the line until there is a packet; the characters
  left over stay in the line.\<close>

fun receive_loop :: "upcall \<Rightarrow> bytes \<Rightarrow> ppp_context \<Rightarrow> (bytes \<times> ppp_context) option" where
  "receive_loop upcall [] ctx = Some ([], ctx)"
| "receive_loop upcall (c # cs) ctx =
     (if ip_len ctx = 0 then
        do {
          (taken, ctx) \<leftarrow> ahdlc_rx upcall ctx c;
          receive_loop upcall cs ctx
        }
      else Some (c # cs, ctx))"

section \<open>The frame check sequence\<close>

lemma mask_16: "(0xffff :: u16) = mask 16" "(0xff :: u16) = mask 8" "(0xf :: u16) = mask 4"
  by (simp_all add: mask_eq_exp_minus_1)

text \<open>The formula without shift loop is eight steps of the shift register of the H.264 packet protocol.\<close>

lemma bit_sdlc_bit:
  "bit (sdlc_bit x) n \<longleftrightarrow> (bit x (n + 1) \<noteq> (bit x 0 \<and> (n = 3 \<or> n = 10 \<or> n = 15)))"
proof -
  have "\<forall>n \<in> set [0..<16]. bit (0x8408 :: u16) n \<longleftrightarrow> n = 3 \<or> n = 10 \<or> n = 15"
    by code_simp
  then have poly: "bit (0x8408 :: u16) n \<longleftrightarrow> n = 3 \<or> n = 10 \<or> n = 15"
    using bit_imp_le_length [of "0x8408 :: u16" n] by (cases "n < 16") auto
  have "x AND 1 \<noteq> 0 \<longleftrightarrow> bit x 0"
    by (simp add: and_one_eq bit_0 odd_iff_mod_2_eq_one)
  then show ?thesis
    unfolding sdlc_bit_def by (cases "bit x 0") (simp_all only: bit_xor_iff bit_drop_bit_eq poly comp_apply add.commute if_True if_False, simp_all)
qed

lemma sdlc_bit_xor: "sdlc_bit (a XOR b) = sdlc_bit a XOR sdlc_bit b"
  by (rule bit_word_eqI) (auto simp: bit_sdlc_bit bit_xor_iff)

lemma sdlc_pow_xor: "(sdlc_bit ^^ k) (a XOR b) = (sdlc_bit ^^ k) a XOR (sdlc_bit ^^ k) b"
  by (induction k) (simp_all add: sdlc_bit_xor)

lemma sdlc_pow_zeros:
  assumes "\<forall>i < k. \<not> bit x i"
  shows "(sdlc_bit ^^ k) x = drop_bit k x"
  using assms
proof (induction k)
  case (Suc k)
  then have "\<not> bit (drop_bit k x) 0"
    by (simp add: bit_drop_bit_eq)
  then have "sdlc_bit (drop_bit k x) = drop_bit 1 (drop_bit k x)"
    by (intro bit_word_eqI) (simp only: bit_sdlc_bit bit_drop_bit_eq comp_apply, simp add: ac_simps)
  with Suc show ?case
    by simp
qed simp

text \<open>Four steps at a time: 0x1081 is what they add for the bits they shift out.\<close>

definition sdlc_nibble :: "u16 \<Rightarrow> u16" where
  "sdlc_nibble n = push_bit 12 n XOR push_bit 7 n XOR n"

lemma sdlc_nibble_table: "\<forall>v \<in> set [0..<16]. (sdlc_bit ^^ 4) (of_nat v) = sdlc_nibble (of_nat v)"
  by code_simp

lemma word16_eqI:
  assumes "\<And>n. n \<in> {0, 1, 2, 3, 4, 5, 6, 7, 8, 9, 10, 11, 12, 13, 14, 15} \<Longrightarrow> bit a n = bit b n"
  shows "a = (b :: u16)"
  using assms by (intro bit_word_eqI) (simp add: numeral_eq_Suc less_Suc_eq)

lemma sdlc_four: "(sdlc_bit ^^ 4) x = drop_bit 4 x XOR sdlc_nibble (x AND 0xf)"
proof -
  have low: "x AND 0xf = of_nat (unat (x AND 0xf))" "unat (x AND 0xf) < 16"
  proof -
    have "x AND 0xf = take_bit 4 x"
      by (simp add: take_bit_eq_mask mask_eq_exp_minus_1)
    then show "unat (x AND 0xf) < 16"
      by (simp only: unsigned_take_bit_eq) (use take_bit_nat_less_exp [of 4 "unat x"] in simp)
  qed simp
  then have table: "(sdlc_bit ^^ 4) (x AND 0xf) = sdlc_nibble (x AND 0xf)"
    using bspec [OF sdlc_nibble_table, of "unat (x AND 0xf)"] by simp
  have x: "x = (x AND NOT (mask 4)) XOR (x AND 0xf)"
    by (rule bit_word_eqI) (auto simp: bit_simps mask_16)
  have "(sdlc_bit ^^ 4) (x AND NOT (mask 4)) = drop_bit 4 (x AND NOT (mask 4))"
    by (rule sdlc_pow_zeros) (auto simp: bit_simps)
  also have "\<dots> = drop_bit 4 x"
    by (rule bit_word_eqI) (auto simp: bit_simps dest: bit_imp_le_length)
  finally show ?thesis
    by (subst x, subst sdlc_pow_xor, subst table) (simp only:)
qed

lemma crcadd_serial: "crcadd crc c = sdlc_byte crc c"
proof -
  let ?x = "crc XOR ucast c"
  have "(sdlc_bit ^^ 8) ?x = (sdlc_bit ^^ 4) ((sdlc_bit ^^ 4) ?x)"
    by (simp flip: funpow_add [THEN fun_cong, unfolded comp_apply])
  then have eight: "sdlc_byte crc c =
      (let y = drop_bit 4 ?x XOR sdlc_nibble (?x AND mask 4) in drop_bit 4 y XOR sdlc_nibble (y AND mask 4))"
    by (simp only: sdlc_byte_def sdlc_four mask_16 Let_def)
  have high: "8 \<le> n \<Longrightarrow> \<not> bit c n" "16 \<le> n \<Longrightarrow> \<not> bit crc n" for n
    by (auto dest: bit_imp_le_length)
  show ?thesis
    unfolding eight Let_def sdlc_nibble_def crcadd_def mask_16
  proof (rule word16_eqI, elim insertE emptyE)
  qed (simp_all only: bit_simps comp_apply, simp_all add: high, argo+)
qed

text \<open>A frame followed by the complement of its checksum has the good value.\<close>

definition fcs_bytes :: "u16 \<Rightarrow> bytes" where
  "fcs_bytes crc = [ucast ((crc XOR 0xffff) AND 0xff), ucast (drop_bit 8 (crc XOR 0xffff) AND 0xff)]"

lemma crcadd_low: "crcadd crc (ucast ((crc XOR 0xffff) AND 0xff)) = drop_bit 8 crc XOR 0x0f78"
proof -
  have "(crc XOR ucast (ucast ((crc XOR 0xffff) AND 0xff) :: u8)) AND 0xff = 0xff"
    unfolding mask_16 by (rule bit_word_eqI) (auto simp: bit_simps)
  then show ?thesis
    by (simp add: crcadd_def)
qed

lemma crcadd_high: "crcadd (drop_bit 8 crc XOR 0x0f78) (ucast (drop_bit 8 (crc XOR 0xffff) AND 0xff)) = CRC_GOOD_VALUE"
proof -
  have "((drop_bit 8 crc XOR 0x0f78) XOR ucast (ucast (drop_bit 8 (crc XOR 0xffff) AND 0xff) :: u8)) AND 0xff
      = (0x0f78 XOR 0xff) AND 0xff"
    unfolding mask_16 by (rule bit_word_eqI) (auto simp: bit_simps)
  moreover have "drop_bit 8 (drop_bit 8 crc) = 0"
    by (rule bit_word_eqI) (simp only: bit_drop_bit_eq comp_apply, auto dest: bit_imp_le_length)
  then have "drop_bit 8 (drop_bit 8 crc XOR 0x0f78) = 0x0f"
    unfolding drop_bit_xor by simp
  ultimately show ?thesis
    unfolding crcadd_def Let_def CRC_GOOD_VALUE_def by (simp only:) simp
qed

lemma fcs_good: "foldl crcadd crc (fcs_bytes crc) = CRC_GOOD_VALUE"
  by (simp only: fcs_bytes_def foldl.simps crcadd_low crcadd_high)

section \<open>What is put on the line\<close>

definition stuffed :: "u16 \<Rightarrow> u8 \<Rightarrow> u8 \<Rightarrow> bytes" where
  "stuffed protocol flags c =
     (if c = 0x7d \<or> c = 0x7e \<or> c < 0x20 \<and> (protocol = LCP \<or> flags AND PPP_TX_ASYNC_MAP = 0)
      then [0x7d, c XOR 0x20] else [c])"

definition frame_start :: "u16 \<Rightarrow> u8 \<Rightarrow> bytes" where
  "frame_start protocol flags = (if flags AND PPP_ACFC = 0 \<or> protocol = LCP then [0xff, 0x03] else [])"

definition protocol_bytes :: "u16 \<Rightarrow> bytes" where
  "protocol_bytes protocol = [ucast (drop_bit 8 protocol), ucast (protocol AND 0xff)]"

lemma length_frame_parts [simp]: "length (protocol_bytes p) = 2" "length (fcs_bytes c) = 2"
  by (simp_all add: protocol_bytes_def fcs_bytes_def)

definition hdlc_body :: "u16 \<Rightarrow> u8 \<Rightarrow> bytes \<Rightarrow> bytes" where
  "hdlc_body protocol flags data =
     (let body = frame_start protocol flags @ protocol_bytes protocol @ data
      in body @ fcs_bytes (foldl crcadd 0xffff body))"

definition hdlc_frame :: "u16 \<Rightarrow> u8 \<Rightarrow> bytes \<Rightarrow> bytes" where
  "hdlc_frame protocol flags data = [0x7e] @ concat (map (stuffed protocol flags) (hdlc_body protocol flags data)) @ [0x7e]"

lemma emit_emit [simp]: "emit b (emit a ctx) = emit (a @ b) ctx"
  by (simp add: emit_def)

lemma emit_fields [simp]:
  "ahdlc_flags (emit es ctx) = ahdlc_flags ctx" "ahdlc_tx_crc (emit es ctx) = ahdlc_tx_crc ctx"
  "(emit es ctx)\<lparr>ahdlc_tx_crc := c\<rparr> = emit es (ctx\<lparr>ahdlc_tx_crc := c\<rparr>)"
  "ppp_tx_frame_count (emit es ctx) = ppp_tx_frame_count ctx"
  "(emit es ctx)\<lparr>ppp_tx_frame_count := n\<rparr> = emit es (ctx\<lparr>ppp_tx_frame_count := n\<rparr>)"
  by (simp_all add: emit_def)

lemma tx_char_stuffed:
  "ahdlc_tx_char protocol c ctx = emit (map LinePut (stuffed protocol (ahdlc_flags ctx) c))
     (ctx\<lparr>ahdlc_tx_crc := crcadd (ahdlc_tx_crc ctx) c\<rparr>)"
  by (auto simp: ahdlc_tx_char_def stuffed_def Let_def)

lemma tx_chars_stuffed:
  "fold (ahdlc_tx_char protocol) cs ctx = emit (map LinePut (concat (map (stuffed protocol (ahdlc_flags ctx)) cs)))
     (ctx\<lparr>ahdlc_tx_crc := foldl crcadd (ahdlc_tx_crc ctx) cs\<rparr>)"
  by (induction cs arbitrary: ctx) (simp_all add: tx_char_stuffed emit_def)

lemma ahdlc_tx_frame_bytes:
  "ahdlc_tx_frame ctx protocol hdr buffer =
     emit (map LinePut (hdlc_frame protocol (ahdlc_flags ctx) (hdr @ buffer)))
       (ctx\<lparr>ahdlc_tx_crc := CRC_GOOD_VALUE, ppp_tx_frame_count := ppp_tx_frame_count ctx + 1\<rparr>)"
proof -
  have start: "(if ahdlc_flags c AND PPP_ACFC = 0 \<or> protocol = LCP
      then ahdlc_tx_char protocol 0x03 (ahdlc_tx_char protocol 0xff c) else c) =
    fold (ahdlc_tx_char protocol) (frame_start protocol (ahdlc_flags c)) c" for c
    by (simp add: frame_start_def)
  let ?f = "fold (ahdlc_tx_char protocol)"
  let ?body = "frame_start protocol (ahdlc_flags ctx) @ protocol_bytes protocol @ hdr @ buffer"
  let ?crc = "foldl crcadd 0xffff ?body"
  let ?ctx = "(emit [LinePut 0x7e] ctx)\<lparr>ahdlc_tx_crc := 0xffff\<rparr>"
  have pair: "ahdlc_tx_char protocol b (ahdlc_tx_char protocol a c) = ?f [a, b] c" for a b c
    by simp
  have body: "?f buffer (?f hdr (?f (protocol_bytes protocol) (?f (frame_start protocol (ahdlc_flags ?ctx)) ?ctx))) = ?f ?body ?ctx"
    by simp
  have crc: "ahdlc_tx_crc (?f ?body ?ctx) = ?crc"
    by (simp add: tx_chars_stuffed)
  have "ahdlc_tx_frame ctx protocol hdr buffer = (let c = emit [LinePut 0x7e] (?f (fcs_bytes ?crc) (?f ?body ?ctx))
      in c\<lparr>ppp_tx_frame_count := ppp_tx_frame_count c + 1\<rparr>)"
    unfolding ahdlc_tx_frame_def Let_def start unfolding pair protocol_bytes_def [symmetric] fcs_bytes_def [symmetric] body
    unfolding crc ..
  also have "?f (fcs_bytes ?crc) (?f ?body ?ctx) = ?f (hdlc_body protocol (ahdlc_flags ctx) (hdr @ buffer)) ?ctx"
    by (simp add: hdlc_body_def Let_def)
  also have "\<dots> = emit (map LinePut (concat (map (stuffed protocol (ahdlc_flags ctx)) (hdlc_body protocol (ahdlc_flags ctx) (hdr @ buffer)))))
      (emit [LinePut 0x7e] (ctx\<lparr>ahdlc_tx_crc := CRC_GOOD_VALUE\<rparr>))"
  proof -
    have "foldl crcadd 0xffff (hdlc_body protocol (ahdlc_flags ctx) (hdr @ buffer)) = CRC_GOOD_VALUE"
      unfolding hdlc_body_def Let_def foldl_append by (rule fcs_good)
    then show ?thesis
      by (simp add: tx_chars_stuffed)
  qed
  finally show ?thesis
    by (simp add: Let_def hdlc_frame_def)
qed

section \<open>What is received\<close>

text \<open>A flag word as the set of its bits.\<close>

lemma and_exp_bit: "(w :: u8) AND (2 ^ n) = 0 \<longleftrightarrow> \<not> bit w n"
  by (rule and_exp_eq_0_iff_not_bit)

lemma ahdlc_flag_bits:
  "w AND PPP_ESCAPED = 0 \<longleftrightarrow> \<not> bit w 0" "w AND PPP_RX_READY = 0 \<longleftrightarrow> \<not> bit w 1"
  "w AND PPP_RX_ASYNC_MAP = 0 \<longleftrightarrow> \<not> bit w 2" "w AND PPP_TX_ASYNC_MAP = 0 \<longleftrightarrow> \<not> bit w 3"
  "w AND PPP_PFC = 0 \<longleftrightarrow> \<not> bit w 4" "w AND PPP_ACFC = 0 \<longleftrightarrow> \<not> bit w 5"
  using and_exp_bit [of w 0] and_exp_bit [of w 1] and_exp_bit [of w 2] and_exp_bit [of w 3] and_exp_bit [of w 4] and_exp_bit [of w 5]
  by (simp_all add: PPP_ESCAPED_def PPP_RX_READY_def PPP_RX_ASYNC_MAP_def PPP_TX_ASYNC_MAP_def PPP_PFC_def PPP_ACFC_def)

lemma ahdlc_flag_masks:
  "PPP_ESCAPED = 2 ^ 0" "PPP_RX_READY = 2 ^ 1" "PPP_RX_ASYNC_MAP = 2 ^ 2" "PPP_TX_ASYNC_MAP = 2 ^ 3"
  "PPP_PFC = 2 ^ 4" "PPP_ACFC = 2 ^ 5"
  by (simp_all add: PPP_ESCAPED_def PPP_RX_READY_def PPP_RX_ASYNC_MAP_def PPP_TX_ASYNC_MAP_def PPP_PFC_def PPP_ACFC_def)

lemma bit_set_flag: "bit (w OR 2 ^ k :: u8) n \<longleftrightarrow> bit w n \<or> n = k \<and> k < 8"
  by (auto simp: bit_or_iff bit_exp_iff)

lemma bit_clear_flag: "bit (w AND NOT (2 ^ k) :: u8) n \<longleftrightarrow> bit w n \<and> n \<noteq> k"
  by (auto simp: bit_and_iff bit_not_iff bit_exp_iff dest: bit_imp_le_length)

lemma bit_flag_updates:
  "bit (w OR PPP_ESCAPED) n \<longleftrightarrow> bit w n \<or> n = 0" "bit (w AND NOT PPP_ESCAPED) n \<longleftrightarrow> bit w n \<and> n \<noteq> 0"
  "bit (w OR PPP_RX_READY) n \<longleftrightarrow> bit w n \<or> n = 1" "bit (w AND NOT PPP_RX_READY) n \<longleftrightarrow> bit w n \<and> n \<noteq> 1"
  "bit (w OR PPP_TX_ASYNC_MAP) n \<longleftrightarrow> bit w n \<or> n = 3" "bit (w AND NOT PPP_TX_ASYNC_MAP) n \<longleftrightarrow> bit w n \<and> n \<noteq> 3"
  "bit (w OR PPP_PFC) n \<longleftrightarrow> bit w n \<or> n = 4" "bit (w OR PPP_ACFC) n \<longleftrightarrow> bit w n \<or> n = 5"
  by (simp_all only: ahdlc_flag_masks bit_set_flag bit_clear_flag) simp_all

lemma flags_nonzero [simp]: "PPP_ESCAPED \<noteq> 0" "PPP_RX_READY \<noteq> 0"
  by (simp_all add: PPP_ESCAPED_def PPP_RX_READY_def)

lemmas flag_simps = ahdlc_flag_bits bit_flag_updates

text \<open>The receiver takes characters as they come, and is between two frames.\<close>

definition rx_open :: "ppp_context \<Rightarrow> bool" where
  "rx_open r \<longleftrightarrow> bit (ahdlc_flags r) 1 \<and> bit (ahdlc_flags r) 2 \<and> \<not> bit (ahdlc_flags r) 0"

definition rx_idle :: "ppp_context \<Rightarrow> bool" where
  "rx_idle r \<longleftrightarrow> rx_open r \<and> ahdlc_rx_count r = 0 \<and> ahdlc_rx_crc r = 0xffff \<and>
     length (ahdlc_rx_buffer r) = PPP_RX_BUFFER_SIZE"

lemma rx_plain:
  assumes "rx_open r" "c \<noteq> 0x7d" "c \<noteq> 0x7e"
  shows "ahdlc_rx upcall r c = map_option (Pair 0) (ahdlc_rx_store r c)"
  using assms by (simp add: ahdlc_rx_def rx_open_def ahdlc_flag_bits)

lemma rx_escape:
  assumes "rx_open r"
  shows "ahdlc_rx upcall r 0x7d = Some (0, r\<lparr>ahdlc_flags := ahdlc_flags r OR PPP_ESCAPED\<rparr>)"
  using assms by (simp add: ahdlc_rx_def rx_open_def ahdlc_flag_bits)

lemma rx_escaped:
  assumes "rx_open r" "c \<noteq> 0x7e"
  shows "ahdlc_rx upcall (r\<lparr>ahdlc_flags := ahdlc_flags r OR PPP_ESCAPED\<rparr>) c = map_option (Pair 0) (ahdlc_rx_store r (c XOR 0x20))"
proof -
  have "(ahdlc_flags r OR PPP_ESCAPED) AND NOT PPP_ESCAPED = ahdlc_flags r"
    using assms(1) by (intro bit_word_eqI) (auto simp: flag_simps rx_open_def intro: gr0I)
  then show ?thesis
    using assms by (simp add: ahdlc_rx_def rx_open_def ahdlc_flag_bits) (simp add: flag_simps)
qed

lemma rx_stuffed:
  assumes "rx_open r" "ip_len r = 0"
  shows "receive_loop upcall (stuffed protocol flags c @ rest) r =
    do { r \<leftarrow> ahdlc_rx_store r c; receive_loop upcall rest r }"
proof -
  have twice: "(c XOR 0x20) XOR 0x20 = c"
    by (simp only: xor.assoc) simp
  moreover have "c XOR 0x20 \<noteq> 0x7e" if "c = 0x7d \<or> c = 0x7e \<or> c < 0x20"
  proof
    assume "c XOR 0x20 = 0x7e"
    with twice have "c = 0x7e XOR 0x20"
      by (simp only:)
    with that show False
      by simp
  qed
  ultimately show ?thesis
    using assms by (auto simp: stuffed_def rx_plain rx_escape rx_escaped Option.bind_map_option comp_def)
qed

text \<open>A body is stored character by character.\<close>

definition rx_stored :: "bytes \<Rightarrow> ppp_context \<Rightarrow> ppp_context" where
  "rx_stored bs r = r\<lparr>ahdlc_rx_crc := foldl crcadd (ahdlc_rx_crc r) bs,
     ahdlc_rx_count := ahdlc_rx_count r + of_nat (length bs),
     ahdlc_rx_buffer := write_bytes (ahdlc_rx_buffer r) (unat (ahdlc_rx_count r)) bs\<rparr>"

lemma rx_store_char:
  assumes "length (ahdlc_rx_buffer r) = PPP_RX_BUFFER_SIZE" "unat (ahdlc_rx_count r) < PPP_RX_BUFFER_SIZE"
    and "ahdlc_rx_count r \<noteq> 0 \<or> c \<noteq> 0xff \<and> c \<noteq> 0x03"
  shows "ahdlc_rx_store r c = Some (rx_stored [c] r)"
  using assms by (auto simp: ahdlc_rx_store_def rx_write_def rx_stored_def write_bytes_def Let_def
      PPP_RX_BUFFER_SIZE_def upd_conv_take_nth_drop)

lemma rx_stored_fields [simp]:
  "ahdlc_flags (rx_stored bs r) = ahdlc_flags r" "ip_len (rx_stored bs r) = ip_len r"
  "ahdlc_rx_crc (rx_stored bs r) = foldl crcadd (ahdlc_rx_crc r) bs"
  "rx_open (rx_stored bs r) = rx_open r"
  by (simp_all add: rx_stored_def rx_open_def)

lemma rx_body:
  assumes "rx_open r" "ip_len r = 0" "length (ahdlc_rx_buffer r) = PPP_RX_BUFFER_SIZE"
    and "unat (ahdlc_rx_count r) + length bs \<le> PPP_RX_BUFFER_SIZE"
    and "bs \<noteq> [] \<and> ahdlc_rx_count r = 0 \<Longrightarrow> hd bs \<noteq> 0xff \<and> hd bs \<noteq> 0x03"
  shows "receive_loop upcall (concat (map (stuffed protocol flags) bs) @ rest) r = receive_loop upcall rest (rx_stored bs r)"
  using assms
proof (induction bs arbitrary: r)
  case Nil
  then show ?case
    by (simp add: rx_stored_def write_bytes_def)
next
  case (Cons c bs)
  have store: "ahdlc_rx_store r c = Some (rx_stored [c] r)"
    using Cons.prems by (intro rx_store_char) auto
  have count: "unat (ahdlc_rx_count (rx_stored [c] r)) = unat (ahdlc_rx_count r) + 1"
    using Cons.prems(4) by (simp add: rx_stored_def PPP_RX_BUFFER_SIZE_def unat_word_ariths)
  have "rx_stored bs (rx_stored [c] r) = rx_stored (c # bs) r"
    using count Cons.prems(3,4) by (simp add: rx_stored_def write_bytes_append [of _ "[c]", simplified])
  moreover have "receive_loop upcall (concat (map (stuffed protocol flags) bs) @ rest) (rx_stored [c] r) =
      receive_loop upcall rest (rx_stored bs (rx_stored [c] r))"
    using Cons.prems count by (intro Cons.IH) (auto simp: rx_stored_def rx_open_def)
  ultimately show ?case
    using Cons.prems(1,2) by (simp add: rx_stuffed store)
qed

text \<open>The context in which a good frame is handed to the layer above.\<close>

definition rx_frame :: "u16 \<Rightarrow> u8 \<Rightarrow> bytes \<Rightarrow> ppp_context \<Rightarrow> ppp_context" where
  "rx_frame protocol flags data r = r\<lparr>ppp_rx_frame_count := ppp_rx_frame_count r + 1,
     ahdlc_rx_count := of_nat (length data + 2), ahdlc_rx_crc := CRC_GOOD_VALUE,
     ahdlc_flags := ahdlc_flags r AND NOT PPP_RX_READY,
     ahdlc_rx_buffer := write_bytes (ahdlc_rx_buffer r) 0 (protocol_bytes protocol @ data @
       fcs_bytes (foldl crcadd 0xffff (frame_start protocol flags @ protocol_bytes protocol @ data)))\<rparr>"

lemma rx_ready_idle: "rx_idle r \<Longrightarrow> ahdlc_rx_ready r = r"
proof -
  assume idle: "rx_idle r"
  then have "ahdlc_flags r OR PPP_RX_READY = ahdlc_flags r"
    by (intro bit_word_eqI) (auto simp: flag_simps rx_idle_def rx_open_def)
  with idle show ?thesis
    by (intro ppp_context.equality) (simp_all add: rx_idle_def ahdlc_rx_ready_def)
qed

lemma rx_flag:
  assumes "rx_idle r" "ip_len r = 0"
  shows "receive_loop upcall (0x7e # rest) r = receive_loop upcall rest r"
  using assms rx_ready_idle [OF assms(1)]
  by (simp add: ahdlc_rx_def rx_idle_def rx_open_def ahdlc_flag_bits ahdlc_rx_end_def CRC_GOOD_VALUE_def)

lemma rx_start:
  assumes "rx_open r" "ip_len r = 0" "ahdlc_rx_count r = 0"
  shows "receive_loop upcall (concat (map (stuffed protocol flags) (frame_start protocol flags)) @ rest) r =
    receive_loop upcall rest (r\<lparr>ahdlc_rx_crc := foldl crcadd (ahdlc_rx_crc r) (frame_start protocol flags)\<rparr>)"
proof -
  have "ahdlc_rx_store r c = Some (r\<lparr>ahdlc_rx_crc := crcadd (ahdlc_rx_crc r) c\<rparr>)"
    if "c = 0xff \<or> c = 0x03" "ahdlc_rx_count r = 0" for c r
    using that by (auto simp: ahdlc_rx_store_def PPP_RX_BUFFER_SIZE_def Let_def)
  with assms show ?thesis
    by (simp add: frame_start_def rx_stuffed rx_open_def)
qed

lemma protocol_word: "push_bit 8 (ucast (ucast (drop_bit 8 p) :: u8)) OR ucast (ucast (p AND 0xff) :: u8) = (p :: u16)"
  unfolding mask_16 by (rule bit_word_eqI) (auto simp: bit_simps dest: bit_imp_le_length)

lemma rx_good_end:
  assumes "ahdlc_rx_crc r = CRC_GOOD_VALUE" "rx_open r" "ip_len r = 0"
    and "length (ahdlc_rx_buffer r) = PPP_RX_BUFFER_SIZE"
    and "ahdlc_rx_buffer r ! 0 = ucast (drop_bit 8 protocol)" "ahdlc_rx_buffer r ! 1 = ucast (protocol AND 0xff)"
    and "\<not> bit protocol 8"
  shows "receive_loop upcall (0x7e # rest) r =
    do {
      r \<leftarrow> upcall (r\<lparr>ppp_rx_frame_count := ppp_rx_frame_count r + 1, ahdlc_rx_count := ahdlc_rx_count r - 2,
        ahdlc_flags := ahdlc_flags r AND NOT PPP_RX_READY\<rparr>) protocol 2 (ahdlc_rx_count r - 4);
      receive_loop upcall rest (ahdlc_rx_ready (r\<lparr>ahdlc_tx_offline := 0\<rparr>))
    }"
proof -
  have "(ucast (drop_bit 8 protocol) :: u8) AND 1 = 0"
    using assms(7) by (intro bit_word_eqI) (auto simp: bit_simps intro: gr0I)
  moreover have "ahdlc_rx_buffer r \<noteq> []"
    using assms(4) by (auto simp: PPP_RX_BUFFER_SIZE_def)
  ultimately show ?thesis
    using assms by (simp add: ahdlc_rx_def rx_open_def ahdlc_flag_bits ahdlc_rx_end_def rx_read_def PPP_RX_BUFFER_SIZE_def
        protocol_word Let_def split: Option.bind_split)
qed

text \<open>
  A frame of the transmitter is handed up exactly once, with its protocol and data, and the receiver is
  idle again.  The high byte of the protocol must not look like the address and control bytes, and not
  like a compressed protocol; that of every protocol number of the daemon is even and none of the two.
\<close>

definition framed_protocol :: "u16 \<Rightarrow> bool" where
  "framed_protocol p \<longleftrightarrow> \<not> bit p 8"

lemma frame_received:
  assumes "rx_idle r" "ip_len r = 0" "framed_protocol protocol" "length data + 4 \<le> PPP_RX_BUFFER_SIZE"
  shows "receive_loop upcall (hdlc_frame protocol flags data @ rest) r =
    do {
      r \<leftarrow> upcall (rx_frame protocol flags data r) protocol 2 (of_nat (length data));
      receive_loop upcall rest (ahdlc_rx_ready (r\<lparr>ahdlc_tx_offline := 0\<rparr>))
    }"
proof -
  let ?start = "frame_start protocol flags" and ?head = "protocol_bytes protocol @ data"
  let ?bs = "?head @ fcs_bytes (foldl crcadd 0xffff (?start @ ?head))"
  let ?stuff = "\<lambda>bs. concat (map (stuffed protocol flags) bs)"
  let ?r1 = "r\<lparr>ahdlc_rx_crc := foldl crcadd 0xffff ?start\<rparr>"
  let ?r2 = "rx_stored ?bs ?r1"
  have idle: "rx_open r" "ahdlc_rx_count r = 0" "ahdlc_rx_crc r = 0xffff" "length (ahdlc_rx_buffer r) = PPP_RX_BUFFER_SIZE"
    using assms(1) by (simp_all add: rx_idle_def)
  have len: "length ?bs = length data + 4"
    by simp
  have odd: "bit (0xff :: u8) 0" "bit (0x03 :: u8) 0"
    by simp_all
  have hd: "hd ?bs \<noteq> 0xff \<and> hd ?bs \<noteq> 0x03"
    using assms(3) odd by (auto simp: protocol_bytes_def framed_protocol_def bit_simps dest!: arg_cong [of _ _ "\<lambda>w. bit w 0"] simp del: bit_0)
  have "hdlc_frame protocol flags data @ rest = 0x7e # ?stuff ?start @ ?stuff ?bs @ 0x7e # rest"
    by (simp add: hdlc_frame_def hdlc_body_def Let_def)
  then have "receive_loop upcall (hdlc_frame protocol flags data @ rest) r =
      receive_loop upcall (?stuff ?start @ ?stuff ?bs @ 0x7e # rest) r"
    by (simp only: rx_flag [OF assms(1,2)])
  also have "\<dots> = receive_loop upcall (?stuff ?bs @ 0x7e # rest) ?r1"
    using idle assms(2) by (simp add: rx_start)
  also have "\<dots> = receive_loop upcall (0x7e # rest) ?r2"
    using idle assms(2,4) hd len by (intro rx_body) (simp_all add: rx_open_def)
  also have "\<dots> = do {
      r \<leftarrow> upcall (?r2\<lparr>ppp_rx_frame_count := ppp_rx_frame_count ?r2 + 1, ahdlc_rx_count := ahdlc_rx_count ?r2 - 2,
        ahdlc_flags := ahdlc_flags ?r2 AND NOT PPP_RX_READY\<rparr>) protocol 2 (ahdlc_rx_count ?r2 - 4);
      receive_loop upcall rest (ahdlc_rx_ready (r\<lparr>ahdlc_tx_offline := 0\<rparr>))
    }"
  proof (rule rx_good_end)
    show "ahdlc_rx_crc ?r2 = CRC_GOOD_VALUE"
      using fcs_good [of "foldl crcadd 0xffff (?start @ ?head)"] by (simp del: foldl_Cons)
    show "length (ahdlc_rx_buffer ?r2) = PPP_RX_BUFFER_SIZE"
      using idle len assms(4) by (simp add: rx_stored_def)
    show "\<not> bit protocol 8"
      using assms(3) by (simp add: framed_protocol_def)
  qed (use idle assms(2) in \<open>simp_all add: rx_stored_def write_bytes_def protocol_bytes_def rx_open_def\<close>)
  also have "ahdlc_rx_count ?r2 - 4 = of_nat (length data)"
    using idle len by (simp add: rx_stored_def)
  also have "?r2\<lparr>ppp_rx_frame_count := ppp_rx_frame_count ?r2 + 1, ahdlc_rx_count := ahdlc_rx_count ?r2 - 2,
        ahdlc_flags := ahdlc_flags ?r2 AND NOT PPP_RX_READY\<rparr> = rx_frame protocol flags data r"
    using idle len fcs_good [of "foldl crcadd 0xffff (?start @ ?head)"] by (simp add: rx_stored_def rx_frame_def)
  finally show ?thesis .
qed

end
