(* ===== verification/Ppp.thy ===== *)
theory Ppp
  imports Ahdlc
begin

unbundle bit_operations_syntax

section \<open>The PPP daemon (netutils/pppd)\<close>

text \<open>
  \<open>lcp.c\<close>, \<open>ipcp.c\<close>, \<open>ppp.c\<close> and \<open>pppd.c\<close>, without PAP: the two negotiations, the option scan, the
  dispatch of frames, reconnecting, the poll function and the daemon's loop.  \<open>None\<close> is the result of a
  read or write outside the receive buffer and of a function that does not return (a chat script still
  running, an option list that is never done).  A buffer argument that points into the receive buffer is
  an index into it; a packet built in \<open>ip_buf\<close> is the bytes written to its start.  Readings of the clock
  and results of the system calls are arguments.
\<close>

subsection \<open>Constants\<close>

definition LCP_TX_UP :: u8 where "LCP_TX_UP = 0x1"
definition LCP_RX_UP :: u8 where "LCP_RX_UP = 0x2"
definition LCP_RX_AUTH :: u8 where "LCP_RX_AUTH = 0x10"
definition LCP_TERM_PEER :: u8 where "LCP_TERM_PEER = 0x20"
definition LCP_RX_TIMEOUT :: u8 where "LCP_RX_TIMEOUT = 0x40"
definition LCP_TX_TIMEOUT :: u8 where "LCP_TX_TIMEOUT = 0x80"

definition IPCP_TX_UP :: u8 where "IPCP_TX_UP = 0x1"
definition IPCP_RX_UP :: u8 where "IPCP_RX_UP = 0x2"
definition IPCP_IP_BIT :: u8 where "IPCP_IP_BIT = 0x4"
definition IPCP_TX_TIMEOUT :: u8 where "IPCP_TX_TIMEOUT = 0x8"

definition CONF_REQ :: u8 where "CONF_REQ = 0x1"
definition CONF_ACK :: u8 where "CONF_ACK = 0x2"
definition CONF_NAK :: u8 where "CONF_NAK = 0x3"
definition CONF_REJ :: u8 where "CONF_REJ = 0x4"
definition TERM_REQ :: u8 where "TERM_REQ = 0x5"
definition TERM_ACK :: u8 where "TERM_ACK = 0x6"
definition PROT_REJ :: u8 where "PROT_REJ = 0x8"
definition ECHO_REQ :: u8 where "ECHO_REQ = 0x9"
definition ECHO_REP :: u8 where "ECHO_REP = 0xa"

definition LPC_MRU :: u8 where "LPC_MRU = 0x1"
definition LPC_ACCM :: u8 where "LPC_ACCM = 0x2"
definition LPC_MAGICNUMBER :: u8 where "LPC_MAGICNUMBER = 0x5"
definition LPC_PFC :: u8 where "LPC_PFC = 0x7"
definition LPC_ACFC :: u8 where "LPC_ACFC = 0x8"

definition IPCP_IPADDRESS :: u8 where "IPCP_IPADDRESS = 0x03"

definition LCP_RETRY_COUNT :: u8 where "LCP_RETRY_COUNT = 5"
definition IPCP_RETRY_COUNT :: u8 where "IPCP_RETRY_COUNT = 5"
definition LCP_TIMEOUT :: int where "LCP_TIMEOUT = 5"
definition IPCP_TIMEOUT :: int where "IPCP_TIMEOUT = 5"
definition LCP_ECHO_INTERVAL :: int where "LCP_ECHO_INTERVAL = 20"
definition PPP_IP_TIMEOUT :: nat where "PPP_IP_TIMEOUT = 6 * 3600"
definition PPP_MAX_CONNECT :: int where "PPP_MAX_CONNECT = 15"

definition g_lcplist :: "u8 list" where "g_lcplist = [LPC_MAGICNUMBER, LPC_PFC, LPC_ACFC, LPC_ACCM, LPC_MRU]"
definition g_ipcplist :: "u8 list" where "g_ipcplist = [IPCP_IPADDRESS]"

subsection \<open>Starting and reconnecting\<close>

text \<open>The context \<open>pppd\<close> allocates and clears; the settings say which scripts there are.\<close>

definition zeroed_context :: "bool \<Rightarrow> bool \<Rightarrow> int list \<Rightarrow> ppp_context" where
  "zeroed_context connect_script disconnect_script results =
     \<lparr>ip_buf = replicate PPP_RX_BUFFER_SIZE 0, ip_len = 0, ppp_flags = 0, ppp_tx_mru = 0, ppp_id = 0, ip_no_data_time = 0,
      local_ip = [0, 0, 0, 0], peer_ip = [0, 0, 0, 0], lcp_state = 0, lcp_retry = 0, lcp_prev_seconds = 0,
      ipcp_state = 0, ipcp_retry = 0, ipcp_prev_seconds = 0, ahdlc_rx_buffer = replicate PPP_RX_BUFFER_SIZE 0,
      ahdlc_tx_crc = 0, ahdlc_rx_crc = 0, ahdlc_rx_count = 0, ahdlc_flags = 0, ahdlc_tx_offline = 0,
      ahdlc_crc_error = 0, ahdlc_rx_tobig_error = 0, ppp_rx_frame_count = 0, ppp_tx_frame_count = 0,
      has_connect_script = connect_script, has_disconnect_script = disconnect_script, chat_results = results, ppp_out = []\<rparr>"

definition lcp_init :: "ppp_context \<Rightarrow> ppp_context" where
  "lcp_init ctx = ctx\<lparr>lcp_state := 0, lcp_retry := 0\<rparr>"

definition ipcp_init :: "ppp_context \<Rightarrow> ppp_context" where
  "ipcp_init ctx = ctx\<lparr>ipcp_state := 0, ipcp_retry := 0, ipcp_prev_seconds := 0, local_ip := [0, 0, 0, 0],
     peer_ip := [0, 0, 0, 0]\<rparr>"

definition ppp_init :: "ppp_context \<Rightarrow> ppp_context" where
  "ppp_init ctx = ahdlc_rx_ready (ahdlc_init (lcp_init (ipcp_init
     (ctx\<lparr>ppp_rx_frame_count := 0, ppp_tx_frame_count := 0, ppp_flags := 0,
       ppp_tx_mru := of_nat PPP_RX_BUFFER_SIZE, ip_no_data_time := 0, ppp_id := 0\<rparr>))))"

definition ppp_connect :: "ppp_context \<Rightarrow> ppp_context" where
  "ppp_connect ctx = (lcp_init (ipcp_init ctx))\<lparr>ppp_flags := PPP_RX_READY\<rparr>"

type_synonym transmit = "ppp_context \<Rightarrow> u16 \<Rightarrow> bytes \<Rightarrow> bytes \<Rightarrow> ppp_context option"

definition lcp_disconnect_with :: "transmit \<Rightarrow> ppp_context \<Rightarrow> u8 \<Rightarrow> ppp_context option" where
  "lcp_disconnect_with tx ctx ident = tx ctx LCP [] [TERM_REQ, ident, 0, 4]"

text \<open>The connect script is run until it succeeds; the results left over are for later runs.\<close>

fun connect_loop :: "int \<Rightarrow> int list \<Rightarrow> (ppp_event list \<times> int list) option" where
  "connect_loop retry [] = None"
| "connect_loop retry (ret # rets) =
     (if ret = 0 then Some ([ConnectScript ret], rets)
      else
        let (pause, retry) =
          (if ret < 0
           then (if retry - 1 = 0 then ([Pause 45], PPP_MAX_CONNECT) else ([Pause 10], retry - 1))
           else ([], retry))
        in map_option (\<lambda>(es, rets). (ConnectScript ret # pause @ es, rets)) (connect_loop retry rets))"

definition ppp_reconnect_with :: "transmit \<Rightarrow> ppp_context \<Rightarrow> ppp_context option" where
  "ppp_reconnect_with tx ctx =
     do {
       let ctx = emit [NetIfdown] ctx;
       let ctx = ctx\<lparr>ppp_id := ppp_id ctx + 1\<rparr>;
       ctx \<leftarrow> lcp_disconnect_with tx ctx (ppp_id ctx);
       let ctx = emit [Pause 1] ctx;
       let ctx = ctx\<lparr>ppp_id := ppp_id ctx + 1\<rparr>;
       ctx \<leftarrow> lcp_disconnect_with tx ctx (ppp_id ctx);
       let ctx = emit [Pause 1, ModemWrite [0x2b, 0x2b, 0x2b], Pause 2, ModemWrite [0x41, 0x54, 0x45, 0x31, 0x0d, 0x0a]] ctx;
       ctx \<leftarrow> (if has_disconnect_script ctx then
           (case chat_results ctx of [] \<Rightarrow> None
            | ret # rets \<Rightarrow> Some (emit [DisconnectScript ret] (ctx\<lparr>chat_results := rets\<rparr>)))
         else Some ctx);
       ctx \<leftarrow> (if has_connect_script ctx then
           (case connect_loop PPP_MAX_CONNECT (chat_results ctx) of None \<Rightarrow> None
            | Some (es, rets) \<Rightarrow> Some (emit es (ctx\<lparr>chat_results := rets\<rparr>)))
         else Some ctx);
       Some ((ppp_connect (ppp_init ctx))\<lparr>ip_len := 0\<rparr>)
     }"

text \<open>
  \<open>ahdlc_tx\<close> and \<open>ppp_reconnect\<close> call each other: a transmission to a peer that has been silent for too
  long reconnects, and reconnecting transmits two requests.  \<open>ahdlc_tx\<close> clears the counter of silent
  transmissions before it reconnects, so that inner reconnection transmits without a further one; it is
  defined first, with a transmitter that never reconnects.  The equation of the code is the lemma
  \<open>ppp_tx_calls_reconnect\<close> below.
\<close>

definition reconnect_silent :: "ppp_context \<Rightarrow> ppp_context option" where
  "reconnect_silent ctx = ppp_reconnect_with (ahdlc_tx (\<lambda>_. None)) ctx"

definition ppp_tx :: transmit where
  "ppp_tx ctx protocol hdr buffer = ahdlc_tx reconnect_silent ctx protocol hdr buffer"

definition ppp_reconnect :: "ppp_context \<Rightarrow> ppp_context option" where
  "ppp_reconnect ctx = ppp_reconnect_with ppp_tx ctx"

definition lcp_disconnect :: "ppp_context \<Rightarrow> u8 \<Rightarrow> ppp_context option" where
  "lcp_disconnect ctx ident = lcp_disconnect_with ppp_tx ctx ident"

lemma reconnect_silent_offline:
  assumes "ahdlc_tx_offline ctx = 0"
  shows "ppp_reconnect_with (ahdlc_tx rc) ctx = ppp_reconnect_with (ahdlc_tx rc') ctx"
proof -
  have tx: "ahdlc_tx rc c p h b = Some ((ahdlc_tx_frame (c\<lparr>ahdlc_tx_offline := ahdlc_tx_offline c + 1\<rparr>) p h b))"
    if "ahdlc_tx_offline c = 0 \<or> ahdlc_tx_offline c = 1" for rc c p h b
    using that by (auto simp: ahdlc_tx_def Let_def AHDLC_TX_OFFLINE_def)
  have offline: "ahdlc_tx_offline (ahdlc_tx_frame c p h b) = ahdlc_tx_offline c" for c p h b
    by (simp add: ahdlc_tx_frame_bytes emit_def)
  show ?thesis
    using assms by (simp add: ppp_reconnect_with_def lcp_disconnect_with_def tx offline emit_def Let_def)
qed

lemma ppp_tx_calls_reconnect: "ppp_tx ctx protocol hdr buffer = ahdlc_tx ppp_reconnect ctx protocol hdr buffer"
proof -
  have tx: "ppp_tx = ahdlc_tx reconnect_silent"
    by (intro ext) (simp add: ppp_tx_def)
  have "reconnect_silent c = ppp_reconnect c" if "ahdlc_tx_offline c = 0" for c
    unfolding reconnect_silent_def [of c] ppp_reconnect_def tx by (rule reconnect_silent_offline [OF that])
  then show ?thesis
    by (simp add: ppp_tx_def ahdlc_tx_def Let_def)
qed

subsection \<open>Options\<close>

text \<open>
  The scan for unknown options: \<open>bptr\<close> is the option looked at, \<open>tptr\<close> where the next rejected one goes,
  \<open>stop\<close> the end of the options.  An option is skipped by the length it claims, which may be 0.
\<close>

primrec copy_bytes :: "nat \<Rightarrow> nat \<Rightarrow> nat \<Rightarrow> ppp_context \<Rightarrow> ppp_context option" where
  "copy_bytes 0 bptr tptr ctx = Some ctx"
| "copy_bytes (Suc k) bptr tptr ctx =
     do { c \<leftarrow> rx_read ctx bptr; ctx \<leftarrow> rx_write tptr c ctx; copy_bytes k (bptr + 1) (tptr + 1) ctx }"

partial_function (option) scan_loop ::
  "u8 list \<Rightarrow> nat \<Rightarrow> nat \<Rightarrow> nat \<Rightarrow> bool \<Rightarrow> ppp_context \<Rightarrow> (bool \<times> nat \<times> ppp_context) option" where
  "scan_loop codes stop bptr tptr bad ctx =
     (if bptr < stop then
        do {
          i \<leftarrow> rx_read ctx bptr;
          if i \<in> set codes
          then do { j \<leftarrow> rx_read ctx (bptr + 1); scan_loop codes stop (bptr + unat j) tptr bad ctx }
          else do {
            ctx \<leftarrow> rx_write tptr i ctx;
            j \<leftarrow> rx_read ctx (bptr + 1);
            ctx \<leftarrow> rx_write (tptr + 1) j ctx;
            ctx \<leftarrow> copy_bytes (unat j - 2) (bptr + 2) (tptr + 2) ctx;
            scan_loop codes stop (bptr + 2 + (unat j - 2)) (tptr + 2 + (unat j - 2)) True ctx
          }
        }
      else Some (bad, tptr, ctx))"

definition scan_packet ::
  "ppp_context \<Rightarrow> u16 \<Rightarrow> u8 list \<Rightarrow> nat \<Rightarrow> nat \<Rightarrow> u16 \<Rightarrow> (bool \<times> ppp_context) option" where
  "scan_packet ctx protocol codes buffer options len =
     do {
       (bad, tptr, ctx) \<leftarrow> scan_loop codes (options + unat len) options options False ctx;
       if bad then do {
         ctx \<leftarrow> rx_write buffer CONF_REJ ctx;
         ctx \<leftarrow> rx_write (buffer + 2) 0 ctx;
         ctx \<leftarrow> rx_write (buffer + 3) (of_nat (tptr - buffer)) ctx;
         reply \<leftarrow> rx_slice ctx buffer (tptr - buffer);
         ctx \<leftarrow> ppp_tx ctx protocol reply [];
         Some (True, ctx)
       } else Some (False, ctx)
     }"

text \<open>A 16-bit number in network order, as the length of a packet is read.\<close>

definition rx_read16 :: "ppp_context \<Rightarrow> nat \<Rightarrow> u16 option" where
  "rx_read16 ctx i = do { hi \<leftarrow> rx_read ctx i; lo \<leftarrow> rx_read ctx (i + 1); Some (push_bit 8 (ucast hi) OR ucast lo) }"

subsection \<open>LCP\<close>

text \<open>
  The loop over the options of a request that has passed the scan; \<open>tptr\<close> is where the next refused
  option is written.  An option of another type takes its type byte only.
\<close>

function lcp_options :: "nat \<Rightarrow> nat \<Rightarrow> nat \<Rightarrow> bool \<Rightarrow> ppp_context \<Rightarrow> (bool \<times> nat \<times> ppp_context) option" where
  "lcp_options stop bptr tptr err ctx =
     (if bptr < stop then
        do {
          c \<leftarrow> rx_read ctx bptr;
          if c = LPC_MRU then do {
            l \<leftarrow> rx_read ctx (bptr + 1);
            if (ucast l :: u16) - 2 = 2
            then do {
              mru \<leftarrow> rx_read16 ctx (bptr + 2);
              lcp_options stop (bptr + 4) tptr err (ctx\<lparr>ppp_tx_mru := mru\<rparr>)
            }
            else lcp_options stop (bptr + 2) tptr err ctx
          }
          else if c = LPC_ACCM then do {
            b0 \<leftarrow> rx_read ctx (bptr + 2);
            b1 \<leftarrow> rx_read ctx (bptr + 3);
            b2 \<leftarrow> rx_read ctx (bptr + 4);
            b3 \<leftarrow> rx_read ctx (bptr + 5);
            let j = (ucast b0 + ucast b1 + ucast b2 + ucast b3 :: u16);
            if j = 0 then
              lcp_options stop (bptr + 6) tptr err (ctx\<lparr>ahdlc_flags := ahdlc_flags ctx OR PPP_TX_ASYNC_MAP\<rparr>)
            else if j = 0x3fc then
              lcp_options stop (bptr + 6) tptr err (ctx\<lparr>ahdlc_flags := ahdlc_flags ctx AND NOT PPP_TX_ASYNC_MAP\<rparr>)
            else do {
              ctx \<leftarrow> rx_write tptr LPC_ACCM ctx;
              ctx \<leftarrow> rx_write (tptr + 1) 6 ctx;
              ctx \<leftarrow> rx_write (tptr + 2) 0 ctx;
              ctx \<leftarrow> rx_write (tptr + 3) 0 ctx;
              ctx \<leftarrow> rx_write (tptr + 4) 0 ctx;
              ctx \<leftarrow> rx_write (tptr + 5) 0 ctx;
              lcp_options stop (bptr + 6) (tptr + 6) True ctx
            }
          }
          else if c = LPC_MAGICNUMBER then lcp_options stop (bptr + 6) tptr err ctx
          else if c = LPC_PFC then
            lcp_options stop (bptr + 2) tptr err (ctx\<lparr>ahdlc_flags := ahdlc_flags ctx OR PPP_PFC\<rparr>)
          else if c = LPC_ACFC then
            lcp_options stop (bptr + 2) tptr err (ctx\<lparr>ahdlc_flags := ahdlc_flags ctx OR PPP_ACFC\<rparr>)
          else lcp_options stop (bptr + 1) tptr err ctx
        }
      else Some (err, tptr, ctx))"
  by pat_completeness auto

termination
  by (relation "measure (\<lambda>(stop, bptr, tptr, err, ctx). stop - bptr)") auto

declare lcp_options.simps [simp del]

definition lcp_conf_req :: "ppp_context \<Rightarrow> nat \<Rightarrow> u16 \<Rightarrow> ppp_context option" where
  "lcp_conf_req ctx buffer count =
     do {
       ident \<leftarrow> rx_read ctx (buffer + 1);
       len \<leftarrow> rx_read16 ctx (buffer + 2);
       let ctx = ipcp_init ctx;
       let ctx = ctx\<lparr>lcp_state := lcp_state ctx AND NOT LCP_RX_UP\<rparr>;
       (bad, ctx) \<leftarrow> scan_packet ctx LCP g_lcplist buffer (buffer + 4) (len - 4);
       if bad then Some ctx
       else do {
         (err, tptr, ctx) \<leftarrow> lcp_options (buffer + unat len) (buffer + 4) (buffer + 4) False ctx;
         if err then do {
           ctx \<leftarrow> rx_write buffer CONF_NAK ctx;
           ctx \<leftarrow> rx_write (buffer + 2) 0 ctx;
           ctx \<leftarrow> rx_write (buffer + 3) (of_nat (tptr - buffer)) ctx;
           reply \<leftarrow> rx_slice ctx buffer (tptr - buffer);
           ppp_tx ctx LCP [] reply
         }
         else do {
           ctx \<leftarrow> rx_write buffer CONF_ACK ctx;
           reply \<leftarrow> rx_slice ctx buffer (unat count);
           ctx \<leftarrow> ppp_tx ctx LCP [] reply;
           Some (ctx\<lparr>lcp_state := lcp_state ctx OR LCP_RX_UP\<rparr>)
         }
       }
     }"

definition lcp_up :: "ppp_context \<Rightarrow> bool" where
  "lcp_up ctx \<longleftrightarrow> lcp_state ctx AND LCP_TX_UP \<noteq> 0 \<and> lcp_state ctx AND LCP_RX_UP \<noteq> 0"

definition ipcp_up :: "ppp_context \<Rightarrow> bool" where
  "ipcp_up ctx \<longleftrightarrow> ipcp_state ctx AND IPCP_TX_UP \<noteq> 0 \<and> ipcp_state ctx AND IPCP_RX_UP \<noteq> 0"

definition lcp_rx :: "ppp_context \<Rightarrow> nat \<Rightarrow> u16 \<Rightarrow> ppp_context option" where
  "lcp_rx ctx buffer count =
     do {
       code \<leftarrow> rx_read ctx buffer;
       if code = CONF_REQ then lcp_conf_req ctx buffer count
       else if code = CONF_ACK then do {
         ident \<leftarrow> rx_read ctx (buffer + 1);
         Some (if ident = ppp_id ctx then ctx\<lparr>lcp_state := lcp_state ctx OR LCP_TX_UP\<rparr> else ctx)
       }
       else if code = CONF_NAK \<or> code = CONF_REJ then Some (ctx\<lparr>ppp_id := ppp_id ctx + 1\<rparr>)
       else if code = TERM_REQ then do {
         ctx \<leftarrow> rx_write buffer TERM_ACK ctx;
         reply \<leftarrow> rx_slice ctx buffer (unat count);
         ctx \<leftarrow> ppp_tx ctx LCP [] reply;
         Some (ctx\<lparr>lcp_state := (lcp_state ctx AND NOT LCP_TX_UP) OR LCP_TERM_PEER\<rparr>)
       }
       else if code = ECHO_REQ then
         (if lcp_up ctx then do {
            ctx \<leftarrow> rx_write buffer ECHO_REP ctx;
            ctx \<leftarrow> rx_write (buffer + 4) 0 ctx;
            ctx \<leftarrow> rx_write (buffer + 5) 0 ctx;
            ctx \<leftarrow> rx_write (buffer + 6) 0 ctx;
            ctx \<leftarrow> rx_write (buffer + 7) 0 ctx;
            reply \<leftarrow> rx_slice ctx buffer (unat count);
            ppp_tx ctx LCP [] reply
          } else Some ctx)
       else if code = ECHO_REP then
         Some (if lcp_up ctx then ctx\<lparr>ppp_id := ppp_id ctx + 1\<rparr> else ctx)
       else Some ctx
     }"

text \<open>
  A request packet: code, identifier, length in network order, options.  \<open>now\<close> and \<open>now'\<close> are the
  readings of the clock for the comparison and for the new value.
\<close>

definition request_packet :: "u8 \<Rightarrow> u8 \<Rightarrow> bytes \<Rightarrow> bytes" where
  "request_packet code ident opts = [code, ident, of_nat ((length opts + 4) div 256), of_nat (length opts + 4)] @ opts"

definition lcp_task :: "ppp_context \<Rightarrow> int \<Rightarrow> int \<Rightarrow> ppp_context option" where
  "lcp_task ctx now now' =
     (if lcp_state ctx AND LCP_TX_UP = 0 \<and> lcp_state ctx AND LCP_TX_TIMEOUT = 0 \<and>
        now - lcp_prev_seconds ctx > LCP_TIMEOUT
      then do {
        let pkt = request_packet CONF_REQ (ppp_id ctx) [LPC_ACCM, 6, 0xff, 0xff, 0xff, 0xff];
        let ctx = ctx\<lparr>lcp_prev_seconds := now', ip_buf := write_bytes (ip_buf ctx) 0 pkt\<rparr>;
        ctx \<leftarrow> ppp_tx ctx LCP [] pkt;
        let ctx = ctx\<lparr>lcp_retry := lcp_retry ctx + 1\<rparr>;
        Some (if lcp_retry ctx > LCP_RETRY_COUNT then ctx\<lparr>lcp_state := lcp_state ctx OR LCP_TX_TIMEOUT\<rparr> else ctx)
      }
      else Some ctx)"

definition lcp_echo_request :: "ppp_context \<Rightarrow> int \<Rightarrow> int \<Rightarrow> ppp_context option" where
  "lcp_echo_request ctx now now' =
     (if lcp_up ctx \<and> now - lcp_prev_seconds ctx > LCP_ECHO_INTERVAL
      then ppp_tx (ctx\<lparr>lcp_prev_seconds := now'\<rparr>) LCP [] (request_packet ECHO_REQ (ppp_id ctx) [0, 0, 0, 0])
      else Some ctx)"

subsection \<open>IPCP\<close>

definition rx_read_addr :: "ppp_context \<Rightarrow> nat \<Rightarrow> bytes option" where
  "rx_read_addr ctx i =
     do {
       a \<leftarrow> rx_read ctx i; b \<leftarrow> rx_read ctx (i + 1); c \<leftarrow> rx_read ctx (i + 2); d \<leftarrow> rx_read ctx (i + 3);
       Some [a, b, c, d]
     }"

text \<open>The loops over the options of a refusal with a better value and of a rejection.\<close>

function ipcp_nak_options :: "nat \<Rightarrow> nat \<Rightarrow> ppp_context \<Rightarrow> ppp_context option" where
  "ipcp_nak_options stop bptr ctx =
     (if bptr < stop then
        do {
          c \<leftarrow> rx_read ctx bptr;
          if c = IPCP_IPADDRESS then do {
            addr \<leftarrow> rx_read_addr ctx (bptr + 2);
            ipcp_nak_options stop (bptr + 6) (emit [NetIfup, NetSetAddr addr] (ctx\<lparr>local_ip := addr\<rparr>))
          }
          else ipcp_nak_options stop (bptr + 1) ctx
        }
      else Some ctx)"
  by pat_completeness auto

termination
  by (relation "measure (\<lambda>(stop, bptr, ctx). stop - bptr)") auto

function ipcp_rej_options :: "nat \<Rightarrow> nat \<Rightarrow> ppp_context \<Rightarrow> ppp_context option" where
  "ipcp_rej_options stop bptr ctx =
     (if bptr < stop then
        do {
          c \<leftarrow> rx_read ctx bptr;
          if c = IPCP_IPADDRESS
          then ipcp_rej_options stop (bptr + 6) (ctx\<lparr>ipcp_state := ipcp_state ctx OR IPCP_IP_BIT\<rparr>)
          else ipcp_rej_options stop (bptr + 1) ctx
        }
      else Some ctx)"
  by pat_completeness auto

termination
  by (relation "measure (\<lambda>(stop, bptr, ctx). stop - bptr)") auto

declare ipcp_nak_options.simps [simp del] ipcp_rej_options.simps [simp del]

definition ipcp_conf_req :: "ppp_context \<Rightarrow> nat \<Rightarrow> u16 \<Rightarrow> ppp_context option" where
  "ipcp_conf_req ctx buffer count =
     do {
       len \<leftarrow> rx_read16 ctx (buffer + 2);
       (bad, ctx) \<leftarrow> scan_packet ctx IPCP g_ipcplist buffer (buffer + 4) (len - 4);
       if bad then Some ctx
       else do {
         c \<leftarrow> rx_read ctx (buffer + 4);
         ctx \<leftarrow> (if c = IPCP_IPADDRESS then do {
             addr \<leftarrow> rx_read_addr ctx (buffer + 6);
             Some (emit [NetSetPeerAddr addr] (ctx\<lparr>peer_ip := addr\<rparr>))
           } else Some ctx);
         let ctx = ctx\<lparr>ipcp_state := ipcp_state ctx OR IPCP_RX_UP\<rparr>;
         ctx \<leftarrow> rx_write buffer CONF_ACK ctx;
         reply \<leftarrow> rx_slice ctx buffer (unat count);
         ppp_tx ctx IPCP [] reply
       }
     }"

definition ipcp_rx :: "ppp_context \<Rightarrow> nat \<Rightarrow> u16 \<Rightarrow> ppp_context option" where
  "ipcp_rx ctx buffer count =
     do {
       code \<leftarrow> rx_read ctx buffer;
       if code = CONF_REQ then ipcp_conf_req ctx buffer count
       else if code = CONF_ACK then do {
         len \<leftarrow> rx_read16 ctx (buffer + 2);
         Some (ctx\<lparr>ipcp_state := ipcp_state ctx OR IPCP_TX_UP\<rparr>)
       }
       else if code = CONF_NAK then do {
         len \<leftarrow> rx_read16 ctx (buffer + 2);
         ctx \<leftarrow> ipcp_nak_options (buffer + unat len) (buffer + 4) ctx;
         Some (ctx\<lparr>ppp_id := ppp_id ctx + 1\<rparr>)
       }
       else if code = CONF_REJ then do {
         let ctx = ctx\<lparr>ppp_id := ppp_id ctx + 1\<rparr>;
         len \<leftarrow> rx_read16 ctx (buffer + 2);
         ipcp_rej_options (buffer + unat len) (buffer + 4) ctx
       }
       else Some ctx
     }"

definition ipcp_task :: "ppp_context \<Rightarrow> int \<Rightarrow> int \<Rightarrow> ppp_context option" where
  "ipcp_task ctx now now' =
     (if ipcp_state ctx AND IPCP_TX_UP = 0 \<and> ipcp_state ctx AND IPCP_TX_TIMEOUT = 0 \<and>
        now - ipcp_prev_seconds ctx > IPCP_TIMEOUT
      then do {
        let pkt = request_packet CONF_REQ (ppp_id ctx) ([IPCP_IPADDRESS, 6] @ local_ip ctx);
        let ctx = ctx\<lparr>ipcp_prev_seconds := now', ip_buf := write_bytes (ip_buf ctx) 0 pkt\<rparr>;
        ctx \<leftarrow> ppp_tx ctx IPCP [] pkt;
        let ctx = ctx\<lparr>ipcp_retry := ipcp_retry ctx + 1\<rparr>;
        Some (if ipcp_retry ctx > IPCP_RETRY_COUNT then ctx\<lparr>ipcp_state := ipcp_state ctx OR IPCP_TX_TIMEOUT\<rparr> else ctx)
      }
      else Some ctx)"

subsection \<open>Dispatch\<close>

text \<open>
  Rejecting a protocol moves the packet up by six bytes, from its end, and writes the header of the
  rejection before it.
\<close>

primrec move_up :: "nat \<Rightarrow> nat \<Rightarrow> nat \<Rightarrow> ppp_context \<Rightarrow> ppp_context option" where
  "move_up 0 dptr sptr ctx = Some ctx"
| "move_up (Suc k) dptr sptr ctx =
     do { c \<leftarrow> rx_read ctx (sptr - 1); ctx \<leftarrow> rx_write (dptr - 1) c ctx; move_up k (dptr - 1) (sptr - 1) ctx }"

definition ppp_reject_protocol :: "ppp_context \<Rightarrow> u16 \<Rightarrow> nat \<Rightarrow> u16 \<Rightarrow> ppp_context option" where
  "ppp_reject_protocol ctx protocol buffer count =
     (if unat count + 6 > PPP_RX_BUFFER_SIZE then Some ctx
      else do {
        ctx \<leftarrow> move_up (unat count) (buffer + unat count + 6) (buffer + unat count) ctx;
        ctx \<leftarrow> rx_write buffer PROT_REJ ctx;
        ctx \<leftarrow> rx_write (buffer + 2) (ucast (drop_bit 8 (count + 6))) ctx;
        ctx \<leftarrow> rx_write (buffer + 3) (ucast (count + 6)) ctx;
        ctx \<leftarrow> rx_write (buffer + 4) (ucast (drop_bit 8 protocol)) ctx;
        ctx \<leftarrow> rx_write (buffer + 5) (ucast protocol) ctx;
        reply \<leftarrow> rx_slice ctx buffer (unat (count + 6));
        ppp_tx ctx LCP reply []
      })"

definition ppp_upcall :: upcall where
  "ppp_upcall ctx protocol buffer len =
     (if ppp_flags ctx AND PPP_RX_READY = 0 then Some ctx
      else if protocol = LCP then lcp_rx ctx buffer len
      else if protocol = IPCP then ipcp_rx ctx buffer len
      else if protocol = IPV4 then do {
        data \<leftarrow> rx_slice ctx buffer (unat len);
        Some (ctx\<lparr>ip_buf := write_bytes (ip_buf ctx) 0 data, ip_len := len, ip_no_data_time := 0\<rparr>)
      }
      else ppp_reject_protocol ctx protocol buffer len)"

subsection \<open>Polling\<close>

definition ppp_send :: "ppp_context \<Rightarrow> ppp_context option" where
  "ppp_send ctx =
     (if ipcp_up ctx then
        (if unat (ip_len ctx) \<le> length (ip_buf ctx)
         then ppp_tx ctx IPV4 [] (take (unat (ip_len ctx)) (ip_buf ctx)) else None)
      else Some ctx)"

text \<open>
  What a poll finds: the characters in the line and the readings of the clock, two for LCP (its task or
  its echo request) and two for IPCP.
\<close>

record poll_input =
  pl_chars :: bytes
  pl_lcp_now :: int
  pl_lcp_now' :: int
  pl_ipcp_now :: int
  pl_ipcp_now' :: int

text \<open>The negotiations at the end of \<open>ppp_poll\<close>.\<close>

definition ppp_negotiate :: "poll_input \<Rightarrow> ppp_context \<Rightarrow> ppp_context option" where
  "ppp_negotiate inp ctx =
     (if ipcp_up ctx then lcp_echo_request ctx (pl_lcp_now inp) (pl_lcp_now' inp)
      else do {
        ctx \<leftarrow> lcp_task ctx (pl_lcp_now inp) (pl_lcp_now' inp);
        if lcp_up ctx \<and> lcp_state ctx AND LCP_RX_AUTH = 0
        then ipcp_task ctx (pl_ipcp_now inp) (pl_ipcp_now' inp)
        else Some ctx
      })"

text \<open>The result: the characters left in the line, and the context.\<close>

definition ppp_poll :: "poll_input \<Rightarrow> ppp_context \<Rightarrow> (bytes \<times> ppp_context) option" where
  "ppp_poll inp ctx =
     (let ctx = ctx\<lparr>ip_len := 0, ip_no_data_time := ip_no_data_time ctx + 1\<rparr>
      in if unat (ip_no_data_time ctx) > PPP_IP_TIMEOUT then map_option (Pair (pl_chars inp)) (ppp_reconnect ctx)
         else if ppp_flags ctx AND PPP_RX_READY = 0 then Some (pl_chars inp, ctx)
         else do {
           (left, ctx) \<leftarrow> receive_loop ppp_upcall (pl_chars inp) ctx;
           ctx \<leftarrow> ppp_negotiate inp ctx;
           Some (left, ctx)
         })"

end
