(* ===== verification/PppLink.thy ===== *)
theory PppLink
  imports Ppp
begin

unbundle bit_operations_syntax

section \<open>Two daemons on a line\<close>

text \<open>
  What the daemon does with the frames another daemon sends, and from it that two daemons bring the link
  up and that a datagram gets across; and what malformed frames do to it.
\<close>

subsection \<open>A packet in the receive buffer\<close>

text \<open>The data of a frame lie in the buffer behind the two protocol bytes.\<close>

definition holds_packet :: "ppp_context \<Rightarrow> bytes \<Rightarrow> bool" where
  "holds_packet ctx data \<longleftrightarrow> length (ahdlc_rx_buffer ctx) = PPP_RX_BUFFER_SIZE \<and>
     length data + 2 \<le> PPP_RX_BUFFER_SIZE \<and> take (length data) (drop 2 (ahdlc_rx_buffer ctx)) = data"

lemma packet_nth:
  assumes "holds_packet ctx data" "i < length data"
  shows "ahdlc_rx_buffer ctx ! (2 + i) = data ! i"
proof -
  have "2 \<le> length (ahdlc_rx_buffer ctx)"
    using assms by (auto simp: holds_packet_def)
  then have "ahdlc_rx_buffer ctx ! (2 + i) = take (length data) (drop 2 (ahdlc_rx_buffer ctx)) ! i"
    unfolding nth_take [OF assms(2)] by (rule nth_drop [symmetric])
  also have "\<dots> = data ! i"
    using assms by (simp only: holds_packet_def)
  finally show ?thesis .
qed

lemma packet_read:
  assumes "holds_packet ctx data" "i < length data"
  shows "rx_read ctx (2 + i) = Some (data ! i)"
  using packet_nth [OF assms] assms by (simp add: rx_read_def holds_packet_def)

lemma packet_slice:
  assumes "holds_packet ctx data"
  shows "rx_slice ctx 2 (length data) = Some data"
  using assms by (simp add: rx_slice_def holds_packet_def add.commute)

lemma packet_write:
  assumes "holds_packet ctx data" "i < length data"
  shows "rx_write (2 + i) c ctx = Some (ctx\<lparr>ahdlc_rx_buffer := (ahdlc_rx_buffer ctx)[2 + i := c]\<rparr>)"
    and "holds_packet (ctx\<lparr>ahdlc_rx_buffer := (ahdlc_rx_buffer ctx)[2 + i := c]\<rparr>) (data[i := c])"
  using assms by (auto simp: rx_write_def holds_packet_def drop_update_swap take_update_swap)

lemma rx_frame_holds:
  assumes "length (ahdlc_rx_buffer r) = PPP_RX_BUFFER_SIZE" "length data + 4 \<le> PPP_RX_BUFFER_SIZE"
  shows "holds_packet (rx_frame protocol flags data r) data"
  using assms by (simp add: holds_packet_def rx_frame_def write_bytes_def)

lemma packet_get:
  "holds_packet ctx data \<Longrightarrow> 2 \<le> k \<Longrightarrow> k < length data + 2 \<Longrightarrow> rx_read ctx k = Some (data ! (k - 2))"
  using packet_read [of ctx data "k - 2"] by (auto dest: le_Suc_ex simp del: add_2_eq_Suc)

lemma packet_put:
  assumes "holds_packet ctx data" "2 \<le> k" "k < length data + 2"
  shows "rx_write k c ctx = Some (ctx\<lparr>ahdlc_rx_buffer := (ahdlc_rx_buffer ctx)[k := c]\<rparr>)"
    and "holds_packet (ctx\<lparr>ahdlc_rx_buffer := (ahdlc_rx_buffer ctx)[k := c]\<rparr>) (data[k - 2 := c])"
  using packet_write [OF assms(1), of "k - 2" c] assms(2,3) by (auto dest: le_Suc_ex simp del: add_2_eq_Suc)

lemma holds_packet_buffer: "ahdlc_rx_buffer c = ahdlc_rx_buffer ctx \<Longrightarrow> holds_packet c data = holds_packet ctx data"
  by (simp add: holds_packet_def)

subsection \<open>Sending\<close>

lemma hdlc_frame_LCP: "hdlc_frame LCP flags data = hdlc_frame LCP 0 data"
proof -
  have "stuffed LCP flags = stuffed LCP 0"
    by (intro ext) (simp add: stuffed_def)
  then show ?thesis
    by (simp add: hdlc_frame_def hdlc_body_def frame_start_def)
qed

lemma hdlc_frame_plain:
  assumes "\<not> bit flags 3" "\<not> bit flags 5"
  shows "hdlc_frame protocol flags data = hdlc_frame protocol 0 data"
proof -
  have "stuffed protocol flags = stuffed protocol 0"
    using assms(1) by (intro ext) (simp add: stuffed_def ahdlc_flag_bits)
  with assms(2) show ?thesis
    by (simp add: hdlc_frame_def hdlc_body_def frame_start_def ahdlc_flag_bits)
qed

text \<open>The context after a frame has been sent.\<close>

definition sent :: "u16 \<Rightarrow> u8 \<Rightarrow> bytes \<Rightarrow> ppp_context \<Rightarrow> ppp_context" where
  "sent protocol flags data ctx = ctx\<lparr>ahdlc_tx_offline := ahdlc_tx_offline ctx + 1, ahdlc_tx_crc := CRC_GOOD_VALUE,
     ppp_tx_frame_count := ppp_tx_frame_count ctx + 1,
     ppp_out := ppp_out ctx @ map LinePut (hdlc_frame protocol flags data)\<rparr>"

lemma ppp_tx_sends:
  "ahdlc_tx_offline ctx \<le> AHDLC_TX_OFFLINE \<Longrightarrow> ppp_tx ctx protocol hdr buffer = Some (sent protocol (ahdlc_flags ctx) (hdr @ buffer) ctx)"
  by (auto simp: ppp_tx_def ahdlc_tx_def Let_def ahdlc_tx_frame_bytes sent_def emit_def dest: leD)

subsection \<open>LCP frames\<close>

definition lcp_request :: "u8 \<Rightarrow> u8 \<Rightarrow> bytes" where
  "lcp_request code ident = [code, ident, 0, 10, LPC_ACCM, 6, 0xff, 0xff, 0xff, 0xff]"

lemma request_packet_lcp: "request_packet code ident [LPC_ACCM, 6, 0xff, 0xff, 0xff, 0xff] = lcp_request code ident"
  by (simp add: request_packet_def lcp_request_def)

lemma lcp_request_simps [simp]:
  "length (lcp_request c i) = 10" "lcp_request c i ! 0 = c" "lcp_request c i ! Suc 0 = i" "(lcp_request c i)[0 := d] = lcp_request d i"
  by (simp_all add: lcp_request_def)

lemma scan_accepts:
  assumes "rx_read ctx i = Some c" "rx_read ctx (i + 1) = Some l" "c \<in> set codes" "i < stop" "stop = i + unat l"
  shows "scan_loop codes stop i t bad ctx = Some (bad, t, ctx)"
  using assms by (subst scan_loop.simps) (simp, subst scan_loop.simps, simp)

lemma lcp_request_scanned:
  assumes "holds_packet ctx (lcp_request CONF_REQ ident)"
  shows "scan_packet ctx LCP g_lcplist 2 6 6 = Some (False, ctx)"
proof -
  have "rx_read ctx 6 = Some LPC_ACCM" "rx_read ctx (6 + 1) = Some 6"
    using packet_get [OF assms, of 6] packet_get [OF assms, of 7] by (simp_all add: lcp_request_def)
  then have "scan_loop g_lcplist 12 6 6 False ctx = Some (False, 6, ctx)"
    by (rule scan_accepts) (simp_all add: g_lcplist_def)
  then show ?thesis
    by (simp add: scan_packet_def)
qed

lemma lcp_request_options:
  assumes "holds_packet ctx (lcp_request CONF_REQ ident)"
  shows "lcp_options 12 6 6 False ctx = Some (False, 6, ctx\<lparr>ahdlc_flags := ahdlc_flags ctx AND NOT PPP_TX_ASYNC_MAP\<rparr>)"
proof -
  have "rx_read ctx 6 = Some LPC_ACCM" "rx_read ctx 8 = Some 0xff" "rx_read ctx 9 = Some 0xff"
    "rx_read ctx 10 = Some 0xff" "rx_read ctx 11 = Some 0xff"
    using packet_get [OF assms, of 6] packet_get [OF assms, of 8] packet_get [OF assms, of 9]
      packet_get [OF assms, of 10] packet_get [OF assms, of 11] by (simp_all add: lcp_request_def)
  then show ?thesis
    by (subst lcp_options.simps) (simp add: LPC_ACCM_def LPC_MRU_def, subst lcp_options.simps, simp)
qed

text \<open>A request is acknowledged with the same packet, and brings the receiving side up.\<close>

lemma lcp_request_answered:
  assumes "holds_packet ctx (lcp_request CONF_REQ ident)" "ahdlc_tx_offline ctx \<le> AHDLC_TX_OFFLINE"
  shows "\<exists>buf. length buf = PPP_RX_BUFFER_SIZE \<and> lcp_rx ctx 2 10 =
    Some ((sent LCP 0 (lcp_request CONF_ACK ident) (ipcp_init ctx))\<lparr>ahdlc_rx_buffer := buf,
      ahdlc_flags := ahdlc_flags ctx AND NOT PPP_TX_ASYNC_MAP,
      lcp_state := (lcp_state ctx AND NOT LCP_RX_UP) OR LCP_RX_UP\<rparr>)"
proof -
  let ?c1 = "(ipcp_init ctx)\<lparr>lcp_state := lcp_state ctx AND NOT LCP_RX_UP\<rparr>"
  let ?c2 = "?c1\<lparr>ahdlc_flags := ahdlc_flags ctx AND NOT PPP_TX_ASYNC_MAP\<rparr>"
  let ?buf = "(ahdlc_rx_buffer ctx)[2 := CONF_ACK]"
  have h1: "holds_packet ?c1 (lcp_request CONF_REQ ident)" and h2: "holds_packet ?c2 (lcp_request CONF_REQ ident)"
    using assms(1) by (simp_all add: ipcp_init_def cong: holds_packet_buffer)
  have len: "length ?buf = PPP_RX_BUFFER_SIZE"
    using assms(1) by (simp add: holds_packet_def)
  have "rx_read ctx 2 = Some CONF_REQ" "rx_read ctx 3 = Some ident" "rx_read16 ctx 4 = Some 10"
    using packet_get [OF assms(1), of 2] packet_get [OF assms(1), of 3] packet_get [OF assms(1), of 4] packet_get [OF assms(1), of 5]
    by (simp_all add: lcp_request_def rx_read16_def)
  moreover have "rx_write 2 CONF_ACK ?c2 = Some (?c2\<lparr>ahdlc_rx_buffer := ?buf\<rparr>)"
    and slice: "rx_slice (?c2\<lparr>ahdlc_rx_buffer := ?buf\<rparr>) 2 10 = Some (lcp_request CONF_ACK ident)"
    using packet_put [OF h2, of 2 CONF_ACK] packet_slice [of "?c2\<lparr>ahdlc_rx_buffer := ?buf\<rparr>" "lcp_request CONF_ACK ident"]
    by (simp_all add: ipcp_init_def)
  ultimately have "lcp_rx ctx 2 10 = Some ((sent LCP 0 (lcp_request CONF_ACK ident) (ipcp_init ctx))\<lparr>ahdlc_rx_buffer := ?buf,
      ahdlc_flags := ahdlc_flags ctx AND NOT PPP_TX_ASYNC_MAP,
      lcp_state := (lcp_state ctx AND NOT LCP_RX_UP) OR LCP_RX_UP\<rparr>)"
    using assms(2) lcp_request_scanned [OF h1] lcp_request_options [OF h1]
    by (simp add: lcp_rx_def lcp_conf_req_def Let_def ppp_tx_sends ipcp_init_def sent_def hdlc_frame_LCP [of "_ AND _"])
  with len show ?thesis
    by blast
qed

subsection \<open>Frames as the receiver's steps\<close>

text \<open>A daemon that takes frames, and the part of its context that the negotiation is about.\<close>

definition link_ready :: "ppp_context \<Rightarrow> bool" where
  "link_ready ctx \<longleftrightarrow> rx_idle ctx \<and> \<not> bit (ahdlc_flags ctx) 3 \<and> \<not> bit (ahdlc_flags ctx) 5 \<and>
     ahdlc_tx_offline ctx \<le> 1 \<and> ppp_flags ctx = PPP_RX_READY \<and> ip_len ctx = 0 \<and> length (ip_buf ctx) = PPP_RX_BUFFER_SIZE"

definition link_quiet :: "ppp_context \<Rightarrow> bool" where
  "link_quiet ctx \<longleftrightarrow> link_ready ctx \<and> ahdlc_tx_offline ctx = 0"

lemma link_quiet_ready [simp]: "link_quiet ctx \<Longrightarrow> link_ready ctx"
  by (simp add: link_quiet_def)

definition link_view :: "ppp_context \<Rightarrow> u8 \<times> u8 \<times> int \<times> u8 \<times> u8 \<times> int \<times> u8 \<times> u16 \<times> bytes" where
  "link_view ctx = (lcp_state ctx, lcp_retry ctx, lcp_prev_seconds ctx, ipcp_state ctx, ipcp_retry ctx,
     ipcp_prev_seconds ctx, ppp_id ctx, ip_no_data_time ctx, local_ip ctx)"

lemma protocols [simp]: "framed_protocol LCP" "framed_protocol IPCP" "framed_protocol IPV4"
  "LCP \<noteq> IPCP" "IPCP \<noteq> LCP" "IPV4 \<noteq> LCP" "IPV4 \<noteq> IPCP"
  by (simp_all add: framed_protocol_def LCP_def IPCP_def IPV4_def bit_simps)

lemma rx_frame_fields [simp]:
  "ip_len (rx_frame p fl d r) = ip_len r" "ppp_flags (rx_frame p fl d r) = ppp_flags r"
  "lcp_state (rx_frame p fl d r) = lcp_state r" "ahdlc_tx_offline (rx_frame p fl d r) = ahdlc_tx_offline r"
  "ppp_id (rx_frame p fl d r) = ppp_id r" "ipcp_state (rx_frame p fl d r) = ipcp_state r"
  "link_view (rx_frame p fl d r) = link_view r" "ppp_out (rx_frame p fl d r) = ppp_out r"
  "ip_buf (rx_frame p fl d r) = ip_buf r" "lcp_retry (rx_frame p fl d r) = lcp_retry r"
  "lcp_prev_seconds (rx_frame p fl d r) = lcp_prev_seconds r" "ip_no_data_time (rx_frame p fl d r) = ip_no_data_time r"
  "ipcp_retry (rx_frame p fl d r) = ipcp_retry r" "ipcp_prev_seconds (rx_frame p fl d r) = ipcp_prev_seconds r"
  "local_ip (rx_frame p fl d r) = local_ip r"
  "ahdlc_flags (rx_frame p fl d r) = ahdlc_flags r AND NOT PPP_RX_READY"
  by (simp_all add: rx_frame_def link_view_def)

text \<open>
  The receiver is ready again after the layer above has handled a frame, if that kept the buffers and,
  of the flags, the two the receiver needs.
\<close>

lemma ready_again:
  assumes "length (ahdlc_rx_buffer c) = PPP_RX_BUFFER_SIZE" "bit (ahdlc_flags c) 2" "\<not> bit (ahdlc_flags c) 0"
    and "\<not> bit (ahdlc_flags c) 3" "\<not> bit (ahdlc_flags c) 5" "ppp_flags c = PPP_RX_READY" "ip_len c = 0"
    and "length (ip_buf c) = PPP_RX_BUFFER_SIZE"
  shows "link_quiet (ahdlc_rx_ready (c\<lparr>ahdlc_tx_offline := 0\<rparr>))"
  using assms by (auto simp: link_quiet_def link_ready_def rx_idle_def rx_open_def ahdlc_rx_ready_def flag_simps)

lemma ready_view [simp]:
  "link_view (ahdlc_rx_ready (c\<lparr>ahdlc_tx_offline := 0\<rparr>)) = link_view c"
  "ppp_out (ahdlc_rx_ready (c\<lparr>ahdlc_tx_offline := 0\<rparr>)) = ppp_out c"
  by (simp_all add: link_view_def ahdlc_rx_ready_def)

lemma link_ready_flags:
  assumes "link_ready r"
  shows "rx_idle r" "ip_len r = 0" "length (ahdlc_rx_buffer r) = PPP_RX_BUFFER_SIZE" "ahdlc_tx_offline r \<le> AHDLC_TX_OFFLINE"
    and "ppp_flags r = PPP_RX_READY" "length (ip_buf r) = PPP_RX_BUFFER_SIZE"
    and "bit (ahdlc_flags r) 2" "\<not> bit (ahdlc_flags r) 0" "\<not> bit (ahdlc_flags r) 3" "\<not> bit (ahdlc_flags r) 5"
proof -
  have "(1 :: u8) \<le> 5"
    by simp
  with assms show "ahdlc_tx_offline r \<le> AHDLC_TX_OFFLINE"
    unfolding link_ready_def AHDLC_TX_OFFLINE_def by (meson order_trans)
qed (use assms in \<open>simp_all add: link_ready_def rx_idle_def rx_open_def\<close>)

lemma lcp_request_frame:
  assumes "link_ready r"
  shows "\<exists>r'. receive_loop ppp_upcall (hdlc_frame LCP flags (lcp_request CONF_REQ ident) @ rest) r =
      receive_loop ppp_upcall rest r' \<and> link_quiet r' \<and>
    (\<forall>ls lr lp is ir ip pid nd la. link_view r = (ls, lr, lp, is, ir, ip, pid, nd, la) \<longrightarrow>
      link_view r' = ((ls AND NOT LCP_RX_UP) OR LCP_RX_UP, lr, lp, 0, 0, 0, pid, nd, [0, 0, 0, 0])) \<and>
    ppp_out r' = ppp_out r @ map LinePut (hdlc_frame LCP 0 (lcp_request CONF_ACK ident))"
proof -
  note r = link_ready_flags [OF assms]
  let ?f = "rx_frame LCP flags (lcp_request CONF_REQ ident) r"
  have "holds_packet ?f (lcp_request CONF_REQ ident)"
    using r(3) by (intro rx_frame_holds) (simp_all add: PPP_RX_BUFFER_SIZE_def)
  from lcp_request_answered [OF this] r(4) obtain buf where buf: "length buf = PPP_RX_BUFFER_SIZE"
    and rx: "lcp_rx ?f 2 10 = Some ((sent LCP 0 (lcp_request CONF_ACK ident) (ipcp_init ?f))\<lparr>ahdlc_rx_buffer := buf,
      ahdlc_flags := ahdlc_flags ?f AND NOT PPP_TX_ASYNC_MAP, lcp_state := (lcp_state ?f AND NOT LCP_RX_UP) OR LCP_RX_UP\<rparr>)"
    by auto
  let ?c = "(sent LCP 0 (lcp_request CONF_ACK ident) (ipcp_init ?f))\<lparr>ahdlc_rx_buffer := buf,
      ahdlc_flags := ahdlc_flags ?f AND NOT PPP_TX_ASYNC_MAP, lcp_state := (lcp_state ?f AND NOT LCP_RX_UP) OR LCP_RX_UP\<rparr>"
  have "receive_loop ppp_upcall (hdlc_frame LCP flags (lcp_request CONF_REQ ident) @ rest) r =
      receive_loop ppp_upcall rest (ahdlc_rx_ready (?c\<lparr>ahdlc_tx_offline := 0\<rparr>))"
    by (subst frame_received [OF r(1,2)]) (simp_all add: PPP_RX_BUFFER_SIZE_def ppp_upcall_def r(5) rx)
  moreover have "link_quiet (ahdlc_rx_ready (?c\<lparr>ahdlc_tx_offline := 0\<rparr>))"
    using r buf by (intro ready_again) (auto simp: sent_def ipcp_init_def flag_simps)
  ultimately show ?thesis
    by (intro exI [of _ "ahdlc_rx_ready (?c\<lparr>ahdlc_tx_offline := 0\<rparr>)"])
      (simp, simp add: link_view_def sent_def ipcp_init_def)
qed

text \<open>What a frame does when the layer above only changes the context and sends.\<close>

lemma frame_step:
  assumes "link_ready r" "framed_protocol p" "length data + 4 \<le> PPP_RX_BUFFER_SIZE"
    and "ppp_upcall (rx_frame p flags data r) p 2 (of_nat (length data)) = Some c"
    and "length (ahdlc_rx_buffer c) = PPP_RX_BUFFER_SIZE" "ahdlc_flags c = ahdlc_flags r AND NOT PPP_RX_READY"
    and "ppp_flags c = PPP_RX_READY" "ip_len c = 0" "length (ip_buf c) = PPP_RX_BUFFER_SIZE"
  shows "receive_loop ppp_upcall (hdlc_frame p flags data @ rest) r =
      receive_loop ppp_upcall rest (ahdlc_rx_ready (c\<lparr>ahdlc_tx_offline := 0\<rparr>)) \<and>
    link_quiet (ahdlc_rx_ready (c\<lparr>ahdlc_tx_offline := 0\<rparr>))"
proof -
  note r = link_ready_flags [OF assms(1)]
  have "link_quiet (ahdlc_rx_ready (c\<lparr>ahdlc_tx_offline := 0\<rparr>))"
    using r assms(5-) by (intro ready_again) (auto simp: flag_simps)
  then show ?thesis
    by (simp add: frame_received [OF r(1,2) assms(2,3)] assms(4))
qed

lemma frame_length: "10 + 4 \<le> PPP_RX_BUFFER_SIZE"
  by (simp add: PPP_RX_BUFFER_SIZE_def)

lemma lcp_ack_frame:
  assumes "link_ready r"
  shows "\<exists>r'. receive_loop ppp_upcall (hdlc_frame LCP flags (lcp_request CONF_ACK ident) @ rest) r =
      receive_loop ppp_upcall rest r' \<and> link_quiet r' \<and>
    (\<forall>ls lr lp is ir ip pid nd la. link_view r = (ls, lr, lp, is, ir, ip, pid, nd, la) \<longrightarrow>
      link_view r' = (if ident = pid then ls OR LCP_TX_UP else ls, lr, lp, is, ir, ip, pid, nd, la)) \<and>
    ppp_out r' = ppp_out r"
proof -
  note r = link_ready_flags [OF assms]
  let ?f = "rx_frame LCP flags (lcp_request CONF_ACK ident) r"
  let ?c = "if ident = ppp_id r then ?f\<lparr>lcp_state := lcp_state r OR LCP_TX_UP\<rparr> else ?f"
  have h: "holds_packet ?f (lcp_request CONF_ACK ident)"
    using r(3) frame_length by (intro rx_frame_holds) simp_all
  have "rx_read ?f 2 = Some CONF_ACK" "rx_read ?f 3 = Some ident"
    using packet_get [OF h, of 2] packet_get [OF h, of 3] by simp_all
  then have "ppp_upcall ?f LCP 2 (of_nat (length (lcp_request CONF_ACK ident))) = Some ?c"
    by (simp add: ppp_upcall_def r(5) lcp_rx_def CONF_ACK_def CONF_REQ_def)
  moreover have "length (ahdlc_rx_buffer ?c) = PPP_RX_BUFFER_SIZE"
    using h by (auto simp: holds_packet_def)
  ultimately show ?thesis
    using r frame_length frame_step [OF assms, of LCP "lcp_request CONF_ACK ident" flags ?c rest]
    by (intro exI [of _ "ahdlc_rx_ready (?c\<lparr>ahdlc_tx_offline := 0\<rparr>)"]) (simp, simp add: link_view_def)
qed

subsection \<open>IPCP frames\<close>

definition ipcp_request :: "u8 \<Rightarrow> u8 \<Rightarrow> bytes" where
  "ipcp_request code ident = [code, ident, 0, 10, IPCP_IPADDRESS, 6, 0, 0, 0, 0]"

lemma ipcp_request_simps [simp]:
  "length (ipcp_request c i) = 10" "ipcp_request c i ! 0 = c" "(ipcp_request c i)[0 := d] = ipcp_request d i"
  by (simp_all add: ipcp_request_def)

lemma request_packet_ipcp: "request_packet code ident [IPCP_IPADDRESS, 6, 0, 0, 0, 0] = ipcp_request code ident"
  by (simp add: request_packet_def ipcp_request_def)

lemma ipcp_request_scanned:
  assumes "holds_packet ctx (ipcp_request CONF_REQ ident)"
  shows "scan_packet ctx IPCP g_ipcplist 2 6 6 = Some (False, ctx)"
proof -
  have "rx_read ctx 6 = Some IPCP_IPADDRESS" "rx_read ctx (6 + 1) = Some 6"
    using packet_get [OF assms, of 6] packet_get [OF assms, of 7] by (simp_all add: ipcp_request_def)
  then have "scan_loop g_ipcplist 12 6 6 False ctx = Some (False, 6, ctx)"
    by (rule scan_accepts) (simp_all add: g_ipcplist_def)
  then show ?thesis
    by (simp add: scan_packet_def)
qed

lemma ipcp_request_frame:
  assumes "link_ready r"
  shows "\<exists>r'. receive_loop ppp_upcall (hdlc_frame IPCP flags (ipcp_request CONF_REQ ident) @ rest) r =
      receive_loop ppp_upcall rest r' \<and> link_quiet r' \<and>
    (\<forall>ls lr lp is ir ip pid nd la. link_view r = (ls, lr, lp, is, ir, ip, pid, nd, la) \<longrightarrow>
      link_view r' = (ls, lr, lp, is OR IPCP_RX_UP, ir, ip, pid, nd, la)) \<and>
    ppp_out r' = ppp_out r @ [NetSetPeerAddr [0, 0, 0, 0]] @ map LinePut (hdlc_frame IPCP 0 (ipcp_request CONF_ACK ident))"
proof -
  note r = link_ready_flags [OF assms]
  let ?req = "ipcp_request CONF_REQ ident" and ?ack = "ipcp_request CONF_ACK ident"
  let ?f = "rx_frame IPCP flags ?req r"
  let ?g = "(emit [NetSetPeerAddr [0, 0, 0, 0]] (?f\<lparr>peer_ip := [0, 0, 0, 0]\<rparr>))\<lparr>ipcp_state := ipcp_state r OR IPCP_RX_UP\<rparr>"
  let ?buf = "(ahdlc_rx_buffer ?f)[2 := CONF_ACK]"
  let ?c = "sent IPCP 0 ?ack (?g\<lparr>ahdlc_rx_buffer := ?buf\<rparr>)"
  have h: "holds_packet ?f ?req"
    using r(3) frame_length by (intro rx_frame_holds) simp_all
  then have h2: "holds_packet ?g ?req"
    by (simp add: emit_def cong: holds_packet_buffer)
  have get: "rx_read ?f 2 = Some CONF_REQ" "rx_read16 ?f 4 = Some 10" "rx_read ?f 6 = Some IPCP_IPADDRESS"
    "rx_read_addr ?f 8 = Some [0, 0, 0, 0]"
    using packet_get [OF h, of 2] packet_get [OF h, of 4] packet_get [OF h, of 5] packet_get [OF h, of 6]
      packet_get [OF h, of 8] packet_get [OF h, of 9] packet_get [OF h, of 10] packet_get [OF h, of 11]
    by (simp_all add: ipcp_request_def rx_read16_def rx_read_addr_def)
  have put: "rx_write 2 CONF_ACK ?g = Some (?g\<lparr>ahdlc_rx_buffer := ?buf\<rparr>)"
    "holds_packet (?g\<lparr>ahdlc_rx_buffer := ?buf\<rparr>) ?ack"
    using packet_put [OF h2, of 2 CONF_ACK] by (simp_all add: emit_def)
  have slice: "rx_slice (?g\<lparr>ahdlc_rx_buffer := ?buf\<rparr>) 2 10 = Some ?ack"
    using packet_slice [OF put(2)] by simp
  have flags: "hdlc_frame IPCP (ahdlc_flags ?f) ?ack = hdlc_frame IPCP 0 ?ack"
    using r by (intro hdlc_frame_plain) (simp_all add: flag_simps)
  have "ppp_upcall ?f IPCP 2 10 = Some ?c"
    using r(4) get put(1) slice flags ipcp_request_scanned [OF h]
    by (simp add: ppp_upcall_def r(5) ipcp_rx_def ipcp_conf_req_def ppp_tx_sends sent_def emit_def)
  moreover have "length (ahdlc_rx_buffer ?c) = PPP_RX_BUFFER_SIZE"
    using h by (simp add: holds_packet_def sent_def)
  ultimately show ?thesis
    using r frame_length frame_step [OF assms, of IPCP ?req flags ?c rest]
    by (intro exI [of _ "ahdlc_rx_ready (?c\<lparr>ahdlc_tx_offline := 0\<rparr>)"])
      (simp add: sent_def emit_def, simp add: link_view_def sent_def emit_def)
qed

lemma ipcp_ack_frame:
  assumes "link_ready r"
  shows "\<exists>r'. receive_loop ppp_upcall (hdlc_frame IPCP flags (ipcp_request CONF_ACK ident) @ rest) r =
      receive_loop ppp_upcall rest r' \<and> link_quiet r' \<and>
    (\<forall>ls lr lp is ir ip pid nd la. link_view r = (ls, lr, lp, is, ir, ip, pid, nd, la) \<longrightarrow>
      link_view r' = (ls, lr, lp, is OR IPCP_TX_UP, ir, ip, pid, nd, la)) \<and>
    ppp_out r' = ppp_out r"
proof -
  note r = link_ready_flags [OF assms]
  let ?f = "rx_frame IPCP flags (ipcp_request CONF_ACK ident) r"
  let ?c = "?f\<lparr>ipcp_state := ipcp_state r OR IPCP_TX_UP\<rparr>"
  have h: "holds_packet ?f (ipcp_request CONF_ACK ident)"
    using r(3) frame_length by (intro rx_frame_holds) simp_all
  have "rx_read ?f 2 = Some CONF_ACK" "rx_read16 ?f 4 = Some 10"
    using packet_get [OF h, of 2] packet_get [OF h, of 4] packet_get [OF h, of 5]
    by (simp_all add: ipcp_request_def rx_read16_def)
  then have "ppp_upcall ?f IPCP 2 (of_nat (length (ipcp_request CONF_ACK ident))) = Some ?c"
    by (simp add: ppp_upcall_def r(5) ipcp_rx_def CONF_ACK_def CONF_REQ_def)
  moreover have "length (ahdlc_rx_buffer ?c) = PPP_RX_BUFFER_SIZE"
    using h by (simp add: holds_packet_def)
  ultimately show ?thesis
    using r frame_length frame_step [OF assms, of IPCP "ipcp_request CONF_ACK ident" flags ?c rest]
    by (intro exI [of _ "ahdlc_rx_ready (?c\<lparr>ahdlc_tx_offline := 0\<rparr>)"]) (simp, simp add: link_view_def)
qed

subsection \<open>Polls\<close>

definition line_input :: "int \<Rightarrow> bytes \<Rightarrow> poll_input" where
  "line_input t chars = \<lparr>pl_chars = chars, pl_lcp_now = t, pl_lcp_now' = t, pl_ipcp_now = t, pl_ipcp_now' = t\<rparr>"

text \<open>The characters put on the line between two contexts of a daemon.\<close>

definition new_chars :: "ppp_context \<Rightarrow> ppp_context \<Rightarrow> bytes" where
  "new_chars ctx ctx' = line_chars (drop (length (ppp_out ctx)) (ppp_out ctx'))"

lemma line_chars_puts [simp]: "line_chars (map LinePut cs) = cs"
  by (induction cs) simp_all

lemma new_charsI: "ppp_out ctx' = ppp_out ctx @ es \<Longrightarrow> new_chars ctx ctx' = line_chars es"
  by (simp add: new_chars_def)

text \<open>The context in which \<open>ppp_poll\<close> starts to take characters.\<close>

definition poll_start :: "ppp_context \<Rightarrow> ppp_context" where
  "poll_start ctx = ctx\<lparr>ip_len := 0, ip_no_data_time := ip_no_data_time ctx + 1\<rparr>"

lemma poll_start_ready:
  "link_ready r \<Longrightarrow> link_ready (poll_start r)" "link_quiet r \<Longrightarrow> link_quiet (poll_start r)"
  "ppp_out (poll_start r) = ppp_out r"
  "link_view r = (ls, lr, lp, is, ir, ip, pid, nd, la) \<Longrightarrow> link_view (poll_start r) = (ls, lr, lp, is, ir, ip, pid, nd + 1, la)"
  by (simp_all add: link_quiet_def link_ready_def rx_idle_def rx_open_def poll_start_def link_view_def)

lemma ppp_poll_ready:
  assumes "link_ready r" "link_view r = (ls, lr, lp, is, ir, ip, pid, nd, la)" "unat nd < PPP_IP_TIMEOUT"
    and "receive_loop ppp_upcall chars (poll_start r) = Some ([], r')"
  shows "ppp_poll (line_input t chars) r = map_option (Pair []) (ppp_negotiate (line_input t chars) r')"
proof -
  have "unat (nd + 1) \<le> PPP_IP_TIMEOUT"
    using assms(3) by (simp add: PPP_IP_TIMEOUT_def unat_word_ariths)
  with assms show ?thesis
    by (auto simp: ppp_poll_def Let_def poll_start_def link_view_def line_input_def link_ready_def not_less map_option_case
        split: Option.bind_splits)
qed

lemma lcp_bits:
  "w AND LCP_TX_UP = 0 \<longleftrightarrow> \<not> bit w 0" "w AND LCP_RX_UP = 0 \<longleftrightarrow> \<not> bit w 1"
  "w AND LCP_RX_AUTH = 0 \<longleftrightarrow> \<not> bit w 4" "w AND LCP_TX_TIMEOUT = 0 \<longleftrightarrow> \<not> bit w 7"
  "w AND IPCP_TX_UP = 0 \<longleftrightarrow> \<not> bit w 0" "w AND IPCP_RX_UP = 0 \<longleftrightarrow> \<not> bit w 1"
  "w AND IPCP_TX_TIMEOUT = 0 \<longleftrightarrow> \<not> bit w 3"
  using and_exp_bit [of w 0] and_exp_bit [of w 1] and_exp_bit [of w 3] and_exp_bit [of w 4] and_exp_bit [of w 7]
  by (simp_all add: LCP_TX_UP_def LCP_RX_UP_def LCP_RX_AUTH_def LCP_TX_TIMEOUT_def IPCP_TX_UP_def IPCP_RX_UP_def IPCP_TX_TIMEOUT_def)

lemma negotiate_lcp:
  assumes "link_quiet r" "link_view r = (ls, lr, lp, is, ir, ip, pid, nd, la)"
    and "ls AND LCP_TX_UP = 0" "ls AND LCP_TX_TIMEOUT = 0" "is AND IPCP_TX_UP = 0" "t - lp > LCP_TIMEOUT" "lr < LCP_RETRY_COUNT"
  shows "\<exists>r'. ppp_negotiate (line_input t chars) r = Some r' \<and> link_ready r' \<and>
    link_view r' = (ls, lr + 1, t, is, ir, ip, pid, nd, la) \<and>
    ppp_out r' = ppp_out r @ map LinePut (hdlc_frame LCP 0 (lcp_request CONF_REQ pid))"
proof -
  note r = link_ready_flags [OF link_quiet_ready [OF assms(1)]]
  let ?p = "r\<lparr>lcp_prev_seconds := t, ip_buf := write_bytes (ip_buf r) 0 (lcp_request CONF_REQ pid)\<rparr>"
  let ?r = "(sent LCP 0 (lcp_request CONF_REQ pid) ?p)\<lparr>lcp_retry := lr + 1\<rparr>"
  have retry: "\<not> LCP_RETRY_COUNT < lr + 1"
    using assms(7) by (simp add: LCP_RETRY_COUNT_def word_less_nat_alt unat_word_ariths)
  have "ppp_negotiate (line_input t chars) r = Some ?r"
    using assms(2-) r retry hdlc_frame_LCP [of "ahdlc_flags r"]
    by (simp add: Let_def ppp_negotiate_def ipcp_up_def lcp_task_def lcp_up_def line_input_def link_view_def request_packet_lcp ppp_tx_sends sent_def)
  moreover have "link_ready ?r"
    using assms(1) by (simp add: link_quiet_def link_ready_def rx_idle_def rx_open_def sent_def PPP_RX_BUFFER_SIZE_def)
  ultimately show ?thesis
    using assms(2) by (intro exI [of _ ?r]) (simp add: link_view_def sent_def)
qed

lemma negotiate_ipcp:
  assumes "link_quiet r" "link_view r = (ls, lr, lp, is, ir, ip, pid, nd, [0, 0, 0, 0])"
    and "ls AND LCP_TX_UP \<noteq> 0" "ls AND LCP_RX_UP \<noteq> 0" "ls AND LCP_RX_AUTH = 0"
    and "is AND IPCP_TX_UP = 0" "is AND IPCP_TX_TIMEOUT = 0" "t - ip > IPCP_TIMEOUT" "ir < IPCP_RETRY_COUNT"
  shows "\<exists>r'. ppp_negotiate (line_input t chars) r = Some r' \<and> link_ready r' \<and>
    link_view r' = (ls, lr, lp, is, ir + 1, t, pid, nd, [0, 0, 0, 0]) \<and>
    ppp_out r' = ppp_out r @ map LinePut (hdlc_frame IPCP 0 (ipcp_request CONF_REQ pid))"
proof -
  note r = link_ready_flags [OF link_quiet_ready [OF assms(1)]]
  let ?p = "r\<lparr>ipcp_prev_seconds := t, ip_buf := write_bytes (ip_buf r) 0 (ipcp_request CONF_REQ pid)\<rparr>"
  let ?r = "(sent IPCP 0 (ipcp_request CONF_REQ pid) ?p)\<lparr>ipcp_retry := ir + 1\<rparr>"
  have retry: "\<not> IPCP_RETRY_COUNT < ir + 1"
    using assms(9) by (simp add: IPCP_RETRY_COUNT_def word_less_nat_alt unat_word_ariths)
  have "ppp_negotiate (line_input t chars) r = Some ?r"
    using assms(2-) r retry hdlc_frame_plain [of "ahdlc_flags r"]
    by (simp add: Let_def ppp_negotiate_def ipcp_up_def lcp_task_def lcp_up_def ipcp_task_def line_input_def link_view_def request_packet_ipcp
        ppp_tx_sends sent_def)
  moreover have "link_ready ?r"
    using assms(1) by (simp add: link_quiet_def link_ready_def rx_idle_def rx_open_def sent_def PPP_RX_BUFFER_SIZE_def)
  ultimately show ?thesis
    using assms(2) by (intro exI [of _ ?r]) (simp add: link_view_def sent_def)
qed

lemma negotiate_up:
  assumes "link_view r = (ls, lr, lp, is, ir, ip, pid, nd, la)" "is AND IPCP_TX_UP \<noteq> 0" "is AND IPCP_RX_UP \<noteq> 0"
    and "t - lp \<le> LCP_ECHO_INTERVAL"
  shows "ppp_negotiate (line_input t chars) r = Some r"
  using assms by (simp add: ppp_negotiate_def ipcp_up_def lcp_echo_request_def line_input_def link_view_def)

subsection \<open>The exchange\<close>

text \<open>
  Two daemons on a line take turns: each polls with the characters left over and those the other has sent
  since its last poll.
\<close>

fun ppp_exchange :: "nat \<Rightarrow> int \<Rightarrow> bytes \<times> ppp_context \<Rightarrow> bytes \<times> ppp_context \<Rightarrow>
    ((bytes \<times> ppp_context) \<times> (bytes \<times> ppp_context)) option" where
  "ppp_exchange 0 t a b = Some (a, b)"
| "ppp_exchange (Suc n) t (to_a, a) (to_b, b) =
     do {
       (left_a, a') \<leftarrow> ppp_poll (line_input t to_a) a;
       (left_b, b') \<leftarrow> ppp_poll (line_input t (to_b @ new_chars a a')) b;
       ppp_exchange n t (left_a @ new_chars b b', a') (left_b, b')
     }"

definition link_fresh :: "ppp_context \<Rightarrow> bool" where
  "link_fresh ctx \<longleftrightarrow> link_quiet ctx \<and> (\<exists>lp. link_view ctx = (0, 0, lp, 0, 0, 0, 0, 0, [0, 0, 0, 0]))"

lemmas up_states = LCP_TX_UP_def LCP_RX_UP_def IPCP_TX_UP_def IPCP_RX_UP_def

lemma up_tests:
  "(0 :: u8) AND LCP_TX_UP = 0" "(2 :: u8) AND LCP_TX_UP = 0" "(0 :: u8) AND LCP_TX_TIMEOUT = 0" "(2 :: u8) AND LCP_TX_TIMEOUT = 0"
  "(3 :: u8) AND LCP_TX_UP \<noteq> 0" "(3 :: u8) AND LCP_RX_UP \<noteq> 0" "(3 :: u8) AND LCP_RX_AUTH = 0"
  "(0 :: u8) AND IPCP_TX_UP = 0" "(2 :: u8) AND IPCP_TX_UP = 0" "(0 :: u8) AND IPCP_TX_TIMEOUT = 0" "(2 :: u8) AND IPCP_TX_TIMEOUT = 0"
  "(3 :: u8) AND IPCP_TX_UP \<noteq> 0" "(3 :: u8) AND IPCP_RX_UP \<noteq> 0" "(0 :: u8) < LCP_RETRY_COUNT" "(0 :: u8) < IPCP_RETRY_COUNT"
  by (simp_all add: LCP_TX_UP_def LCP_RX_UP_def LCP_RX_AUTH_def LCP_TX_TIMEOUT_def IPCP_TX_UP_def IPCP_RX_UP_def
      IPCP_TX_TIMEOUT_def LCP_RETRY_COUNT_def IPCP_RETRY_COUNT_def)

abbreviation "lcp_frame code ident \<equiv> hdlc_frame LCP 0 (lcp_request code ident)"
abbreviation "ipcp_frame code ident \<equiv> hdlc_frame IPCP 0 (ipcp_request code ident)"

text \<open>Poll by poll: the daemon that begins, and the one that answers.\<close>

lemma poll_first:
  assumes "link_quiet a" "link_view a = (0, 0, lp, 0, 0, 0, 0, 0, [0, 0, 0, 0])" "LCP_TIMEOUT < t - lp"
  shows "\<exists>a'. ppp_poll (line_input t []) a = Some ([], a') \<and> link_ready a' \<and>
    link_view a' = (0, 1, t, 0, 0, 0, 0, 1, [0, 0, 0, 0]) \<and> new_chars a a' = lcp_frame CONF_REQ 0"
proof -
  note s = poll_start_ready(2) [OF assms(1)] poll_start_ready(4) [OF assms(2)]
  from negotiate_lcp [OF s, of t "[]"] assms(3) up_tests obtain a' where
    n: "ppp_negotiate (line_input t []) (poll_start a) = Some a'" "link_ready a'"
      "link_view a' = (0, 0 + 1, t, 0, 0, 0, 0, 0 + 1, [0, 0, 0, 0])"
      "ppp_out a' = ppp_out (poll_start a) @ map LinePut (lcp_frame CONF_REQ 0)"
    by blast
  moreover have "ppp_poll (line_input t []) a = Some ([], a')"
    using assms n(1) by (subst ppp_poll_ready [OF link_quiet_ready assms(2)]) (simp_all add: PPP_IP_TIMEOUT_def)
  ultimately show ?thesis
    by (simp add: new_charsI [of _ a] poll_start_ready(3))
qed

lemma poll_answer_lcp:
  assumes "link_quiet b" "link_view b = (0, 0, lp, 0, 0, 0, 0, 0, [0, 0, 0, 0])" "LCP_TIMEOUT < t - lp"
  shows "\<exists>b'. ppp_poll (line_input t (lcp_frame CONF_REQ 0)) b = Some ([], b') \<and> link_ready b' \<and>
    link_view b' = (2, 1, t, 0, 0, 0, 0, 1, [0, 0, 0, 0]) \<and>
    new_chars b b' = lcp_frame CONF_ACK 0 @ lcp_frame CONF_REQ 0"
proof -
  note s = poll_start_ready(2) [OF assms(1)] poll_start_ready(4) [OF assms(2)]
  from lcp_request_frame [of "poll_start b" 0 0 "[]"] s obtain r where r: "link_quiet r"
    "receive_loop ppp_upcall (lcp_frame CONF_REQ 0) (poll_start b) = Some ([], r)"
    "link_view r = (2, 0, lp, 0, 0, 0, 0, 1, [0, 0, 0, 0])"
    "ppp_out r = ppp_out b @ map LinePut (lcp_frame CONF_ACK 0)"
    by (auto simp: up_states poll_start_ready)
  from negotiate_lcp [OF r(1,3), of t "lcp_frame CONF_REQ 0"] assms(3) up_tests obtain b' where
    n: "ppp_negotiate (line_input t (lcp_frame CONF_REQ 0)) r = Some b'" "link_ready b'"
      "link_view b' = (2, 0 + 1, t, 0, 0, 0, 0, 1, [0, 0, 0, 0])"
      "ppp_out b' = ppp_out r @ map LinePut (lcp_frame CONF_REQ 0)"
    by blast
  moreover have "ppp_poll (line_input t (lcp_frame CONF_REQ 0)) b = Some ([], b')"
    using assms n(1) r(2) by (subst ppp_poll_ready [OF link_quiet_ready assms(2)]) (simp_all add: PPP_IP_TIMEOUT_def)
  ultimately show ?thesis
    using r(4) by (simp add: new_charsI [of _ b])
qed

lemma poll_acked_lcp:
  assumes "link_ready a" "link_view a = (0, 1, t, 0, 0, 0, 0, 1, [0, 0, 0, 0])" "IPCP_TIMEOUT < t"
  shows "\<exists>a'. ppp_poll (line_input t (lcp_frame CONF_ACK 0 @ lcp_frame CONF_REQ 0)) a = Some ([], a') \<and> link_ready a' \<and>
    link_view a' = (3, 1, t, 0, 1, t, 0, 2, [0, 0, 0, 0]) \<and>
    new_chars a a' = lcp_frame CONF_ACK 0 @ ipcp_frame CONF_REQ 0"
proof -
  let ?cs = "lcp_frame CONF_ACK 0 @ lcp_frame CONF_REQ 0"
  note s = poll_start_ready(1) [OF assms(1)] poll_start_ready(4) [OF assms(2)]
  from lcp_ack_frame [of "poll_start a" 0 0 "lcp_frame CONF_REQ 0"] s obtain q where q: "link_quiet q"
    "receive_loop ppp_upcall ?cs (poll_start a) = receive_loop ppp_upcall (lcp_frame CONF_REQ 0) q"
    "link_view q = (1, 1, t, 0, 0, 0, 0, 2, [0, 0, 0, 0])" "ppp_out q = ppp_out a"
    by (auto simp: up_states poll_start_ready)
  from lcp_request_frame [of q 0 0 "[]"] q obtain r where r: "link_quiet r"
    "receive_loop ppp_upcall ?cs (poll_start a) = Some ([], r)"
    "link_view r = (3, 1, t, 0, 0, 0, 0, 2, [0, 0, 0, 0])" "ppp_out r = ppp_out a @ map LinePut (lcp_frame CONF_ACK 0)"
    by (auto simp: up_states)
  from negotiate_ipcp [OF r(1,3), of t ?cs] assms(3) up_tests obtain a' where
    n: "ppp_negotiate (line_input t ?cs) r = Some a'" "link_ready a'"
      "link_view a' = (3, 1, t, 0, 0 + 1, t, 0, 2, [0, 0, 0, 0])"
      "ppp_out a' = ppp_out r @ map LinePut (ipcp_frame CONF_REQ 0)"
    by auto
  moreover have "ppp_poll (line_input t ?cs) a = Some ([], a')"
    using n(1) r(2) by (subst ppp_poll_ready [OF assms(1,2)]) (simp_all add: PPP_IP_TIMEOUT_def)
  ultimately show ?thesis
    using r(4) by (simp add: new_charsI [of _ a])
qed

lemma poll_answer_ipcp:
  assumes "link_ready b" "link_view b = (2, 1, t, 0, 0, 0, 0, 1, [0, 0, 0, 0])" "IPCP_TIMEOUT < t"
  shows "\<exists>b'. ppp_poll (line_input t (lcp_frame CONF_ACK 0 @ ipcp_frame CONF_REQ 0)) b = Some ([], b') \<and> link_ready b' \<and>
    link_view b' = (3, 1, t, 2, 1, t, 0, 2, [0, 0, 0, 0]) \<and>
    new_chars b b' = ipcp_frame CONF_ACK 0 @ ipcp_frame CONF_REQ 0"
proof -
  let ?cs = "lcp_frame CONF_ACK 0 @ ipcp_frame CONF_REQ 0"
  note s = poll_start_ready(1) [OF assms(1)] poll_start_ready(4) [OF assms(2)]
  from lcp_ack_frame [of "poll_start b" 0 0 "ipcp_frame CONF_REQ 0"] s obtain q where q: "link_quiet q"
    "receive_loop ppp_upcall ?cs (poll_start b) = receive_loop ppp_upcall (ipcp_frame CONF_REQ 0) q"
    "link_view q = (3, 1, t, 0, 0, 0, 0, 2, [0, 0, 0, 0])" "ppp_out q = ppp_out b"
    by (auto simp: up_states poll_start_ready)
  from ipcp_request_frame [of q 0 0 "[]"] q obtain r where r: "link_quiet r"
    "receive_loop ppp_upcall ?cs (poll_start b) = Some ([], r)"
    "link_view r = (3, 1, t, 2, 0, 0, 0, 2, [0, 0, 0, 0])"
    "ppp_out r = ppp_out b @ [NetSetPeerAddr [0, 0, 0, 0]] @ map LinePut (ipcp_frame CONF_ACK 0)"
    by (auto simp: up_states)
  from negotiate_ipcp [OF r(1,3), of t ?cs] assms(3) up_tests obtain b' where
    n: "ppp_negotiate (line_input t ?cs) r = Some b'" "link_ready b'"
      "link_view b' = (3, 1, t, 2, 0 + 1, t, 0, 2, [0, 0, 0, 0])"
      "ppp_out b' = ppp_out r @ map LinePut (ipcp_frame CONF_REQ 0)"
    by auto
  moreover have "ppp_poll (line_input t ?cs) b = Some ([], b')"
    using n(1) r(2) by (subst ppp_poll_ready [OF assms(1,2)]) (simp_all add: PPP_IP_TIMEOUT_def)
  ultimately show ?thesis
    using r(4) by (simp add: new_charsI [of _ b])
qed

lemma poll_acked_ipcp:
  assumes "link_ready a" "link_view a = (3, 1, t, 0, 1, t, 0, 2, [0, 0, 0, 0])"
  shows "\<exists>a'. ppp_poll (line_input t (ipcp_frame CONF_ACK 0 @ ipcp_frame CONF_REQ 0)) a = Some ([], a') \<and> link_ready a' \<and>
    link_view a' = (3, 1, t, 3, 1, t, 0, 3, [0, 0, 0, 0]) \<and> new_chars a a' = ipcp_frame CONF_ACK 0"
proof -
  let ?cs = "ipcp_frame CONF_ACK 0 @ ipcp_frame CONF_REQ 0"
  note s = poll_start_ready(1) [OF assms(1)] poll_start_ready(4) [OF assms(2)]
  from ipcp_ack_frame [of "poll_start a" 0 0 "ipcp_frame CONF_REQ 0"] s obtain q where q: "link_quiet q"
    "receive_loop ppp_upcall ?cs (poll_start a) = receive_loop ppp_upcall (ipcp_frame CONF_REQ 0) q"
    "link_view q = (3, 1, t, 1, 1, t, 0, 3, [0, 0, 0, 0])" "ppp_out q = ppp_out a"
    by (auto simp: up_states poll_start_ready)
  from ipcp_request_frame [of q 0 0 "[]"] q obtain r where r: "link_quiet r"
    "receive_loop ppp_upcall ?cs (poll_start a) = Some ([], r)"
    "link_view r = (3, 1, t, 3, 1, t, 0, 3, [0, 0, 0, 0])"
    "ppp_out r = ppp_out a @ [NetSetPeerAddr [0, 0, 0, 0]] @ map LinePut (ipcp_frame CONF_ACK 0)"
    by (auto simp: up_states)
  have "ppp_poll (line_input t ?cs) a = Some ([], r)"
    using r(2) negotiate_up [OF r(3), of t ?cs] up_tests
    by (subst ppp_poll_ready [OF assms(1,2)]) (simp_all add: PPP_IP_TIMEOUT_def LCP_ECHO_INTERVAL_def)
  with r show ?thesis
    by (simp add: new_charsI [of _ a])
qed

lemma poll_last:
  assumes "link_ready b" "link_view b = (3, 1, t, 2, 1, t, 0, 2, [0, 0, 0, 0])"
  shows "\<exists>b'. ppp_poll (line_input t (ipcp_frame CONF_ACK 0)) b = Some ([], b') \<and> link_ready b' \<and>
    link_view b' = (3, 1, t, 3, 1, t, 0, 3, [0, 0, 0, 0]) \<and> new_chars b b' = []"
proof -
  note s = poll_start_ready(1) [OF assms(1)] poll_start_ready(4) [OF assms(2)]
  from ipcp_ack_frame [of "poll_start b" 0 0 "[]"] s obtain r where r: "link_quiet r"
    "receive_loop ppp_upcall (ipcp_frame CONF_ACK 0) (poll_start b) = Some ([], r)"
    "link_view r = (3, 1, t, 3, 1, t, 0, 3, [0, 0, 0, 0])" "ppp_out r = ppp_out b"
    by (auto simp: up_states poll_start_ready)
  have "ppp_poll (line_input t (ipcp_frame CONF_ACK 0)) b = Some ([], r)"
    using r(2) negotiate_up [OF r(3), of t "ipcp_frame CONF_ACK 0"] up_tests
    by (subst ppp_poll_ready [OF assms(1,2)]) (simp_all add: PPP_IP_TIMEOUT_def LCP_ECHO_INTERVAL_def)
  with r show ?thesis
    by (simp add: new_chars_def)
qed

lemma exchange_up:
  assumes "link_fresh a" "link_fresh b" "LCP_TIMEOUT < t - lcp_prev_seconds a" "LCP_TIMEOUT < t - lcp_prev_seconds b" "IPCP_TIMEOUT < t"
  shows "\<exists>a' b'. ppp_exchange 3 t ([], a) ([], b) = Some (([], a'), ([], b')) \<and> link_ready a' \<and> link_ready b' \<and>
    link_view a' = (3, 1, t, 3, 1, t, 0, 3, [0, 0, 0, 0]) \<and> link_view b' = (3, 1, t, 3, 1, t, 0, 3, [0, 0, 0, 0])"
proof -
  have a: "link_quiet a" "link_view a = (0, 0, lcp_prev_seconds a, 0, 0, 0, 0, 0, [0, 0, 0, 0])"
    and b: "link_quiet b" "link_view b = (0, 0, lcp_prev_seconds b, 0, 0, 0, 0, 0, [0, 0, 0, 0])"
    using assms(1,2) by (auto simp: link_fresh_def link_view_def)
  from poll_first [OF a assms(3)] obtain a1 where a1: "ppp_poll (line_input t []) a = Some ([], a1)" "link_ready a1"
    "link_view a1 = (0, 1, t, 0, 0, 0, 0, 1, [0, 0, 0, 0])" "new_chars a a1 = lcp_frame CONF_REQ 0"
    by blast
  from poll_answer_lcp [OF b assms(4)] obtain b1 where b1: "ppp_poll (line_input t (lcp_frame CONF_REQ 0)) b = Some ([], b1)"
    "link_ready b1" "link_view b1 = (2, 1, t, 0, 0, 0, 0, 1, [0, 0, 0, 0])"
    "new_chars b b1 = lcp_frame CONF_ACK 0 @ lcp_frame CONF_REQ 0"
    by blast
  from poll_acked_lcp [OF a1(2,3) assms(5)] obtain a2 where
    a2: "ppp_poll (line_input t (lcp_frame CONF_ACK 0 @ lcp_frame CONF_REQ 0)) a1 = Some ([], a2)" "link_ready a2"
    "link_view a2 = (3, 1, t, 0, 1, t, 0, 2, [0, 0, 0, 0])" "new_chars a1 a2 = lcp_frame CONF_ACK 0 @ ipcp_frame CONF_REQ 0"
    by blast
  from poll_answer_ipcp [OF b1(2,3) assms(5)] obtain b2 where
    b2: "ppp_poll (line_input t (lcp_frame CONF_ACK 0 @ ipcp_frame CONF_REQ 0)) b1 = Some ([], b2)" "link_ready b2"
    "link_view b2 = (3, 1, t, 2, 1, t, 0, 2, [0, 0, 0, 0])" "new_chars b1 b2 = ipcp_frame CONF_ACK 0 @ ipcp_frame CONF_REQ 0"
    by blast
  from poll_acked_ipcp [OF a2(2,3)] obtain a3 where
    a3: "ppp_poll (line_input t (ipcp_frame CONF_ACK 0 @ ipcp_frame CONF_REQ 0)) a2 = Some ([], a3)" "link_ready a3"
    "link_view a3 = (3, 1, t, 3, 1, t, 0, 3, [0, 0, 0, 0])" "new_chars a2 a3 = ipcp_frame CONF_ACK 0"
    by blast
  from poll_last [OF b2(2,3)] obtain b3 where
    b3: "ppp_poll (line_input t (ipcp_frame CONF_ACK 0)) b2 = Some ([], b3)" "link_ready b3"
    "link_view b3 = (3, 1, t, 3, 1, t, 0, 3, [0, 0, 0, 0])" "new_chars b2 b3 = []"
    by blast
  show ?thesis
    using a1 a2 a3 b1 b2 b3 by (simp add: numeral_3_eq_3)
qed

end
