(* ===== verification/PppOptions.thy ===== *)
theory PppOptions
  imports PppLink
begin

unbundle bit_operations_syntax

section \<open>The options of a request\<close>

text \<open>
  What the scan for unknown options does with a request whose options are well formed: it leaves the request
  alone, or moves the unknown options together, behind the request's header, and sends them back.
\<close>


text \<open>Options in a packet, and the scan on them.\<close>

definition opt_bytes :: "u8 \<times> bytes \<Rightarrow> bytes" where
  "opt_bytes = (\<lambda>(code, body). code # of_nat (length body + 2) # body)"

definition well_formed_option :: "u8 \<times> bytes \<Rightarrow> bool" where
  "well_formed_option = (\<lambda>(code, body). length body \<le> 253)"

lemma packet_length: "holds_packet ctx data \<Longrightarrow> length (ahdlc_rx_buffer ctx) = PPP_RX_BUFFER_SIZE"
  by (simp add: holds_packet_def)

lemma packet_prefix:
  assumes "holds_packet ctx (a @ b)"
  shows "holds_packet ctx a"
proof -
  have "take (length a) (take (length (a @ b)) (drop 2 (ahdlc_rx_buffer ctx))) = take (length a) (a @ b)"
    using assms by (simp only: holds_packet_def)
  then show ?thesis
    using assms by (simp add: holds_packet_def min_absorb1)
qed

text \<open>Copying down: the gap before the copied bytes ends up behind them.\<close>

lemma copy_down:
  assumes "holds_packet ctx (a @ gap @ b @ c)"
  shows "\<exists>gap' buf. length gap' = length gap \<and>
    copy_bytes (length b) (2 + length a + length gap) (2 + length a) ctx = Some (ctx\<lparr>ahdlc_rx_buffer := buf\<rparr>) \<and>
    holds_packet (ctx\<lparr>ahdlc_rx_buffer := buf\<rparr>) (a @ b @ gap' @ c)"
  using assms
proof (induction b arbitrary: ctx a gap)
  case Nil
  then show ?case
    by (intro exI [of _ gap] exI [of _ "ahdlc_rx_buffer ctx"]) simp
next
  case (Cons x b)
  let ?data = "a @ gap @ (x # b) @ c"
  let ?ctx = "ctx\<lparr>ahdlc_rx_buffer := (ahdlc_rx_buffer ctx)[2 + length a := x]\<rparr>"
  have read: "rx_read ctx (2 + length a + length gap) = Some x"
    using packet_read [OF Cons.prems, of "length a + length gap"] by (simp add: nth_append add.assoc)
  have put: "rx_write (2 + length a) x ctx = Some ?ctx" and holds: "holds_packet ?ctx (?data[length a := x])"
    using packet_write [OF Cons.prems, of "length a" x] by simp_all
  have "?data[length a := x] = (a @ [x]) @ tl (gap @ [x]) @ b @ c"
    by (cases gap) (simp_all add: list_update_append)
  with holds have "holds_packet ?ctx ((a @ [x]) @ tl (gap @ [x]) @ b @ c)"
    by simp
  from Cons.IH [OF this] obtain gap' buf where IH: "length gap' = length gap"
    "copy_bytes (length b) (2 + length a + length gap + 1) (2 + length a + 1) ?ctx = Some (?ctx\<lparr>ahdlc_rx_buffer := buf\<rparr>)"
    "holds_packet (?ctx\<lparr>ahdlc_rx_buffer := buf\<rparr>) ((a @ [x]) @ b @ gap' @ c)"
    by auto
  show ?case
  proof (intro exI conjI)
    show "copy_bytes (length (x # b)) (2 + length a + length gap) (2 + length a) ctx = Some (ctx\<lparr>ahdlc_rx_buffer := buf\<rparr>)"
      using read put IH(2) by simp
    show "holds_packet (ctx\<lparr>ahdlc_rx_buffer := buf\<rparr>) (a @ (x # b) @ gap' @ c)"
      using IH(3) by simp
  qed (rule IH(1))
qed

lemma opt_bytes_length [simp]: "length (opt_bytes (code, body)) = length body + 2"
  by (simp add: opt_bytes_def)

lemma scan_end: "scan_loop codes i i t bad ctx = Some (bad, t, ctx)"
  by (subst scan_loop.simps) simp

lemma scan_known:
  assumes "rx_read ctx i = Some c" "rx_read ctx (i + 1) = Some l" "c \<in> set codes" "i < stop"
  shows "scan_loop codes stop i t bad ctx = scan_loop codes stop (i + unat l) t bad ctx"
  using assms by (subst scan_loop.simps) simp

lemma scan_unknown:
  assumes "rx_read ctx i = Some c" "c \<notin> set codes" "i < stop"
    and "copy_bytes (Suc (Suc k)) i t ctx = Some ctx'" "2 \<le> unat l" "k = unat l - 2"
    and "\<And>ctx1. rx_write t c ctx = Some ctx1 \<Longrightarrow> rx_read ctx1 (i + 1) = Some l"
  shows "scan_loop codes stop i t bad ctx = scan_loop codes stop (i + unat l) (t + unat l) True ctx'"
proof -
  from assms(1,4) obtain ctx1 where 1: "rx_write t c ctx = Some ctx1"
    and rest: "copy_bytes (Suc k) (i + 1) (t + 1) ctx1 = Some ctx'"
    by (auto split: Option.bind_splits)
  with assms(7) obtain ctx2 where "rx_write (t + 1) l ctx1 = Some ctx2" "copy_bytes k (i + 2) (t + 2) ctx2 = Some ctx'"
    by (auto split: Option.bind_splits)
  moreover obtain m where "unat l = Suc (Suc m)"
    using assms(5) by (metis add_2_eq_Suc le_Suc_ex)
  ultimately show ?thesis
    using 1 assms by (subst scan_loop.simps) simp
qed

lemma rx_buffer_unchanged: "ctx\<lparr>ahdlc_rx_buffer := ahdlc_rx_buffer ctx\<rparr> = ctx"
  by (cases ctx) simp

lemma scan_options:
  assumes "\<forall>opt \<in> set opts. well_formed_option opt" "holds_packet ctx (a @ gap @ concat (map opt_bytes opts))"
  shows "\<exists>gap' buf. scan_loop codes (2 + length a + length gap + length (concat (map opt_bytes opts))) (2 + length a + length gap)
      (2 + length a) bad ctx =
    Some (bad \<or> (\<exists>opt \<in> set opts. fst opt \<notin> set codes),
      2 + length a + length (concat (map opt_bytes (filter (\<lambda>opt. fst opt \<notin> set codes) opts))), ctx\<lparr>ahdlc_rx_buffer := buf\<rparr>) \<and>
    holds_packet (ctx\<lparr>ahdlc_rx_buffer := buf\<rparr>) (a @ concat (map opt_bytes (filter (\<lambda>opt. fst opt \<notin> set codes) opts)) @ gap')"
  using assms
proof (induction opts arbitrary: a gap bad ctx)
  case Nil
  then show ?case
    by (intro exI [of _ gap] exI [of _ "ahdlc_rx_buffer ctx"], unfold rx_buffer_unchanged) (simp add: scan_end)
next
  case (Cons opt opts)
  obtain code body where opt: "opt = (code, body)"
    by (cases opt)
  let ?rest = "concat (map opt_bytes opts)" and ?i = "2 + length a + length gap" and ?len = "of_nat (length body + 2) :: u8"
  have len: "unat ?len = length body + 2"
    by (rule unat_of_nat_u8) (use Cons.prems(1) in \<open>simp add: opt well_formed_option_def\<close>)
  have wf: "\<forall>opt \<in> set opts. well_formed_option opt"
    using Cons.prems(1) by simp
  have holds: "holds_packet ctx (a @ gap @ opt_bytes opt @ ?rest)"
    using Cons.prems(2) by simp
  have get: "rx_read ctx ?i = Some code" "rx_read ctx (?i + 1) = Some ?len"
    using packet_read [OF holds, of "length a + length gap"] packet_read [OF holds, of "length a + length gap + 1"]
    by (simp_all add: nth_append opt opt_bytes_def add.assoc)
  show ?case
  proof (cases "code \<in> set codes")
    case True
    from holds have "holds_packet ctx (a @ (gap @ opt_bytes opt) @ ?rest)"
      by simp
    from Cons.IH [OF wf this, of bad] True show ?thesis
      using scan_known [OF get True, of "?i + (length body + 2) + length ?rest" "2 + length a" bad] len
      by (simp add: opt add.assoc)
  next
    case False
    from copy_down [OF holds] obtain gap1 buf1 where c: "length gap1 = length gap"
      "copy_bytes (length (opt_bytes opt)) ?i (2 + length a) ctx = Some (ctx\<lparr>ahdlc_rx_buffer := buf1\<rparr>)"
      "holds_packet (ctx\<lparr>ahdlc_rx_buffer := buf1\<rparr>) (a @ opt_bytes opt @ gap1 @ ?rest)"
      by blast
    have "rx_read ctx1 (?i + 1) = Some ?len" if "rx_write (2 + length a) code ctx = Some ctx1" for ctx1
      using that get by (auto simp: rx_write_def rx_read_def split: if_splits)
    with c get(1) False len have step: "scan_loop codes stop ?i (2 + length a) bad ctx =
        scan_loop codes stop (?i + unat ?len) (2 + length a + unat ?len) True (ctx\<lparr>ahdlc_rx_buffer := buf1\<rparr>)" if "?i < stop" for stop
      using that by (intro scan_unknown [where k = "length body"]) (simp_all add: opt)
    from c(3) have "holds_packet (ctx\<lparr>ahdlc_rx_buffer := buf1\<rparr>) ((a @ opt_bytes opt) @ gap1 @ ?rest)"
      by simp
    from Cons.IH [OF wf this, of True] False show ?thesis
      using step [of "?i + (length body + 2) + length ?rest"] len c(1) by (simp add: opt add.assoc) (simp add: ac_simps)
  qed
qed

text \<open>A scan that finds no unknown option changes nothing.\<close>

lemma scan_all_known:
  assumes "\<forall>opt \<in> set opts. well_formed_option opt \<and> fst opt \<in> set codes" "holds_packet ctx (a @ concat (map opt_bytes opts))"
  shows "scan_loop codes (2 + length a + length (concat (map opt_bytes opts))) (2 + length a) t bad ctx = Some (bad, t, ctx)"
  using assms
proof (induction opts arbitrary: a)
  case Nil
  then show ?case
    by (simp add: scan_end)
next
  case (Cons opt opts)
  obtain code body where opt: "opt = (code, body)"
    by (cases opt)
  let ?rest = "concat (map opt_bytes opts)" and ?i = "2 + length a" and ?len = "of_nat (length body + 2) :: u8"
  have len: "unat ?len = length body + 2"
    by (rule unat_of_nat_u8) (use Cons.prems(1) in \<open>simp add: opt well_formed_option_def\<close>)
  have holds: "holds_packet ctx ((a @ opt_bytes opt) @ ?rest)"
    using Cons.prems(2) by simp
  have get: "rx_read ctx ?i = Some code" "rx_read ctx (?i + 1) = Some ?len"
    using packet_read [OF holds, of "length a"] packet_read [OF holds, of "length a + 1"]
    by (simp_all add: nth_append opt opt_bytes_def add.assoc)
  have known: "code \<in> set codes"
    using Cons.prems(1) by (simp add: opt)
  from Cons.IH [OF _ holds] Cons.prems(1) show ?case
    using scan_known [OF get known, of "?i + (length body + 2) + length ?rest" t bad] len
    by (simp add: opt add.assoc)
qed

text \<open>The header of a rejection.\<close>

lemma put_reply_header:
  assumes "holds_packet ctx (x # ident # y # z # data)"
  obtains c1 c2 buf where "rx_write 2 a ctx = Some c1" "rx_write 4 b c1 = Some c2"
    "rx_write 5 c c2 = Some (ctx\<lparr>ahdlc_rx_buffer := buf\<rparr>)" "holds_packet (ctx\<lparr>ahdlc_rx_buffer := buf\<rparr>) (a # ident # b # c # data)"
proof -
  let ?upd = "\<lambda>k c ctx. ctx\<lparr>ahdlc_rx_buffer := (ahdlc_rx_buffer ctx)[k := c]\<rparr>"
  have 1: "rx_write 2 a ctx = Some (?upd 2 a ctx)" "holds_packet (?upd 2 a ctx) (a # ident # y # z # data)"
    using packet_put [OF assms, of 2 a] by simp_all
  have 2: "rx_write 4 b (?upd 2 a ctx) = Some (?upd 4 b (?upd 2 a ctx))"
      "holds_packet (?upd 4 b (?upd 2 a ctx)) (a # ident # b # z # data)"
    using packet_put [OF 1(2), of 4 b] by (simp_all add: numeral_2_eq_2)
  have 3: "rx_write 5 c (?upd 4 b (?upd 2 a ctx)) = Some (?upd 5 c (?upd 4 b (?upd 2 a ctx)))"
      "holds_packet (?upd 5 c (?upd 4 b (?upd 2 a ctx))) (a # ident # b # c # data)"
    using packet_put [OF 2(2), of 5 c] by (simp_all add: numeral_3_eq_3)
  from 1(1) 2(1) 3 show thesis
    by (intro that) simp_all
qed

section \<open>Property\<close>

text \<open>C33: Unknown options. A request of well-formed options is left alone if every option is known; otherwise the
  daemon sends one CONF_REJ with the request's identifier and exactly its unknown options, in their order.\<close>

theorem ppp_unknown_options_rejected:
  fixes codes :: "u8 list"
  assumes "\<forall>opt \<in> set opts. well_formed_option opt" "ahdlc_tx_offline ctx \<le> AHDLC_TX_OFFLINE"
    and "holds_packet ctx ([code, ident, hi, lo] @ concat (map opt_bytes opts))"
    and "len = of_nat (length (concat (map opt_bytes opts)))"
    and "rejected = concat (map opt_bytes (filter (\<lambda>opt. fst opt \<notin> set codes) opts))"
  shows "if \<forall>opt \<in> set opts. fst opt \<in> set codes
    then scan_packet ctx protocol codes 2 6 len = Some (False, ctx)
    else \<exists>ctx'. scan_packet ctx protocol codes 2 6 len = Some (True, ctx') \<and>
      new_chars ctx ctx' = hdlc_frame protocol (ahdlc_flags ctx)
        ([CONF_REJ, ident, 0, of_nat (4 + length rejected)] @ rejected)"
proof -
  let ?all = "concat (map opt_bytes opts)"
  have "length ?all < 2 ^ 16"
    using assms(3) by (simp add: holds_packet_def PPP_RX_BUFFER_SIZE_def)
  then have len: "unat len = length ?all"
    by (simp add: assms(4) unat_of_nat take_bit_nat_eq_self)
  from scan_options [OF assms(1), of ctx "[code, ident, hi, lo]" "[]" codes False] assms(3) obtain gap buf where
    scan: "scan_loop codes (6 + unat len) 6 6 False ctx =
      Some (\<exists>opt \<in> set opts. fst opt \<notin> set codes, 6 + length rejected, ctx\<lparr>ahdlc_rx_buffer := buf\<rparr>)"
    and holds: "holds_packet (ctx\<lparr>ahdlc_rx_buffer := buf\<rparr>) ([code, ident, hi, lo] @ rejected @ gap)"
    by (auto simp: len assms(5))
  show ?thesis
  proof (cases "\<forall>opt \<in> set opts. fst opt \<in> set codes")
    case True
    with scan_all_known [of opts codes ctx "[code, ident, hi, lo]" 6 False] assms(1,3) show ?thesis
      by (simp add: scan_packet_def len)
  next
    case False
    let ?n = "of_nat (4 + length rejected) :: u8"
    let ?reply = "[CONF_REJ, ident, 0, ?n] @ rejected"
    have "holds_packet (ctx\<lparr>ahdlc_rx_buffer := buf\<rparr>) (code # ident # hi # lo # rejected @ gap)"
      using holds by simp
    then obtain c1 c2 buf1 where put: "rx_write 2 CONF_REJ (ctx\<lparr>ahdlc_rx_buffer := buf\<rparr>) = Some c1" "rx_write 4 0 c1 = Some c2"
      "rx_write 5 ?n c2 = Some (ctx\<lparr>ahdlc_rx_buffer := buf1\<rparr>)"
      and reply: "holds_packet (ctx\<lparr>ahdlc_rx_buffer := buf1\<rparr>) (CONF_REJ # ident # 0 # ?n # rejected @ gap)"
      by (rule put_reply_header) simp
    let ?c = "ctx\<lparr>ahdlc_rx_buffer := buf1\<rparr>"
    have "holds_packet ?c (?reply @ gap)"
      using reply by simp
    from packet_slice [OF packet_prefix [OF this]] have slice: "rx_slice ?c 2 (length ?reply) = Some ?reply" .
    have tx: "ppp_tx ?c protocol ?reply [] = Some (sent protocol (ahdlc_flags ctx) ?reply ?c)"
      using assms(2) by (simp add: ppp_tx_sends)
    have bad: "(\<exists>opt \<in> set opts. fst opt \<notin> set codes) = True"
      using False by simp
    have n: "6 + length rejected - 2 = 4 + length rejected" "4 + length rejected = length ?reply" "(2::nat) + 2 = 4" "(2::nat) + 3 = 5"
      by simp_all
    have "scan_packet ctx protocol codes 2 6 len = Some (True, sent protocol (ahdlc_flags ctx) ?reply ?c)"
      by (simp only: scan_packet_def scan bad bind.bind_lunit prod.case if_True n(1,3,4) put slice [folded n(2)] tx)
    moreover have "new_chars ctx (sent protocol (ahdlc_flags ctx) ?reply ?c) = hdlc_frame protocol (ahdlc_flags ctx) ?reply"
      by (simp add: new_chars_def sent_def)
    ultimately show ?thesis
      unfolding if_not_P [OF False] by blast
  qed
qed

text \<open>A request for a maximum receive unit of 1500 and an option 9, which LCP does not have here.\<close>

definition mixed_request :: ppp_context where
  "mixed_request = (zeroed_context False False [])\<lparr>ahdlc_rx_buffer :=
     [0xc0, 0x21, CONF_REQ, 7, 0, 12, LPC_MRU, 4, 5, 0xdc, 9, 4, 1, 2] @ replicate (PPP_RX_BUFFER_SIZE - 14) 0\<rparr>"

theorem ppp_unknown_options_rejected_witness:
  "\<exists>ctx'. scan_packet mixed_request LCP g_lcplist 2 6 8 = Some (True, ctx') \<and>
    new_chars mixed_request ctx' = hdlc_frame LCP (ahdlc_flags mixed_request) [CONF_REJ, 7, 0, 8, 9, 4, 1, 2]"
proof -
  let ?opts = "[(LPC_MRU, [5, 0xdc]), (9, [1, 2])]"
  have "14 \<le> PPP_RX_BUFFER_SIZE"
    by (simp add: PPP_RX_BUFFER_SIZE_def)
  then have holds: "holds_packet mixed_request ([CONF_REQ, 7, 0, 12] @ concat (map opt_bytes ?opts))"
    by (simp add: holds_packet_def mixed_request_def opt_bytes_def)
  have wf: "\<forall>opt \<in> set ?opts. well_formed_option opt"
    by (simp add: well_formed_option_def)
  have offline: "ahdlc_tx_offline mixed_request \<le> AHDLC_TX_OFFLINE"
    by (simp add: mixed_request_def zeroed_context_def)
  have len: "8 = of_nat (length (concat (map opt_bytes ?opts)))"
    by (simp add: opt_bytes_def)
  have unknown: "9 \<notin> set g_lcplist" "LPC_MRU \<in> set g_lcplist"
    by (simp_all add: g_lcplist_def LPC_MRU_def LPC_ACCM_def LPC_PFC_def LPC_MAGICNUMBER_def LPC_ACFC_def)
  then have rejected: "[9, 4, 1, 2] = concat (map opt_bytes (filter (\<lambda>opt. fst opt \<notin> set g_lcplist) ?opts))"
    by (simp add: opt_bytes_def)
  have mixed: "\<not> (\<forall>opt \<in> set ?opts. fst opt \<in> set g_lcplist)"
    using unknown by simp
  from ppp_unknown_options_rejected [OF wf offline holds len rejected, of LCP] show ?thesis
    unfolding if_not_P [OF mixed] by simp
qed

end
