(* ===== verification/PppProperties.thy ===== *)
theory PppProperties
  imports PppOptions
begin

unbundle bit_operations_syntax

section \<open>Properties of the PPP daemon\<close>

text \<open>
  A started daemon is ready for the negotiation; frames that make the daemon overrun a buffer or never
  return; and the properties of the framing and of the link as a whole.
\<close>

subsection \<open>A started daemon\<close>

definition same_memory :: "ppp_context \<Rightarrow> ppp_context \<Rightarrow> bool" where
  "same_memory c d \<longleftrightarrow> ahdlc_rx_buffer c = ahdlc_rx_buffer d \<and> ip_buf c = ip_buf d \<and> lcp_prev_seconds c = lcp_prev_seconds d"

lemma connect_same_memory: "same_memory ((ppp_connect (ppp_init c))\<lparr>ip_len := 0\<rparr>) c"
  by (simp add: same_memory_def ppp_connect_def ppp_init_def lcp_init_def ipcp_init_def ahdlc_init_def ahdlc_rx_ready_def)

lemma reconnect_with_memory:
  assumes "\<And>c p h b c'. tx c p h b = Some c' \<Longrightarrow> same_memory c' c" "ppp_reconnect_with tx c = Some c'"
  shows "\<exists>d. c' = (ppp_connect (ppp_init d))\<lparr>ip_len := 0\<rparr> \<and> same_memory d c"
  using assms(2) by (auto simp: ppp_reconnect_with_def lcp_disconnect_with_def same_memory_def emit_def Let_def
      split: Option.bind_splits list.splits option.splits if_splits dest!: assms(1))

lemma tx_memory:
  assumes "\<And>c c'. rc c = Some c' \<Longrightarrow> same_memory c' c" "ahdlc_tx rc c p h b = Some c'"
  shows "same_memory c' c"
  using assms(2) by (auto simp: ahdlc_tx_def Let_def ahdlc_tx_frame_bytes emit_def same_memory_def dest!: assms(1) split: if_splits)

lemma same_memory_trans: "same_memory a b \<Longrightarrow> same_memory b c \<Longrightarrow> same_memory a c"
  by (simp add: same_memory_def)

lemma reconnect_started:
  assumes "ppp_reconnect c = Some c'"
  shows "\<exists>d. c' = (ppp_connect (ppp_init d))\<lparr>ip_len := 0\<rparr> \<and> same_memory d c"
proof -
  have silent: "reconnect_silent c = Some c' \<Longrightarrow> same_memory c' c" for c c'
    using reconnect_with_memory [of "ahdlc_tx (\<lambda>_. None)" c c'] tx_memory [of "\<lambda>_. None"]
    by (metis connect_same_memory option.distinct(1) reconnect_silent_def same_memory_trans)
  show ?thesis
  proof (rule reconnect_with_memory [of ppp_tx])
    show "same_memory c' c" if "ppp_tx c p h b = Some c'" for c p h b c'
      using that unfolding ppp_tx_def by (rule tx_memory [rotated]) (rule silent)
  qed (use assms in \<open>simp add: ppp_reconnect_def\<close>)
qed

lemma reconnect_fresh:
  assumes "ppp_reconnect c = Some c'" "length (ahdlc_rx_buffer c) = PPP_RX_BUFFER_SIZE" "length (ip_buf c) = PPP_RX_BUFFER_SIZE"
  shows "link_fresh c'" "lcp_prev_seconds c' = lcp_prev_seconds c"
proof -
  from reconnect_started [OF assms(1)] obtain d where d: "c' = (ppp_connect (ppp_init d))\<lparr>ip_len := 0\<rparr>" "same_memory d c"
    by blast
  then show "link_fresh c'" "lcp_prev_seconds c' = lcp_prev_seconds c"
    using assms(2,3) by (simp_all add: link_fresh_def link_quiet_def link_ready_def rx_idle_def rx_open_def link_view_def
        same_memory_def ppp_connect_def ppp_init_def lcp_init_def ipcp_init_def ahdlc_init_def ahdlc_rx_ready_def flag_simps)
      (simp_all add: PPP_RX_ASYNC_MAP_def bit_numeral_rec)
qed

lemma zeroed_starts: "\<exists>c. ppp_reconnect (zeroed_context False False []) = Some c"
  by (simp add: ppp_reconnect_def ppp_reconnect_with_def lcp_disconnect_with_def zeroed_context_def ppp_tx_sends
      AHDLC_TX_OFFLINE_def sent_def emit_def Let_def)

subsection \<open>Datagrams\<close>

lemma datagram_frame:
  assumes "link_ready r" "data \<noteq> []" "length data + 4 \<le> PPP_RX_BUFFER_SIZE"
  shows "\<exists>r'. receive_loop ppp_upcall (hdlc_frame IPV4 flags data) r = Some ([], r') \<and>
    ip_len r' = of_nat (length data) \<and> take (length data) (ip_buf r') = data \<and> length (ip_buf r') = PPP_RX_BUFFER_SIZE \<and>
    ipcp_state r' = ipcp_state r \<and> lcp_state r' = lcp_state r \<and> ahdlc_tx_offline r' = 0 \<and> ppp_out r' = ppp_out r"
proof -
  note r = link_ready_flags [OF assms(1)]
  let ?f = "rx_frame IPV4 flags data r"
  have size: "length data < 2 ^ 16"
    using assms(3) by (simp add: PPP_RX_BUFFER_SIZE_def)
  have "holds_packet ?f data"
    using r(3) assms(3) by (intro rx_frame_holds) simp_all
  from packet_slice [OF this] have "ppp_upcall ?f IPV4 2 (of_nat (length data)) =
      Some (?f\<lparr>ip_buf := write_bytes (ip_buf r) 0 data, ip_len := of_nat (length data), ip_no_data_time := 0\<rparr>)"
    using size by (simp add: ppp_upcall_def r(5) unat_of_nat take_bit_nat_eq_self)
  then have "receive_loop ppp_upcall (hdlc_frame IPV4 flags data @ []) r = Some ([], ahdlc_rx_ready
      (?f\<lparr>ip_buf := write_bytes (ip_buf r) 0 data, ip_len := of_nat (length data), ip_no_data_time := 0, ahdlc_tx_offline := 0\<rparr>))"
    by (subst frame_received [OF r(1,2) _ assms(3)]) simp_all
  then show ?thesis
    using r(6) assms(3) by (simp add: ahdlc_rx_ready_def write_bytes_0_take)
qed

lemma echo_keeps_datagram:
  assumes "ipcp_up r" "ahdlc_tx_offline r = 0"
  shows "\<exists>r'. ppp_negotiate inp r = Some r' \<and> ip_len r' = ip_len r \<and> ip_buf r' = ip_buf r \<and>
    ipcp_state r' = ipcp_state r \<and> lcp_state r' = lcp_state r \<and> (\<exists>cs. ppp_out r' = ppp_out r @ map LinePut cs)"
proof -
  have "ahdlc_tx_offline r \<le> AHDLC_TX_OFFLINE"
    using assms(2) by simp
  with assms(1) show ?thesis
    by (auto simp: ppp_negotiate_def lcp_echo_request_def ppp_tx_sends sent_def intro: exI [of _ "[]"])
qed

text \<open>The poll of a daemon whose link is up, when a datagram has arrived.\<close>

lemma datagram_poll:
  assumes "link_ready b" "ipcp_up b" "unat (ip_no_data_time b) < PPP_IP_TIMEOUT" "data \<noteq> []" "length data + 4 \<le> PPP_RX_BUFFER_SIZE"
  shows "\<exists>b'. ppp_poll (line_input t (hdlc_frame IPV4 flags data)) b = Some ([], b') \<and>
    ip_len b' = of_nat (length data) \<and> take (length data) (ip_buf b') = data \<and> length (ip_buf b') = PPP_RX_BUFFER_SIZE \<and>
    ipcp_state b' = ipcp_state b \<and> lcp_state b' = lcp_state b \<and> (\<exists>cs. ppp_out b' = ppp_out b @ map LinePut cs)"
proof -
  obtain ls lr lp ist ir ip pid nd la where v: "link_view b = (ls, lr, lp, ist, ir, ip, pid, nd, la)"
    by (cases "link_view b") auto
  have nd: "unat nd < PPP_IP_TIMEOUT"
    using assms(3) v by (simp add: link_view_def)
  from datagram_frame [OF poll_start_ready(1) [OF assms(1)] assms(4,5), of flags] obtain r where
    r: "receive_loop ppp_upcall (hdlc_frame IPV4 flags data) (poll_start b) = Some ([], r)"
      "ip_len r = of_nat (length data)" "take (length data) (ip_buf r) = data" "length (ip_buf r) = PPP_RX_BUFFER_SIZE"
      "ipcp_state r = ipcp_state b" "lcp_state r = lcp_state b" "ahdlc_tx_offline r = 0" "ppp_out r = ppp_out b"
    by (auto simp: poll_start_def)
  moreover have "ipcp_up r"
    using r(5) assms(2) by (simp add: ipcp_up_def)
  ultimately show ?thesis
    using echo_keeps_datagram [of r "line_input t (hdlc_frame IPV4 flags data)"] by (auto simp: ppp_poll_ready [OF assms(1) v nd])
qed

subsection \<open>Frames the daemon does not survive\<close>

lemma rx_discarded:
  assumes "rx_open r" "ip_len r = 0" "ahdlc_rx_count r = 0" "\<forall>c \<in> set bs. c = 0xff \<or> c = 0x03"
  shows "receive_loop upcall (concat (map (stuffed protocol flags) bs) @ rest) r =
    receive_loop upcall rest (r\<lparr>ahdlc_rx_crc := foldl crcadd (ahdlc_rx_crc r) bs\<rparr>)"
  using assms
proof (induction bs arbitrary: r)
  case (Cons c bs)
  then have "ahdlc_rx_store r c = Some (r\<lparr>ahdlc_rx_crc := crcadd (ahdlc_rx_crc r) c\<rparr>)"
    by (auto simp: ahdlc_rx_store_def PPP_RX_BUFFER_SIZE_def Let_def)
  with Cons show ?case
    by (simp add: rx_stuffed rx_open_def)
qed simp

text \<open>
  A frame of three characters after the address bytes: the checksum's first byte completes the protocol
  number of IP, and the length of the datagram, 1 - 2, is 65535.
\<close>

definition short_ip_frame :: bytes where
  "short_ip_frame = [0x7e, 0xff, 0xff, 0xff, 0x03, 0x03, 0x00, 0x21, 0xff, 0x7e]"

lemma short_frame_good: "foldl crcadd 0xffff [0xff, 0xff, 0xff, 0x03, 0x03, 0x00, 0x21, 0xff] = CRC_GOOD_VALUE"
  by (simp add: crcadd_def CRC_GOOD_VALUE_def)

lemma short_frame_overruns:
  assumes "link_ready r"
  shows "receive_loop ppp_upcall short_ip_frame r = None"
proof -
  note r = link_ready_flags [OF assms]
  let ?s = "\<lambda>bs. concat (map (stuffed IPV4 8) bs)"
  let ?r1 = "r\<lparr>ahdlc_rx_crc := foldl crcadd 0xffff [0xff, 0xff, 0xff, 0x03, 0x03]\<rparr>"
  let ?r2 = "rx_stored [0x00, 0x21, 0xff] ?r1"
  have idle: "rx_open r" "ahdlc_rx_count r = 0" "ahdlc_rx_crc r = 0xffff"
    using r(1) by (simp_all add: rx_idle_def)
  have "short_ip_frame = 0x7e # ?s [0xff, 0xff, 0xff, 0x03, 0x03] @ ?s [0x00, 0x21, 0xff] @ [0x7e]"
    by (simp add: short_ip_frame_def stuffed_def IPV4_def LCP_def PPP_TX_ASYNC_MAP_def)
  then have "receive_loop ppp_upcall short_ip_frame r =
      receive_loop ppp_upcall (?s [0xff, 0xff, 0xff, 0x03, 0x03] @ ?s [0x00, 0x21, 0xff] @ [0x7e]) r"
    by (rule ssubst) (rule rx_flag [OF r(1,2)])
  also have "\<dots> = receive_loop ppp_upcall (?s [0x00, 0x21, 0xff] @ [0x7e]) ?r1"
    using idle r(2) by (subst rx_discarded) simp_all
  also have "\<dots> = receive_loop ppp_upcall [0x7e] ?r2"
    using idle r(2,3) by (subst rx_body) (simp_all add: rx_open_def PPP_RX_BUFFER_SIZE_def)
  also have "\<dots> = None"
  proof (subst rx_good_end [where protocol = IPV4])
    show "ahdlc_rx_crc ?r2 = CRC_GOOD_VALUE"
      using short_frame_good by simp
  qed (use idle r in \<open>simp_all add: rx_stored_def write_bytes_def rx_open_def IPV4_def PPP_RX_BUFFER_SIZE_def ppp_upcall_def
        rx_slice_def LCP_def IPCP_def bit_numeral_rec unsigned_minus_1_eq_mask mask_eq_exp_minus_1\<close>)
  finally show ?thesis .
qed

text \<open>An option of length 0 is scanned again and again.\<close>

lemma scan_returns:
  "scan_loop codes stop i t bad ctx = Some res \<Longrightarrow>
     \<not> (\<exists>c. rx_read ctx i = Some c \<and> rx_read ctx (i + 1) = Some 0 \<and> c \<in> set codes \<and> i < stop)"
  by (erule scan_loop.raw_induct [rotated, where P = "\<lambda>codes stop i t bad ctx res.
      \<not> (\<exists>c. rx_read ctx i = Some c \<and> rx_read ctx (i + 1) = Some 0 \<and> c \<in> set codes \<and> i < stop)"])
    (auto split: if_splits Option.bind_splits)

lemma scan_stuck:
  assumes "rx_read ctx i = Some c" "rx_read ctx (i + 1) = Some 0" "c \<in> set codes" "i < stop"
  shows "scan_loop codes stop i t bad ctx = None"
  using assms scan_returns [of codes stop i t bad ctx] by (cases "scan_loop codes stop i t bad ctx") auto

definition endless_request :: "u8 \<Rightarrow> bytes" where
  "endless_request ident = [CONF_REQ, ident, 0, 6, LPC_MRU, 0]"

lemma endless_request_hangs:
  assumes "link_ready r"
  shows "receive_loop ppp_upcall (hdlc_frame LCP flags (endless_request ident)) r = None"
proof -
  note r = link_ready_flags [OF assms]
  let ?f = "rx_frame LCP flags (endless_request ident) r"
  let ?c = "(ipcp_init ?f)\<lparr>lcp_state := lcp_state ?f AND NOT LCP_RX_UP\<rparr>"
  have h: "holds_packet ?f (endless_request ident)"
    using r(3) by (intro rx_frame_holds) (simp_all add: endless_request_def PPP_RX_BUFFER_SIZE_def)
  then have h2: "holds_packet ?c (endless_request ident)"
    by (simp add: ipcp_init_def cong: holds_packet_buffer)
  have get: "rx_read ?f 2 = Some CONF_REQ" "rx_read ?f 3 = Some ident" "rx_read16 ?f 4 = Some 6"
    using packet_get [OF h, of 2] packet_get [OF h, of 3] packet_get [OF h, of 4] packet_get [OF h, of 5]
    by (simp_all add: endless_request_def rx_read16_def)
  have "scan_loop g_lcplist 8 6 6 False ?c = None"
    using packet_get [OF h2, of 6] packet_get [OF h2, of 7]
    by (intro scan_stuck [of _ _ LPC_MRU]) (simp_all add: endless_request_def g_lcplist_def)
  then have "scan_packet ?c LCP g_lcplist 2 6 2 = None"
    by (simp add: scan_packet_def)
  then have "ppp_upcall ?f LCP 2 6 = None"
    using get by (simp add: ppp_upcall_def r(5) lcp_rx_def lcp_conf_req_def Let_def ipcp_init_def)
  then have "receive_loop ppp_upcall (hdlc_frame LCP flags (endless_request ident) @ []) r = None"
    by (subst frame_received [OF r(1,2)]) (simp_all add: endless_request_def PPP_RX_BUFFER_SIZE_def)
  then show ?thesis
    by simp
qed

text \<open>
  Rejecting a protocol moves the packet up by six bytes; the check before it does not count the protocol
  bytes the packet starts behind.
\<close>

lemma reject_overruns:
  assumes "length (ahdlc_rx_buffer ctx) = PPP_RX_BUFFER_SIZE" "1017 \<le> unat count" "unat count \<le> 1018"
  shows "ppp_reject_protocol ctx protocol 2 count = None"
proof -
  obtain k where k: "unat count = Suc k"
    using assms(2) by (cases "unat count") auto
  have "rx_write (2 + unat count + 6 - 1) c ctx = None" for c
    using assms by (simp add: rx_write_def PPP_RX_BUFFER_SIZE_def)
  then have "move_up (Suc k) (2 + unat count + 6) (2 + unat count) ctx = None"
    by (simp split: Option.bind_splits)
  then show ?thesis
    using assms(3) k by (simp add: ppp_reject_protocol_def PPP_RX_BUFFER_SIZE_def)
qed

lemma poll_fails:
  assumes "link_ready r" "unat (ip_no_data_time r) < PPP_IP_TIMEOUT" "\<And>r. link_ready r \<Longrightarrow> receive_loop ppp_upcall chars r = None"
  shows "ppp_poll (line_input t chars) r = None"
proof -
  have "unat (ip_no_data_time r + 1) \<le> PPP_IP_TIMEOUT"
    using assms(2) by (simp add: PPP_IP_TIMEOUT_def unat_word_ariths)
  moreover have "receive_loop ppp_upcall chars (poll_start r) = None"
    using assms(3) [OF poll_start_ready(1) [OF assms(1)]] .
  ultimately show ?thesis
    using assms(1) by (simp add: ppp_poll_def Let_def poll_start_def line_input_def link_ready_def not_less)
qed

subsection \<open>Concrete contexts\<close>

definition idle_context :: ppp_context where
  "idle_context = (ppp_connect (ppp_init (zeroed_context False False [])))\<lparr>ip_len := 0\<rparr>"

lemma idle_context_fresh: "link_fresh idle_context"
  by (simp add: idle_context_def zeroed_context_def link_fresh_def link_quiet_def link_ready_def rx_idle_def rx_open_def
      link_view_def ppp_connect_def ppp_init_def lcp_init_def ipcp_init_def ahdlc_init_def ahdlc_rx_ready_def flag_simps)
    (simp add: PPP_RX_ASYNC_MAP_def bit_numeral_rec)

lemma idle_context_ready: "link_ready idle_context" "rx_idle idle_context" "ip_len idle_context = 0"
    "ip_no_data_time idle_context = 0" "lcp_prev_seconds idle_context = 0" "ahdlc_tx_offline idle_context = 0" 
  using idle_context_fresh
  by (simp_all add: link_fresh_def link_quiet_def link_ready_def link_view_def)
    (simp add: idle_context_def zeroed_context_def ppp_connect_def ppp_init_def lcp_init_def ipcp_init_def ahdlc_init_def ahdlc_rx_ready_def)

section \<open>Properties\<close>



text \<open>The frame check sequence. The shift-free formula computes the CRC of the H.264 packet protocol, which
  is written bit by bit; and a frame followed by the complement of its checksum, low byte first, always has
  the value the receiver expects.\<close>

lemma ppp_crc_equals_protocol_crc:
  "foldl crcadd 0xffff data XOR 0xffff = protocol_crc16 data (length data) \<and>
    foldl crcadd 0xffff (data @ fcs_bytes (foldl crcadd 0xffff data)) = CRC_GOOD_VALUE"
proof
  have "crcadd = sdlc_byte"
    by (intro ext) (rule crcadd_serial)
  then show "foldl crcadd 0xffff data XOR 0xffff = protocol_crc16 data (length data)"
    by (simp add: protocol_crc16_def)
  show "foldl crcadd 0xffff (data @ fcs_bytes (foldl crcadd 0xffff data)) = CRC_GOOD_VALUE"
    unfolding foldl_append by (rule fcs_good)
qed



text \<open>C20: Frames the daemon does not survive. A daemon with a link that works does not complete the poll in which it
  receives a frame of three characters with a good checksum, whose datagram it copies from outside its
  buffer, or a request with an option of length 0, which it scans for ever.\<close>

theorem ppp_malformed_frame_fatal:
  assumes "link_ready r" "unat (ip_no_data_time r) < PPP_IP_TIMEOUT"
  shows "ppp_poll (line_input t short_ip_frame) r = None \<and>
    ppp_poll (line_input t (hdlc_frame LCP flags (endless_request ident))) r = None"
proof
  show "ppp_poll (line_input t short_ip_frame) r = None"
    by (rule poll_fails [OF assms short_frame_overruns])
  show "ppp_poll (line_input t (hdlc_frame LCP flags (endless_request ident))) r = None"
    by (rule poll_fails [OF assms endless_request_hangs])
qed

theorem ppp_malformed_frame_fatal_witness: "ppp_poll (line_input 5 short_ip_frame) idle_context = None"
  using ppp_malformed_frame_fatal [of idle_context 5] idle_context_ready(1,4) by (simp add: PPP_IP_TIMEOUT_def)

end
