(* ===== verification/PppDaemon.thy ===== *)
theory PppDaemon
  imports PppProperties Os
begin

unbundle bit_operations_syntax

section \<open>The PPP daemon (netutils/pppd/pppd.c)\<close>

text \<open>
  Opening the tunnel and the modem, starting, and the main loop.  Results of system calls are arguments:
  descriptors and error codes as integers, what a read of the tunnel gives as \<open>Some\<close> of the bytes (none at
  end of file), or \<open>None\<close> for an error; \<open>ioctl\<close> is a function of the requested interface name.
\<close>

subsection \<open>Opening\<close>

definition make_nonblock :: "int \<Rightarrow> int \<Rightarrow> int" where
  "make_nonblock getfl setfl = (if getfl < 0 then getfl else if setfl < 0 then setfl else 0)"

record open_results =
  or_open :: int
  or_getfl :: int
  or_setfl :: int

text \<open>
  The result, the name of the interface and the trace; the size of a name is a constant of the system.
\<close>

definition tun_alloc :: "nat \<Rightarrow> open_results \<Rightarrow> (string \<Rightarrow> int \<times> string) \<Rightarrow> string \<Rightarrow> int \<times> string \<times> trace" where
  "tun_alloc ifnamsiz res ioctl dev =
     (let fd = or_open res in
      if fd < 0 then (fd, dev, [])
      else
        let errcode = make_nonblock (or_getfl res) (or_setfl res) in
        if errcode < 0 then (errcode, dev, [OsOpen fd, OsClose fd])
        else
          let (errcode, ifr_name) = ioctl (if dev \<noteq> [] then take (ifnamsiz - 1) dev else []) in
          if errcode < 0 then (errcode, dev, [OsOpen fd, OsClose fd])
          else (fd, ifr_name, [OsOpen fd]))"

definition open_tty :: "open_results \<Rightarrow> int \<times> trace" where
  "open_tty res =
     (let fd = or_open res in
      if fd < 0 then (fd, [])
      else
        let errcode = make_nonblock (or_getfl res) (or_setfl res) in
        if errcode < 0 then (errcode, [OsOpen fd, OsClose fd]) else (fd, [OsOpen fd]))"

subsection \<open>The line and the clock\<close>

text \<open>\<open>clock_gettime\<close> gives the seconds or fails.\<close>

definition ppp_arch_clock_seconds :: "int option \<Rightarrow> int" where
  "ppp_arch_clock_seconds reading = (case reading of None \<Rightarrow> 0 | Some seconds \<Rightarrow> seconds)"

definition ppp_arch_getchar :: "int \<Rightarrow> int" where
  "ppp_arch_getchar ret = (if ret = 1 then ret else 0)"

text \<open>The results of the first write, whether it would have blocked, of the wait, and of the second write.\<close>

definition ppp_arch_putchar :: "int \<Rightarrow> bool \<Rightarrow> int \<Rightarrow> int \<Rightarrow> int" where
  "ppp_arch_putchar ret again polled ret' =
     (let ret = (if ret < 0 \<and> again then (if polled > 0 then ret' else polled) else ret)
      in if ret = 1 then ret else 0)"

subsection \<open>Starting\<close>

definition ppp_check_errors :: "ppp_context \<Rightarrow> u8" where
  "ppp_check_errors ctx =
     (let ret = (if lcp_state ctx AND (LCP_TX_TIMEOUT OR LCP_RX_TIMEOUT OR LCP_TERM_PEER) \<noteq> 0 then 1 else 0)
      in if ipcp_state ctx AND IPCP_TX_TIMEOUT \<noteq> 0 then 3 else ret)"

text \<open>The environment of a start: the block \<open>malloc\<close> returns, the size of an interface name, the system calls, the scripts.\<close>

record pppd_env =
  pe_block :: "nat option"
  pe_ifnamsiz :: nat
  pe_tun :: open_results
  pe_ioctl :: "string \<Rightarrow> int \<times> string"
  pe_tty :: open_results
  pe_connect :: bool
  pe_disconnect :: bool
  pe_chat :: "int list"

record pppd_state =
  pd_if_fd :: int
  pd_ctl_fd :: int
  pd_ifname :: string
  pd_ctx :: ppp_context

text \<open>
  \<open>pppd\<close> up to its loop: its return value, or the state in which the loop starts.  The memory is cleared
  without a look at the result of \<open>malloc\<close>.
\<close>

definition pppd_start :: "pppd_env \<Rightarrow> ((int + pppd_state) \<times> trace) option" where
  "pppd_start env =
     (case pe_block env of
        None \<Rightarrow> None
      | Some block \<Rightarrow>
          let (if_fd, ifname, tr) = tun_alloc (pe_ifnamsiz env) (pe_tun env) (pe_ioctl env) (take (pe_ifnamsiz env - 1) ''ppp%d'') in
          if if_fd < 0 then Some (Inl 2, OsAlloc block # tr @ [OsFree block])
          else
            let (tty, tr') = open_tty (pe_tty env) in
            if tty < 0 then Some (Inl 2, OsAlloc block # tr @ tr' @ [OsClose if_fd, OsFree block])
            else do {
              ctx \<leftarrow> ppp_reconnect (ppp_init (zeroed_context (pe_connect env) (pe_disconnect env) (pe_chat env)));
              Some (Inr \<lparr>pd_if_fd = if_fd, pd_ctl_fd = tty, pd_ifname = ifname, pd_ctx = ctx\<rparr>, OsAlloc block # tr @ tr')
            })"

subsection \<open>The main loop\<close>

text \<open>A packet read from the tunnel is sent.\<close>

definition tun_forward :: "bytes option \<Rightarrow> ppp_context \<Rightarrow> ppp_context option" where
  "tun_forward result ctx =
     (case result of
        None \<Rightarrow> Some ctx
      | Some bytes \<Rightarrow>
          let data = take PPP_RX_BUFFER_SIZE bytes in
          if data = [] then Some ctx
          else do {
            ctx \<leftarrow> ppp_send (ctx\<lparr>ip_buf := write_bytes (ip_buf ctx) 0 data, ip_len := of_nat (length data)\<rparr>);
            Some (ctx\<lparr>ip_len := 0\<rparr>)
          })"

text \<open>
  One round of the loop: the result of the wait and whether the tunnel was readable, the reads of the
  tunnel before the poll and after a packet was written to it, and the input of the poll.
\<close>

record round_input = poll_input +
  ri_poll :: int
  ri_tun_readable :: bool
  ri_tun_read :: "bytes option"
  ri_tun_read' :: "bytes option"

definition pppd_step :: "round_input \<Rightarrow> ppp_context \<Rightarrow> (bytes \<times> ppp_context) option" where
  "pppd_step inp ctx =
     do {
       ctx \<leftarrow> (if ri_poll inp > 0 \<and> ri_tun_readable inp then tun_forward (ri_tun_read inp) ctx else Some ctx);
       (left, ctx) \<leftarrow> ppp_poll (poll_input.truncate inp) ctx;
       if ppp_check_errors ctx \<noteq> 0 then map_option (Pair left) (ppp_reconnect ctx)
       else if ip_len ctx > 0 then
         (if unat (ip_len ctx) \<le> length (ip_buf ctx)
          then
            let ctx = emit [TunWrite (take (unat (ip_len ctx)) (ip_buf ctx))] ctx;
                ctx = ctx\<lparr>ip_len := 0\<rparr>
            in map_option (Pair left) (tun_forward (ri_tun_read' inp) ctx)
          else None)
       else Some (left, ctx)
     }"

text \<open>The loop on a sequence of rounds; characters left in the line are before those that arrive later.\<close>

fun pppd_loop :: "round_input list \<Rightarrow> bytes \<Rightarrow> ppp_context \<Rightarrow> (bytes \<times> ppp_context) option" where
  "pppd_loop [] left ctx = Some (left, ctx)"
| "pppd_loop (inp # inps) left ctx =
     do {
       (left, ctx) \<leftarrow> pppd_step (inp\<lparr>pl_chars := left @ pl_chars inp\<rparr>) ctx;
       pppd_loop inps left ctx
     }"

subsection \<open>A round of a link that is up\<close>

text \<open>The rounds of a daemon without and with a packet in its tunnel.\<close>

definition line_round :: "int \<Rightarrow> bytes \<Rightarrow> round_input" where
  "line_round t chars = poll_input.extend (line_input t chars)
     \<lparr>ri_poll = 1, ri_tun_readable = False, ri_tun_read = None, ri_tun_read' = None\<rparr>"

definition tun_round :: "int \<Rightarrow> bytes \<Rightarrow> round_input" where
  "tun_round t data = poll_input.extend (line_input t [])
     \<lparr>ri_poll = 1, ri_tun_readable = True, ri_tun_read = Some data, ri_tun_read' = None\<rparr>"

lemma round_simps [simp]:
  "poll_input.truncate (line_round t chars) = line_input t chars" "poll_input.truncate (tun_round t data) = line_input t []"
  "ri_tun_readable (line_round t chars) = False" "ri_tun_read' (line_round t chars) = None"
  "ri_tun_readable (tun_round t data)" "ri_poll (tun_round t data) = 1" "ri_tun_read (tun_round t data) = Some data"
  "ri_tun_read' (tun_round t data) = None"
  by (simp_all add: line_round_def tun_round_def poll_input.defs round_input.defs line_input_def)

definition link_working :: "ppp_context \<Rightarrow> bool" where
  "link_working ctx \<longleftrightarrow> link_ready ctx \<and> ipcp_up ctx \<and> ppp_check_errors ctx = 0 \<and>
     unat (ip_no_data_time ctx) < PPP_IP_TIMEOUT"

text \<open>The packets a daemon has written to its tunnel between two contexts.\<close>

definition tun_writes :: "ppp_event list \<Rightarrow> bytes list" where
  "tun_writes es = concat (map (\<lambda>e. case e of TunWrite data \<Rightarrow> [data] | _ \<Rightarrow> []) es)"

lemma tun_writes_simps [simp]:
  "tun_writes (a @ b) = tun_writes a @ tun_writes b" "tun_writes (map LinePut cs) = []" "tun_writes [] = []"
  "tun_writes [TunWrite data] = [data]"
  by (induction cs) (simp_all add: tun_writes_def)

definition new_tun_writes :: "ppp_context \<Rightarrow> ppp_context \<Rightarrow> bytes list" where
  "new_tun_writes ctx ctx' = tun_writes (drop (length (ppp_out ctx)) (ppp_out ctx'))"

lemma errors_state: "lcp_state c = lcp_state d \<Longrightarrow> ipcp_state c = ipcp_state d \<Longrightarrow> ppp_check_errors c = ppp_check_errors d"
  by (simp add: ppp_check_errors_def)

text \<open>The sender: nothing arrives and the last echo request was not long ago.\<close>

lemma quiet_poll:
  assumes "link_ready a" "ipcp_up a" "unat (ip_no_data_time a) < PPP_IP_TIMEOUT" "t - lcp_prev_seconds a \<le> LCP_ECHO_INTERVAL"
  shows "ppp_poll (line_input t []) a = Some ([], poll_start a)"
proof -
  obtain ls lr lp ist ir ip pid nd la where v: "link_view a = (ls, lr, lp, ist, ir, ip, pid, nd, la)"
    by (cases "link_view a") auto
  moreover have "receive_loop ppp_upcall [] (poll_start a) = Some ([], poll_start a)"
    by simp
  moreover have "unat nd < PPP_IP_TIMEOUT"
    using assms(3) v by (simp add: link_view_def)
  moreover have "ppp_negotiate (line_input t []) (poll_start a) = Some (poll_start a)"
    using assms(2,4) by (simp add: ppp_negotiate_def poll_start_def ipcp_up_def lcp_echo_request_def line_input_def)
  ultimately show ?thesis
    by (simp add: ppp_poll_ready [OF assms(1)])
qed

lemma sender_round:
  assumes "link_working a" "ahdlc_tx_offline a = 0" "t - lcp_prev_seconds a \<le> LCP_ECHO_INTERVAL"
    and "data \<noteq> []" "length data + 4 \<le> PPP_RX_BUFFER_SIZE"
  shows "\<exists>a'. pppd_step (tun_round t data) a = Some ([], a') \<and> new_chars a a' = hdlc_frame IPV4 (ahdlc_flags a) data"
proof -
  let ?a1 = "a\<lparr>ip_buf := write_bytes (ip_buf a) 0 data, ip_len := of_nat (length data)\<rparr>"
  let ?a2 = "(sent IPV4 (ahdlc_flags a) data ?a1)\<lparr>ip_len := 0\<rparr>"
  have buf: "length (ip_buf a) = PPP_RX_BUFFER_SIZE" and up: "ipcp_up a"
    using assms(1) by (simp_all add: link_working_def link_ready_def)
  have len: "unat (of_nat (length data) :: u16) = length data"
    using assms(5) by (simp add: unat_of_nat take_bit_nat_eq_self PPP_RX_BUFFER_SIZE_def)
  have buf': "length (write_bytes (ip_buf a) 0 data) = PPP_RX_BUFFER_SIZE"
    using buf assms(5) by simp
  have "take (length data) (write_bytes (ip_buf a) 0 data) = data"
    using buf assms(5) by (intro write_bytes_0_take) simp
  then have fwd: "tun_forward (Some data) a = Some ?a2"
    using up assms(2,4,5) buf by (simp add: tun_forward_def ppp_send_def ipcp_up_def len ppp_tx_sends)
  have ready: "link_ready ?a2" "ipcp_up ?a2" "unat (ip_no_data_time ?a2) < PPP_IP_TIMEOUT" "t - lcp_prev_seconds ?a2 \<le> LCP_ECHO_INTERVAL"
    using assms(1-3) buf' by (simp_all add: link_working_def link_ready_def rx_idle_def rx_open_def sent_def ipcp_up_def)
  have "ppp_check_errors (poll_start ?a2) = 0"
    using assms(1) by (simp add: link_working_def poll_start_def sent_def ppp_check_errors_def)
  with fwd quiet_poll [OF ready] have "pppd_step (tun_round t data) a = Some ([], poll_start ?a2)"
    by (simp add: pppd_step_def poll_start_def)
  moreover have "new_chars a (poll_start ?a2) = hdlc_frame IPV4 (ahdlc_flags a) data"
    by (simp add: new_chars_def poll_start_def sent_def)
  ultimately show ?thesis
    by blast
qed

text \<open>The receiver.\<close>

lemma receiver_round:
  assumes "link_working b" "data \<noteq> []" "length data + 4 \<le> PPP_RX_BUFFER_SIZE"
  shows "\<exists>b'. pppd_step (line_round t (hdlc_frame IPV4 flags data)) b = Some ([], b') \<and> new_tun_writes b b' = [data]"
proof -
  have b: "link_ready b" "ipcp_up b" "unat (ip_no_data_time b) < PPP_IP_TIMEOUT" "ppp_check_errors b = 0"
    using assms(1) by (simp_all add: link_working_def)
  from datagram_poll [OF b(1-3) assms(2,3), of t flags] obtain b' cs where
    b': "ppp_poll (line_input t (hdlc_frame IPV4 flags data)) b = Some ([], b')" "ip_len b' = of_nat (length data)"
      "take (length data) (ip_buf b') = data" "length (ip_buf b') = PPP_RX_BUFFER_SIZE"
      "ipcp_state b' = ipcp_state b" "lcp_state b' = lcp_state b" "ppp_out b' = ppp_out b @ map LinePut cs"
    by blast
  have len: "unat (of_nat (length data) :: u16) = length data"
    using assms(3) by (simp add: unat_of_nat take_bit_nat_eq_self PPP_RX_BUFFER_SIZE_def)
  then have "(of_nat (length data) :: u16) \<noteq> 0"
    using assms(2) by (metis length_0_conv unat_0)
  then have pos: "0 < (of_nat (length data) :: u16)"
    by (simp add: word_gt_0)
  have "ppp_check_errors b' = 0"
    using errors_state [OF b'(6,5)] b(4) by simp
  with b' assms(3) len pos have
    "pppd_step (line_round t (hdlc_frame IPV4 flags data)) b = Some ([], (emit [TunWrite data] b')\<lparr>ip_len := 0\<rparr>)"
    by (simp add: pppd_step_def tun_forward_def emit_def)
  moreover have "new_tun_writes b ((emit [TunWrite data] b')\<lparr>ip_len := 0\<rparr>) = [data]"
    using b'(7) by (simp add: new_tun_writes_def emit_def)
  ultimately show ?thesis
    by blast
qed

subsection \<open>A peer that terminates\<close>

definition terminate_request :: "u8 \<Rightarrow> u8 \<Rightarrow> bytes" where
  "terminate_request code ident = [code, ident, 0, 4]"

lemma terminate_request_simps [simp]:
  "length (terminate_request c i) = 4" "terminate_request c i ! 0 = c" "(terminate_request c i)[0 := d] = terminate_request d i"
  by (simp_all add: terminate_request_def)

lemma terminate_frame:
  assumes "link_ready r"
  shows "\<exists>r'. receive_loop ppp_upcall (hdlc_frame LCP flags (terminate_request TERM_REQ ident)) r = Some ([], r') \<and>
    ahdlc_tx_offline r' = 0 \<and> lcp_state r' = (lcp_state r AND NOT LCP_TX_UP) OR LCP_TERM_PEER \<and>
    ipcp_state r' = ipcp_state r \<and> has_connect_script r' = has_connect_script r \<and>
    has_disconnect_script r' = has_disconnect_script r \<and> ppp_id r' = ppp_id r \<and>
    length (ahdlc_rx_buffer r') = PPP_RX_BUFFER_SIZE \<and> length (ip_buf r') = PPP_RX_BUFFER_SIZE \<and>
    ppp_out r' = ppp_out r @ map LinePut (hdlc_frame LCP 0 (terminate_request TERM_ACK ident))"
proof -
  note r = link_ready_flags [OF assms]
  let ?f = "rx_frame LCP flags (terminate_request TERM_REQ ident) r"
  let ?c1 = "?f\<lparr>ahdlc_rx_buffer := (ahdlc_rx_buffer ?f)[2 := TERM_ACK]\<rparr>"
  let ?c2 = "sent LCP (ahdlc_flags ?f) (terminate_request TERM_ACK ident) ?c1"
  let ?c3 = "?c2\<lparr>lcp_state := (lcp_state r AND NOT LCP_TX_UP) OR LCP_TERM_PEER\<rparr>"
  have h: "holds_packet ?f (terminate_request TERM_REQ ident)"
    using r(3) by (intro rx_frame_holds) (simp_all add: PPP_RX_BUFFER_SIZE_def)
  have read: "rx_read ?f 2 = Some TERM_REQ"
    using packet_get [OF h, of 2] by simp
  have put: "rx_write 2 TERM_ACK ?f = Some ?c1" and h1: "holds_packet ?c1 (terminate_request TERM_ACK ident)"
    using packet_put [OF h, of 2 TERM_ACK] by simp_all
  have slice: "rx_slice ?c1 2 4 = Some (terminate_request TERM_ACK ident)"
    using packet_slice [OF h1] by simp
  have tx: "ppp_tx ?c1 LCP [] (terminate_request TERM_ACK ident) = Some ?c2"
    using r(4) by (simp add: ppp_tx_sends)
  have up: "ppp_upcall ?f LCP 2 (of_nat (length (terminate_request TERM_REQ ident))) = Some ?c3"
    using read put slice tx by (simp add: ppp_upcall_def r(5) lcp_rx_def TERM_REQ_def CONF_ACK_def CONF_REQ_def CONF_NAK_def CONF_REJ_def sent_def)
  have "receive_loop ppp_upcall (hdlc_frame LCP flags (terminate_request TERM_REQ ident) @ []) r =
      Some ([], ahdlc_rx_ready (?c3\<lparr>ahdlc_tx_offline := 0\<rparr>))"
    by (subst frame_received [OF r(1,2)]) (simp_all add: up [simplified] PPP_RX_BUFFER_SIZE_def)
  moreover have "has_connect_script ?f = has_connect_script r" "has_disconnect_script ?f = has_disconnect_script r"
    by (simp_all add: rx_frame_def)
  ultimately show ?thesis
    using r(6) packet_length [OF h] hdlc_frame_LCP [of "ahdlc_flags ?f"] by (simp add: ahdlc_rx_ready_def sent_def)
qed

lemma reconnect_sends:
  assumes "ahdlc_tx_offline c = 0" "\<not> has_connect_script c" "\<not> has_disconnect_script c"
  shows "\<exists>c' es. ppp_reconnect c = Some c' \<and> ppp_out c' = ppp_out c @ es \<and>
    line_chars es = hdlc_frame LCP 0 (terminate_request TERM_REQ (ppp_id c + 1)) @ hdlc_frame LCP 0 (terminate_request TERM_REQ (ppp_id c + 2))"
  using assms hdlc_frame_LCP [of "ahdlc_flags c"]
  by (simp add: ppp_reconnect_def ppp_reconnect_with_def lcp_disconnect_with_def ppp_tx_sends AHDLC_TX_OFFLINE_def sent_def
      emit_def Let_def terminate_request_def ppp_connect_def ppp_init_def lcp_init_def ipcp_init_def ahdlc_init_def ahdlc_rx_ready_def)
    (simp add: add.commute)

lemma terminated_bits:
  fixes x :: u8
  shows "((x AND NOT LCP_TX_UP) OR LCP_TERM_PEER) AND LCP_TX_UP = 0"
    and "((x AND NOT LCP_TX_UP) OR LCP_TERM_PEER) AND (LCP_TX_TIMEOUT OR LCP_RX_TIMEOUT OR LCP_TERM_PEER) \<noteq> 0"
proof -
  show "((x AND NOT LCP_TX_UP) OR LCP_TERM_PEER) AND LCP_TX_UP = 0"
    unfolding lcp_bits by (simp add: LCP_TX_UP_def LCP_TERM_PEER_def bit_simps)
  have "bit (((x AND NOT LCP_TX_UP) OR LCP_TERM_PEER) AND (LCP_TX_TIMEOUT OR LCP_RX_TIMEOUT OR LCP_TERM_PEER)) 5"
    by (simp add: LCP_TERM_PEER_def bit_simps bit_numeral_rec)
  then show "((x AND NOT LCP_TX_UP) OR LCP_TERM_PEER) AND (LCP_TX_TIMEOUT OR LCP_RX_TIMEOUT OR LCP_TERM_PEER) \<noteq> 0"
    by auto
qed

lemma poll_reads:
  assumes "link_ready r" "unat (ip_no_data_time r) < PPP_IP_TIMEOUT" "receive_loop ppp_upcall chars (poll_start r) = Some ([], r')"
  shows "ppp_poll (line_input t chars) r = map_option (Pair []) (ppp_negotiate (line_input t chars) r')"
proof -
  obtain ls lr lp ist ir ip pid nd la where v: "link_view r = (ls, lr, lp, ist, ir, ip, pid, nd, la)"
    by (cases "link_view r") auto
  moreover from v have "unat nd < PPP_IP_TIMEOUT"
    using assms(2) by (simp add: link_view_def)
  ultimately show ?thesis
    using assms(1,3) by (rule_tac ppp_poll_ready)
qed

lemma terminate_poll:
  assumes "link_working b" "\<not> has_connect_script b" "\<not> has_disconnect_script b"
  shows "\<exists>r. ppp_poll (line_input t (hdlc_frame LCP flags (terminate_request TERM_REQ ident))) b = Some ([], r) \<and>
    ppp_check_errors r \<noteq> 0 \<and> ahdlc_tx_offline r = 0 \<and> \<not> has_connect_script r \<and> \<not> has_disconnect_script r \<and> ppp_id r = ppp_id b \<and>
    length (ahdlc_rx_buffer r) = PPP_RX_BUFFER_SIZE \<and> length (ip_buf r) = PPP_RX_BUFFER_SIZE \<and>
    ppp_out r = ppp_out b @ map LinePut (hdlc_frame LCP 0 (terminate_request TERM_ACK ident))"
proof -
  let ?cs = "hdlc_frame LCP flags (terminate_request TERM_REQ ident)"
  have b: "link_ready b" "ipcp_up b" "unat (ip_no_data_time b) < PPP_IP_TIMEOUT"
    using assms(1) by (simp_all add: link_working_def)
  from terminate_frame [OF poll_start_ready(1) [OF b(1)], of flags ident] assms(2,3) obtain r where
    r: "receive_loop ppp_upcall ?cs (poll_start b) = Some ([], r)" "ahdlc_tx_offline r = 0"
      "lcp_state r = (lcp_state b AND NOT LCP_TX_UP) OR LCP_TERM_PEER" "ipcp_state r = ipcp_state b"
      "\<not> has_connect_script r" "\<not> has_disconnect_script r" "ppp_id r = ppp_id b"
      "length (ahdlc_rx_buffer r) = PPP_RX_BUFFER_SIZE" "length (ip_buf r) = PPP_RX_BUFFER_SIZE"
      "ppp_out r = ppp_out b @ map LinePut (hdlc_frame LCP 0 (terminate_request TERM_ACK ident))"
    by (auto simp: poll_start_def)
  have "ppp_negotiate (line_input t ?cs) r = Some r"
    using b(2) r(3,4) terminated_bits(1) by (simp add: ppp_negotiate_def ipcp_up_def lcp_echo_request_def lcp_up_def)
  then have "ppp_poll (line_input t ?cs) b = Some ([], r)"
    using poll_reads [OF b(1,3) r(1)] by simp
  moreover have "ppp_check_errors r \<noteq> 0"
    using terminated_bits(2) by (simp add: ppp_check_errors_def r(3))
  ultimately show ?thesis
    using r(2,5-10) by (intro exI [of _ r] conjI)
qed

section \<open>Properties of the daemon\<close>

lemma idle_context_working: "link_working (idle_context\<lparr>ipcp_state := 3\<rparr>)"
  using idle_context_ready up_tests idle_context_fresh
  by (simp add: link_working_def link_ready_def rx_idle_def rx_open_def ipcp_up_def ppp_check_errors_def PPP_IP_TIMEOUT_def
      link_fresh_def link_view_def) (auto simp: IPCP_TX_TIMEOUT_def)

lemma idle_context_scripts: "\<not> has_connect_script idle_context" "\<not> has_disconnect_script idle_context"
  by (simp_all add: idle_context_def zeroed_context_def ppp_connect_def ppp_init_def lcp_init_def ipcp_init_def
      ahdlc_init_def ahdlc_rx_ready_def)





text \<open>C34: Starting the daemon. A start that fails returns 2 and gives back the memory and every descriptor it
  opened; one that succeeds keeps the tunnel and the modem, and no other descriptor, open and is ready to
  negotiate.\<close>

theorem pppd_start_releases:
  assumes "pppd_start env = Some (result, tr)"
  shows "case result of
      Inl ret \<Rightarrow> ret = 2 \<and> balanced tr
    | Inr st \<Rightarrow> open_fds tr - closed_fds tr = {pd_if_fd st, pd_ctl_fd st} \<and> frees tr = [] \<and> link_fresh (pd_ctx st)"
proof -
  let ?z = "ppp_init (zeroed_context (pe_connect env) (pe_disconnect env) (pe_chat env))"
  have "length (ahdlc_rx_buffer ?z) = PPP_RX_BUFFER_SIZE" "length (ip_buf ?z) = PPP_RX_BUFFER_SIZE"
    by (simp_all add: zeroed_context_def ppp_init_def lcp_init_def ipcp_init_def ahdlc_init_def ahdlc_rx_ready_def)
  note fresh = reconnect_fresh(1) [OF _ this]
  from assms show ?thesis
    by (auto simp: pppd_start_def tun_alloc_def open_tty_def Let_def balanced_def split: option.splits prod.splits if_splits
        Option.bind_splits intro: fresh)
qed

text \<open>A system in which opening the modem fails.\<close>

definition no_modem :: pppd_env where
  "no_modem = \<lparr>pe_block = Some 0, pe_ifnamsiz = 16, pe_tun = \<lparr>or_open = 3, or_getfl = 0, or_setfl = 0\<rparr>,
     pe_ioctl = (\<lambda>_. (0, ''ppp0'')), pe_tty = \<lparr>or_open = 4, or_getfl = 0, or_setfl = - 22\<rparr>,
     pe_connect = True, pe_disconnect = False, pe_chat = []\<rparr>"

theorem pppd_start_releases_witness:
  "\<exists>tr. pppd_start no_modem = Some (Inl 2, tr) \<and> tr = [OsAlloc 0, OsOpen 3, OsOpen 4, OsClose 4, OsClose 3, OsFree 0] \<and> balanced tr"
proof -
  let ?tr = "[OsAlloc 0, OsOpen 3, OsOpen 4, OsClose 4, OsClose 3, OsFree 0]"
  have start: "pppd_start no_modem = Some (Inl 2, ?tr)"
    by (simp add: pppd_start_def no_modem_def tun_alloc_def open_tty_def make_nonblock_def)
  from pppd_start_releases [OF start] start show ?thesis
    by simp
qed

end
