(* ===== verification/PppInvariant.thy ===== *)
theory PppInvariant
  imports PppDaemon
begin

unbundle bit_operations_syntax

section \<open>What the daemon keeps\<close>

text \<open>
  The invariant of the context: the buffers keep their size and the counter of frames sent without an
  answer stays at most one above its limit.  Every operation that returns keeps it, and the receiver
  its count, whatever arrives.
\<close>

definition memory_ok :: "ppp_context \<Rightarrow> bool" where
  "memory_ok ctx \<longleftrightarrow> length (ahdlc_rx_buffer ctx) = PPP_RX_BUFFER_SIZE \<and> length (ip_buf ctx) = PPP_RX_BUFFER_SIZE \<and>
     length (local_ip ctx) = 4 \<and> ahdlc_tx_offline ctx \<le> AHDLC_TX_OFFLINE + 1"

named_theorems keeps

lemma memory_ok_updates [simp]:
  "memory_ok (ctx\<lparr>ip_len := x1\<rparr>) = memory_ok ctx" "memory_ok (ctx\<lparr>ppp_flags := x2\<rparr>) = memory_ok ctx"
  "memory_ok (ctx\<lparr>ppp_tx_mru := x3\<rparr>) = memory_ok ctx" "memory_ok (ctx\<lparr>ppp_id := x4\<rparr>) = memory_ok ctx"
  "memory_ok (ctx\<lparr>ip_no_data_time := x5\<rparr>) = memory_ok ctx" "memory_ok (ctx\<lparr>ahdlc_crc_error := x10\<rparr>) = memory_ok ctx"
  "memory_ok (ctx\<lparr>peer_ip := x6\<rparr>) = memory_ok ctx" "memory_ok (ctx\<lparr>lcp_state := x7\<rparr>) = memory_ok ctx"
  "memory_ok (ctx\<lparr>lcp_retry := x8\<rparr>) = memory_ok ctx" "memory_ok (ctx\<lparr>lcp_prev_seconds := x9\<rparr>) = memory_ok ctx"
  "memory_ok (ctx\<lparr>ipcp_state := x7\<rparr>) = memory_ok ctx" "memory_ok (ctx\<lparr>ipcp_retry := x8\<rparr>) = memory_ok ctx"
  "memory_ok (ctx\<lparr>ipcp_prev_seconds := x9\<rparr>) = memory_ok ctx" "memory_ok (ctx\<lparr>ahdlc_rx_count := x10\<rparr>) = memory_ok ctx"
  "memory_ok (ctx\<lparr>ahdlc_rx_crc := x10\<rparr>) = memory_ok ctx" "memory_ok (ctx\<lparr>ahdlc_flags := x11\<rparr>) = memory_ok ctx"
  "memory_ok (ctx\<lparr>chat_results := x12\<rparr>) = memory_ok ctx" "memory_ok (ctx\<lparr>ppp_rx_frame_count := x13\<rparr>) = memory_ok ctx"
  "memory_ok (ctx\<lparr>ahdlc_rx_tobig_error := x10\<rparr>) = memory_ok ctx" "memory_ok (emit es ctx) = memory_ok ctx"
  by (simp_all add: memory_ok_def emit_def)

lemma memory_ok_offline [simp]: "memory_ok ctx \<Longrightarrow> memory_ok (ctx\<lparr>ahdlc_tx_offline := 0\<rparr>)"
  by (simp add: memory_ok_def)

lemma memory_ok_local_ip [simp]: "memory_ok ctx \<Longrightarrow> length addr = 4 \<Longrightarrow> memory_ok (ctx\<lparr>local_ip := addr\<rparr>)"
  by (simp add: memory_ok_def)

lemma address_length: "rx_read_addr ctx i = Some addr \<Longrightarrow> length addr = 4"
  by (auto simp: rx_read_addr_def bind_eq_Some_conv)

lemma write_keeps [keeps]: "rx_write i c ctx = Some ctx' \<Longrightarrow> memory_ok ctx \<Longrightarrow> memory_ok ctx'"
  by (auto simp: rx_write_def memory_ok_def split: if_splits)

lemma memory_ok_ip_buf: "memory_ok ctx \<Longrightarrow> length (ip_buf ctx) = PPP_RX_BUFFER_SIZE"
  by (simp add: memory_ok_def)

lemma buffer_keeps [simp]: "memory_ok ctx \<Longrightarrow> length buf = PPP_RX_BUFFER_SIZE \<Longrightarrow> memory_ok (ctx\<lparr>ip_buf := buf\<rparr>)"
  by (simp add: memory_ok_def)

subsection \<open>Transmitting and reconnecting\<close>

lemma offline_step: "\<not> AHDLC_TX_OFFLINE < (x :: u8) \<Longrightarrow> x + 1 \<le> AHDLC_TX_OFFLINE + 1"
  by (simp add: AHDLC_TX_OFFLINE_def word_le_nat_alt word_less_nat_alt unat_word_ariths)

lemma started_keeps [simp]: "memory_ok ctx \<Longrightarrow> memory_ok (ppp_connect (ppp_init ctx))"
  by (simp add: memory_ok_def ppp_connect_def ppp_init_def lcp_init_def ipcp_init_def ahdlc_init_def ahdlc_rx_ready_def)

lemma tx_keeps_with:
  assumes "\<And>c c'. rc c = Some c' \<Longrightarrow> memory_ok c \<Longrightarrow> memory_ok c'" "ahdlc_tx rc ctx p h b = Some ctx'" "memory_ok ctx"
  shows "memory_ok ctx'"
proof (cases "AHDLC_TX_OFFLINE < ahdlc_tx_offline ctx")
  case True
  then have "rc (ctx\<lparr>ahdlc_tx_offline := 0\<rparr>) = Some ctx'"
    using assms(2) by (simp add: ahdlc_tx_def Let_def)
  then show ?thesis
    by (rule assms(1)) (simp add: assms(3))
next
  case False
  then have "ctx' = ahdlc_tx_frame (ctx\<lparr>ahdlc_tx_offline := ahdlc_tx_offline ctx + 1\<rparr>) p h b"
    using assms(2) by (simp add: ahdlc_tx_def Let_def)
  then show ?thesis
    using assms(3) offline_step [OF False] by (simp add: ahdlc_tx_frame_bytes memory_ok_def emit_def)
qed

lemma reconnect_keeps_with:
  assumes "\<And>c p h b c'. tx c p h b = Some c' \<Longrightarrow> memory_ok c \<Longrightarrow> memory_ok c'" "ppp_reconnect_with tx ctx = Some ctx'" "memory_ok ctx"
  shows "memory_ok ctx'"
  using assms(2,3) by (auto simp: ppp_reconnect_with_def lcp_disconnect_with_def Let_def
      split: Option.bind_splits list.splits option.splits if_splits dest!: assms(1))

lemma silent_keeps: "reconnect_silent ctx = Some ctx' \<Longrightarrow> memory_ok ctx \<Longrightarrow> memory_ok ctx'"
  unfolding reconnect_silent_def
  by (rule reconnect_keeps_with [where tx = "ahdlc_tx (\<lambda>_. None)"]) (auto elim: tx_keeps_with [rotated])

lemma tx_keeps [keeps]: "ppp_tx ctx p h b = Some ctx' \<Longrightarrow> memory_ok ctx \<Longrightarrow> memory_ok ctx'"
  unfolding ppp_tx_def by (rule tx_keeps_with [OF silent_keeps])

lemma reconnect_keeps [keeps]: "ppp_reconnect ctx = Some ctx' \<Longrightarrow> memory_ok ctx \<Longrightarrow> memory_ok ctx'"
  unfolding ppp_reconnect_def by (rule reconnect_keeps_with [OF tx_keeps])

subsection \<open>Packets\<close>

lemma copy_keeps [keeps]: "copy_bytes k i t ctx = Some ctx' \<Longrightarrow> memory_ok ctx \<Longrightarrow> memory_ok ctx'"
  by (induction k arbitrary: i t ctx) (auto split: Option.bind_splits, blast intro: write_keeps)

lemma scan_keeps_snd:
  "scan_loop codes stop i t bad ctx = Some res \<Longrightarrow> memory_ok ctx \<longrightarrow> memory_ok (snd (snd res))"
  by (erule scan_loop.raw_induct [rotated, where P = "\<lambda>codes stop i t bad ctx res. memory_ok ctx \<longrightarrow> memory_ok (snd (snd res))"])
    (auto split: if_splits Option.bind_splits, (metis write_keeps copy_keeps)+)

lemma scan_keeps [keeps]: "scan_loop codes stop i t bad ctx = Some (b, t', ctx') \<Longrightarrow> memory_ok ctx \<Longrightarrow> memory_ok ctx'"
  by (drule scan_keeps_snd) simp_all

lemma scan_packet_keeps [keeps]: "scan_packet ctx p codes buf opts len = Some (b, ctx') \<Longrightarrow> memory_ok ctx \<Longrightarrow> memory_ok ctx'"
  by (auto simp: scan_packet_def split: Option.bind_splits if_splits) (elim keeps, assumption)+

lemma lcp_options_keeps_snd:
  "lcp_options stop i t err ctx = Some res \<Longrightarrow> memory_ok ctx \<Longrightarrow> memory_ok (snd (snd res))"
proof (induction "stop - i" arbitrary: i t err ctx rule: less_induct)
  case less
  show ?case
  proof (cases "i < stop")
    case False
    with less.prems show ?thesis
      by (auto simp: lcp_options.simps [of stop i])
  next
    case True
    have rest: "memory_ok (snd (snd res))"
      if "lcp_options stop j t' err' ctx' = Some res" "i < j" "memory_ok ctx'" for j t' err' ctx'
      using less.hyps [of j t' err' ctx'] that True by simp
    show ?thesis
      using less.prems unfolding lcp_options.simps [of stop i t err ctx]
      by (auto simp: True Let_def bind_eq_Some_conv split: if_split_asm elim!: rest) (elim write_keeps, assumption)+
  qed
qed

lemma lcp_options_keeps [keeps]: "lcp_options stop i t err ctx = Some (b, t', ctx') \<Longrightarrow> memory_ok ctx \<Longrightarrow> memory_ok ctx'"
  by (drule lcp_options_keeps_snd) simp_all

lemma ipcp_nak_keeps [keeps]: "ipcp_nak_options stop i ctx = Some ctx' \<Longrightarrow> memory_ok ctx \<Longrightarrow> memory_ok ctx'"
proof (induction "stop - i" arbitrary: i ctx rule: less_induct)
  case less
  then show ?case
    unfolding ipcp_nak_options.simps [of stop i ctx]
    by (auto simp: bind_eq_Some_conv address_length split: if_split_asm elim!: less.hyps [rotated])
qed

lemma ipcp_rej_keeps [keeps]: "ipcp_rej_options stop i ctx = Some ctx' \<Longrightarrow> memory_ok ctx \<Longrightarrow> memory_ok ctx'"
proof (induction "stop - i" arbitrary: i ctx rule: less_induct)
  case less
  then show ?case
    unfolding ipcp_rej_options.simps [of stop i ctx]
    by (auto simp: bind_eq_Some_conv split: if_split_asm elim!: less.hyps [rotated])
qed

lemma ipcp_init_keeps [simp]: "memory_ok ctx \<Longrightarrow> memory_ok (ipcp_init ctx)"
  by (simp add: ipcp_init_def memory_ok_def)

lemma lcp_conf_req_keeps [keeps]: "lcp_conf_req ctx buf n = Some ctx' \<Longrightarrow> memory_ok ctx \<Longrightarrow> memory_ok ctx'"
  by (auto simp: lcp_conf_req_def Let_def bind_eq_Some_conv split: if_split_asm) ((erule keeps | simp)+)

lemma ipcp_conf_req_keeps [keeps]: "ipcp_conf_req ctx buf n = Some ctx' \<Longrightarrow> memory_ok ctx \<Longrightarrow> memory_ok ctx'"
  by (auto simp: ipcp_conf_req_def Let_def bind_eq_Some_conv split: if_split_asm) ((erule keeps | simp)+)

lemma lcp_rx_keeps [keeps]: "lcp_rx ctx buf n = Some ctx' \<Longrightarrow> memory_ok ctx \<Longrightarrow> memory_ok ctx'"
  by (auto simp: lcp_rx_def Let_def bind_eq_Some_conv split: if_split_asm) ((erule keeps | simp)+)

lemma ipcp_rx_keeps [keeps]: "ipcp_rx ctx buf n = Some ctx' \<Longrightarrow> memory_ok ctx \<Longrightarrow> memory_ok ctx'"
  by (auto simp: ipcp_rx_def Let_def bind_eq_Some_conv split: if_split_asm) ((erule keeps | simp)+)

lemma move_up_keeps [keeps]: "move_up k d i ctx = Some ctx' \<Longrightarrow> memory_ok ctx \<Longrightarrow> memory_ok ctx'"
  by (induction k arbitrary: d i ctx) (auto simp: bind_eq_Some_conv, blast intro: write_keeps)

lemma reject_keeps [keeps]: "ppp_reject_protocol ctx p buf n = Some ctx' \<Longrightarrow> memory_ok ctx \<Longrightarrow> memory_ok ctx'"
  by (auto simp: ppp_reject_protocol_def Let_def bind_eq_Some_conv split: if_split_asm) ((erule keeps | simp)+)

lemma slice_length: "rx_slice ctx off n = Some data \<Longrightarrow> memory_ok ctx \<Longrightarrow> length data \<le> PPP_RX_BUFFER_SIZE"
  by (auto simp: rx_slice_def memory_ok_def split: if_splits)

lemma upcall_keeps [keeps]: "ppp_upcall ctx p buf n = Some ctx' \<Longrightarrow> memory_ok ctx \<Longrightarrow> memory_ok ctx'"
  by (auto simp: ppp_upcall_def bind_eq_Some_conv memory_ok_ip_buf split: if_split_asm dest: keeps slice_length)

end
