(* ===== verification/PppReceiver.thy ===== *)
theory PppReceiver
  imports PppInvariant
begin

unbundle bit_operations_syntax

section \<open>The bounds of the receiver and the invariant of the daemon\<close>

text \<open>
  What the receiver does with any character, and what holds of the context in every round of the main
  loop.
\<close>

subsection \<open>The receiver\<close>

definition receiver_ok :: "ppp_context \<Rightarrow> bool" where
  "receiver_ok ctx \<longleftrightarrow> memory_ok ctx \<and> unat (ahdlc_rx_count ctx) \<le> PPP_RX_BUFFER_SIZE"

lemma receiver_memory [simp]: "receiver_ok ctx \<Longrightarrow> memory_ok ctx"
  by (simp add: receiver_ok_def)

lemma ready_receiver [simp]: "memory_ok ctx \<Longrightarrow> receiver_ok (ahdlc_rx_ready ctx)"
  by (simp add: receiver_ok_def ahdlc_rx_ready_def)

lemma receiver_flags [simp]: "receiver_ok (ctx\<lparr>ahdlc_flags := f\<rparr>) = receiver_ok ctx"
  by (simp add: receiver_ok_def)

lemma store_receiver:
  assumes "receiver_ok ctx"
  shows "\<exists>ctx'. ahdlc_rx_store ctx c = Some ctx' \<and> receiver_ok ctx'"
proof (cases "unat (ahdlc_rx_count ctx) < PPP_RX_BUFFER_SIZE")
  case True
  then have "unat (ahdlc_rx_count ctx + 1) \<le> PPP_RX_BUFFER_SIZE"
    by (simp add: PPP_RX_BUFFER_SIZE_def unat_word_ariths)
  with assms True show ?thesis
    by (auto simp: ahdlc_rx_store_def Let_def rx_write_def receiver_ok_def memory_ok_def)
next
  case False
  with assms show ?thesis
    by (simp add: ahdlc_rx_store_def)
qed

text \<open>At the end of a frame the receiver reads the protocol, which is there, and the rest is the upcall's.\<close>

lemma end_receiver:
  assumes "receiver_ok ctx"
  shows "case ahdlc_rx_end ppp_upcall ctx of
      Some ctx' \<Rightarrow> receiver_ok ctx'
    | None \<Rightarrow> ahdlc_rx_crc ctx = CRC_GOOD_VALUE \<and> (\<exists>ctx' p i n. memory_ok ctx' \<and> ppp_upcall ctx' p i n = None)"
proof (cases "ahdlc_rx_crc ctx = CRC_GOOD_VALUE")
  case True
  let ?c = "ctx\<lparr>ppp_rx_frame_count := ppp_rx_frame_count ctx + 1, ahdlc_rx_count := ahdlc_rx_count ctx - 2,
    ahdlc_flags := ahdlc_flags ctx AND NOT PPP_RX_READY\<rparr>"
  have c: "memory_ok ?c"
    using assms by simp
  then have "rx_read ?c 0 \<noteq> None" "rx_read ?c 1 \<noteq> None"
    by (simp_all add: rx_read_def memory_ok_def PPP_RX_BUFFER_SIZE_def)
  then obtain b0 b1 where read: "rx_read ?c 0 = Some b0" "rx_read ?c 1 = Some b1"
    by auto
  obtain p i n where up: "ahdlc_rx_end ppp_upcall ctx =
      map_option (\<lambda>c. ahdlc_rx_ready (c\<lparr>ahdlc_tx_offline := 0\<rparr>)) (ppp_upcall ?c p i n)"
  proof (cases "b0 AND 1 \<noteq> 0 \<and> ahdlc_flags ?c AND PPP_PFC \<noteq> 0")
    case True
    with \<open>ahdlc_rx_crc ctx = CRC_GOOD_VALUE\<close> read show ?thesis
      by (intro that [of "ucast b0" 1 "ahdlc_rx_count ?c - 1"]) (simp add: ahdlc_rx_end_def Let_def map_conv_bind_option comp_def)
  next
    case False
    with \<open>ahdlc_rx_crc ctx = CRC_GOOD_VALUE\<close> read show ?thesis
      by (intro that [of "push_bit 8 (ucast b0) OR ucast b1" 2 "ahdlc_rx_count ?c - 2"])
        (auto simp: ahdlc_rx_end_def Let_def map_conv_bind_option comp_def)
  qed
  show ?thesis
  proof (cases "ppp_upcall ?c p i n")
    case None
    with up have "ahdlc_rx_end ppp_upcall ctx = None"
      by simp
    with True show ?thesis
      using c None by (simp only: option.case) blast
  next
    case (Some c')
    then have "memory_ok c'"
      by (rule upcall_keeps) (rule c)
    with Some up show ?thesis
      by simp
  qed
next
  case False
  with assms show ?thesis
    by (simp add: ahdlc_rx_end_def)
qed

lemma rx_receiver:
  assumes "receiver_ok ctx" "ahdlc_rx ppp_upcall ctx c = Some (r, ctx')"
  shows "receiver_ok ctx'"
  using assms(2) end_receiver [OF assms(1)] store_receiver [of "ctx\<lparr>ahdlc_flags := ahdlc_flags ctx AND NOT PPP_ESCAPED\<rparr>" "c XOR 0x20"]
    store_receiver [OF assms(1), of c] assms(1)
  by (auto simp: ahdlc_rx_def Let_def split: if_split_asm option.splits)

lemma loop_receiver: "receive_loop ppp_upcall cs ctx = Some (left, ctx') \<Longrightarrow> receiver_ok ctx \<Longrightarrow> receiver_ok ctx'"
proof (induction cs arbitrary: ctx)
  case (Cons c cs)
  then show ?case
    by (auto simp: bind_eq_Some_conv split: if_split_asm dest: rx_receiver)
qed simp

subsection \<open>Transmitting and reconnecting\<close>

lemma receiver_updates [simp]:
  "receiver_ok (ctx\<lparr>lcp_prev_seconds := x\<rparr>) = receiver_ok ctx" "receiver_ok (ctx\<lparr>ipcp_prev_seconds := x\<rparr>) = receiver_ok ctx"
  "receiver_ok (ctx\<lparr>lcp_retry := n\<rparr>) = receiver_ok ctx" "receiver_ok (ctx\<lparr>ipcp_retry := n\<rparr>) = receiver_ok ctx"
  "receiver_ok (ctx\<lparr>lcp_state := n\<rparr>) = receiver_ok ctx" "receiver_ok (ctx\<lparr>ipcp_state := n\<rparr>) = receiver_ok ctx"
  "receiver_ok (ctx\<lparr>ip_len := k\<rparr>) = receiver_ok ctx" "receiver_ok (ctx\<lparr>ip_no_data_time := k\<rparr>) = receiver_ok ctx"
  "receiver_ok (emit es ctx) = receiver_ok ctx"
  by (simp_all add: receiver_ok_def) (simp add: emit_def)

lemma receiver_buffer: "receiver_ok ctx \<Longrightarrow> length buf = PPP_RX_BUFFER_SIZE \<Longrightarrow> receiver_ok (ctx\<lparr>ip_buf := buf\<rparr>)"
  by (simp add: receiver_ok_def)

lemma started_count [simp]: "ahdlc_rx_count (ppp_connect (ppp_init ctx)) = 0"
  by (simp add: ppp_connect_def ppp_init_def lcp_init_def ipcp_init_def ahdlc_init_def ahdlc_rx_ready_def)

lemma reconnect_receiver: "ppp_reconnect ctx = Some ctx' \<Longrightarrow> memory_ok ctx \<Longrightarrow> receiver_ok ctx' \<and> ip_len ctx' = 0"
  by (frule reconnect_started) (auto simp: receiver_ok_def dest!: reconnect_keeps)

lemma silent_receiver: "reconnect_silent ctx = Some ctx' \<Longrightarrow> memory_ok ctx \<Longrightarrow> receiver_ok ctx'"
  by (frule silent_keeps, assumption)
    (auto simp: reconnect_silent_def ppp_reconnect_with_def receiver_ok_def Let_def bind_eq_Some_conv)

lemma tx_receiver:
  assumes "ppp_tx ctx p h b = Some ctx'" "receiver_ok ctx"
  shows "receiver_ok ctx'"
proof (cases "AHDLC_TX_OFFLINE < ahdlc_tx_offline ctx")
  case True
  with assms show ?thesis
    by (auto simp: ppp_tx_def ahdlc_tx_def Let_def intro: silent_receiver)
next
  case False
  with assms have "ahdlc_rx_count ctx' = ahdlc_rx_count ctx"
    by (auto simp: ppp_tx_def ahdlc_tx_def Let_def ahdlc_tx_frame_bytes emit_def)
  with assms tx_keeps [OF assms(1)] show ?thesis
    by (simp add: receiver_ok_def)
qed

subsection \<open>The tasks\<close>

lemma request_length [simp]: "length (request_packet code ident opts) = length opts + 4"
  by (simp add: request_packet_def)

lemma short_request: "10 \<le> PPP_RX_BUFFER_SIZE"
  by (simp add: PPP_RX_BUFFER_SIZE_def)

lemma receiver_lengths: "receiver_ok ctx \<Longrightarrow> length (local_ip ctx) = 4" "receiver_ok ctx \<Longrightarrow> length (ip_buf ctx) = PPP_RX_BUFFER_SIZE"
  by (simp_all add: receiver_ok_def memory_ok_def)

lemma lcp_task_receiver:
  assumes "lcp_task ctx now now' = Some ctx'" "receiver_ok ctx"
  shows "receiver_ok ctx'"
proof (cases "lcp_state ctx AND LCP_TX_UP = 0 \<and> lcp_state ctx AND LCP_TX_TIMEOUT = 0 \<and> now - lcp_prev_seconds ctx > LCP_TIMEOUT")
  case True
  let ?pkt = "request_packet CONF_REQ (ppp_id ctx) [LPC_ACCM, 6, 0xff, 0xff, 0xff, 0xff]"
  let ?c = "ctx\<lparr>lcp_prev_seconds := now', ip_buf := write_bytes (ip_buf ctx) 0 ?pkt\<rparr>"
  have "receiver_ok ?c"
    using assms(2) short_request by (intro receiver_buffer) (simp_all add: receiver_lengths)
  moreover from assms(1) obtain y where "ppp_tx ?c LCP [] ?pkt = Some y"
    and "ctx' = (let c = y\<lparr>lcp_retry := lcp_retry y + 1\<rparr>
      in if lcp_retry c > LCP_RETRY_COUNT then c\<lparr>lcp_state := lcp_state c OR LCP_TX_TIMEOUT\<rparr> else c)"
    unfolding lcp_task_def Let_def if_P [OF True] bind_eq_Some_conv option.inject by metis
  ultimately show ?thesis
    using tx_receiver by (simp add: Let_def)
next
  case False
  with assms show ?thesis
    by (auto simp: lcp_task_def)
qed

lemma ipcp_task_receiver:
  assumes "ipcp_task ctx now now' = Some ctx'" "receiver_ok ctx"
  shows "receiver_ok ctx'"
proof (cases "ipcp_state ctx AND IPCP_TX_UP = 0 \<and> ipcp_state ctx AND IPCP_TX_TIMEOUT = 0 \<and> now - ipcp_prev_seconds ctx > IPCP_TIMEOUT")
  case True
  let ?pkt = "request_packet CONF_REQ (ppp_id ctx) ([IPCP_IPADDRESS, 6] @ local_ip ctx)"
  let ?c = "ctx\<lparr>ipcp_prev_seconds := now', ip_buf := write_bytes (ip_buf ctx) 0 ?pkt\<rparr>"
  have "receiver_ok ?c"
    using assms(2) short_request by (intro receiver_buffer) (simp_all add: receiver_lengths)
  moreover from assms(1) obtain y where "ppp_tx ?c IPCP [] ?pkt = Some y"
    and "ctx' = (let c = y\<lparr>ipcp_retry := ipcp_retry y + 1\<rparr>
      in if ipcp_retry c > IPCP_RETRY_COUNT then c\<lparr>ipcp_state := ipcp_state c OR IPCP_TX_TIMEOUT\<rparr> else c)"
    unfolding ipcp_task_def Let_def if_P [OF True] bind_eq_Some_conv option.inject by metis
  ultimately show ?thesis
    using tx_receiver by (simp add: Let_def)
next
  case False
  with assms show ?thesis
    by (auto simp: ipcp_task_def)
qed

lemma echo_receiver: "lcp_echo_request ctx now now' = Some ctx' \<Longrightarrow> receiver_ok ctx \<Longrightarrow> receiver_ok ctx'"
  by (auto simp: lcp_echo_request_def split: if_split_asm) (erule tx_receiver, simp)

lemma send_receiver: "ppp_send ctx = Some ctx' \<Longrightarrow> receiver_ok ctx \<Longrightarrow> receiver_ok ctx'"
  by (auto simp: ppp_send_def split: if_split_asm) (erule tx_receiver, assumption)

lemma negotiate_receiver: "ppp_negotiate inp ctx = Some ctx' \<Longrightarrow> receiver_ok ctx \<Longrightarrow> receiver_ok ctx'"
  by (auto simp: ppp_negotiate_def bind_eq_Some_conv split: if_split_asm
      dest: echo_receiver lcp_task_receiver ipcp_task_receiver)

subsection \<open>The main loop\<close>

lemma poll_receiver:
  assumes "ppp_poll inp ctx = Some (left, ctx')" "receiver_ok ctx"
  shows "receiver_ok ctx'"
proof -
  let ?c = "ctx\<lparr>ip_len := 0, ip_no_data_time := ip_no_data_time ctx + 1\<rparr>"
  have "receiver_ok ?c"
    using assms(2) by simp
  with assms(1) show ?thesis
    unfolding ppp_poll_def Let_def
    by (auto simp: bind_eq_Some_conv split: if_split_asm dest: reconnect_receiver loop_receiver negotiate_receiver)
qed

lemma forward_receiver:
  assumes "tun_forward result ctx = Some ctx'" "receiver_ok ctx"
  shows "receiver_ok ctx' \<and> (ip_len ctx = 0 \<longrightarrow> ip_len ctx' = 0)"
proof -
  have "receiver_ok (ctx\<lparr>ip_buf := write_bytes (ip_buf ctx) 0 (take PPP_RX_BUFFER_SIZE bs), ip_len := n\<rparr>)" for bs n
    using assms(2) by (simp add: receiver_buffer receiver_lengths)
  with assms show ?thesis
    by (auto simp: tun_forward_def Let_def bind_eq_Some_conv split: option.splits if_split_asm dest: send_receiver)
qed

lemma step_receiver:
  assumes "pppd_step inp ctx = Some (left, ctx')" "receiver_ok ctx"
  shows "receiver_ok ctx' \<and> ip_len ctx' = 0"
proof -
  from assms(1) obtain c1 c2 where
    c1: "(if ri_poll inp > 0 \<and> ri_tun_readable inp then tun_forward (ri_tun_read inp) ctx else Some ctx) = Some c1"
    and c2: "ppp_poll (poll_input.truncate inp) c1 = Some (left, c2)"
    and rest: "(if ppp_check_errors c2 \<noteq> 0 then map_option (Pair left) (ppp_reconnect c2)
      else if ip_len c2 > 0 then
        (if unat (ip_len c2) \<le> length (ip_buf c2)
         then map_option (Pair left) (tun_forward (ri_tun_read' inp)
           ((emit [TunWrite (take (unat (ip_len c2)) (ip_buf c2))] c2)\<lparr>ip_len := 0\<rparr>))
         else None)
      else Some (left, c2)) = Some (left, ctx')"
    unfolding pppd_step_def Let_def by (auto simp: bind_eq_Some_conv split: if_split_asm)
  have "receiver_ok c1"
    using c1 assms(2) by (auto split: if_split_asm dest: forward_receiver)
  then have "receiver_ok c2"
    using c2 by (rule poll_receiver [rotated])
  with rest show ?thesis
    by (auto simp: word_gt_0 split: if_split_asm dest: reconnect_receiver forward_receiver)
qed

lemma loop_keeps:
  "pppd_loop inps left ctx = Some (left', ctx') \<Longrightarrow> receiver_ok ctx \<Longrightarrow> ip_len ctx = 0 \<Longrightarrow> receiver_ok ctx' \<and> ip_len ctx' = 0"
proof (induction inps arbitrary: left ctx)
  case (Cons inp inps)
  from Cons.prems(1) obtain left1 ctx1 where
    "pppd_step (inp\<lparr>pl_chars := left @ pl_chars inp\<rparr>) ctx = Some (left1, ctx1)" "pppd_loop inps left1 ctx1 = Some (left', ctx')"
    by (auto simp: bind_eq_Some_conv)
  with Cons.IH step_receiver Cons.prems(2) show ?case
    by blast
qed simp

section \<open>Properties\<close>



text \<open>C19: The invariant of the main loop. After any rounds, with any characters from the line and any packets from
  the tunnel, the buffers have their size, the receiver's count is within its buffer, the counter of frames
  without an answer is at most one above its limit, and no packet is left over.\<close>

theorem pppd_loop_invariant:
  assumes "pppd_start env = Some (Inr st, tr)" "pppd_loop inps [] (pd_ctx st) = Some (left, ctx)"
  shows "length (ahdlc_rx_buffer ctx) = PPP_RX_BUFFER_SIZE \<and> length (ip_buf ctx) = PPP_RX_BUFFER_SIZE \<and>
    unat (ahdlc_rx_count ctx) \<le> PPP_RX_BUFFER_SIZE \<and> ahdlc_tx_offline ctx \<le> AHDLC_TX_OFFLINE + 1 \<and> ip_len ctx = 0"
proof -
  let ?z = "ppp_init (zeroed_context (pe_connect env) (pe_disconnect env) (pe_chat env))"
  have "memory_ok ?z"
    by (simp add: memory_ok_def zeroed_context_def ppp_init_def lcp_init_def ipcp_init_def ahdlc_init_def ahdlc_rx_ready_def)
  moreover have "ppp_reconnect ?z = Some (pd_ctx st)"
    using assms(1) by (auto simp: pppd_start_def bind_eq_Some_conv split: option.splits prod.splits if_split_asm)
  ultimately have "receiver_ok (pd_ctx st)" "ip_len (pd_ctx st) = 0"
    using reconnect_receiver by blast+
  from loop_keeps [OF assms(2) this] show ?thesis
    by (simp add: receiver_ok_def memory_ok_def)
qed

text \<open>A system in which everything can be opened.\<close>

definition good_modem :: pppd_env where
  "good_modem = no_modem\<lparr>pe_tty := \<lparr>or_open = 4, or_getfl = 0, or_setfl = 0\<rparr>, pe_connect := False\<rparr>"

theorem pppd_loop_invariant_witness:
  "\<exists>st tr left ctx. pppd_start good_modem = Some (Inr st, tr) \<and> pppd_loop [line_round 100 []] [] (pd_ctx st) = Some (left, ctx) \<and>
    ip_len ctx = 0"
proof -
  let ?z = "ppp_init (zeroed_context False False [])"
  have z: "length (ahdlc_rx_buffer ?z) = PPP_RX_BUFFER_SIZE" "length (ip_buf ?z) = PPP_RX_BUFFER_SIZE" "lcp_prev_seconds ?z = 0"
    "ahdlc_tx_offline ?z = 0" "\<not> has_connect_script ?z" "\<not> has_disconnect_script ?z"
    by (simp_all add: zeroed_context_def ppp_init_def lcp_init_def ipcp_init_def ahdlc_init_def ahdlc_rx_ready_def)
  from reconnect_sends [OF z(4-6)] obtain a where a: "ppp_reconnect ?z = Some a"
    by blast
  let ?st = "\<lparr>pd_if_fd = 3, pd_ctl_fd = 4, pd_ifname = ''ppp0'', pd_ctx = a\<rparr>"
  have start: "pppd_start good_modem = Some (Inr ?st, [OsAlloc 0, OsOpen 3, OsOpen 4])"
    using a by (simp add: pppd_start_def good_modem_def no_modem_def tun_alloc_def open_tty_def make_nonblock_def)
  from reconnect_fresh [OF a z(1,2)] z(3) have fresh: "link_quiet a" "link_view a = (0, 0, 0, 0, 0, 0, 0, 0, [0, 0, 0, 0])"
    by (auto simp: link_fresh_def link_view_def)
  from poll_first [OF fresh, of 100] obtain b where b: "ppp_poll (line_input 100 []) a = Some ([], b)" "link_ready b"
    "link_view b = (0, 1, 100, 0, 0, 0, 0, 1, [0, 0, 0, 0])"
    by (auto simp: LCP_TIMEOUT_def)
  have "pppd_step ((line_round 100 [])\<lparr>pl_chars := []\<rparr>) a = Some ([], b)"
    using b by (simp add: pppd_step_def link_view_def ppp_check_errors_def link_ready_def line_round_def line_input_def
        poll_input.defs round_input.defs)
  moreover have "(line_round 100 [])\<lparr>pl_chars := [] @ pl_chars (line_round 100 [])\<rparr> = (line_round 100 [])\<lparr>pl_chars := []\<rparr>"
    by (simp add: line_round_def line_input_def poll_input.defs)
  ultimately have loop: "pppd_loop [line_round 100 []] [] (pd_ctx ?st) = Some ([], b)"
    by simp
  from pppd_loop_invariant [OF start loop] have "ip_len b = 0"
    by blast
  with start loop show ?thesis
    by (intro exI conjI)
qed

end
