(* ===== verification/Spec2Isabelle.thy ===== *)
theory Spec2Isabelle
  imports MjpegProtocol FrameQueue UsbTransport CameraManager EncoderManager PerfLogger ThreadProperties CameraApp
    Base64 UrlCodec Md5 CameraSample PppReceiver
begin

text \<open>
  Verification of the security camera application for Sony Spresense (NuttX),
  \<open>src/apps/examples/security_camera\<close>, and of three parts of the tree it is built in: the codecs of
  NuttX, \<open>src/apps/netutils/codecs\<close>, its PPP daemon, \<open>src/apps/netutils/pppd\<close>, and the camera command of
  the SDK, \<open>src/apps/examples/camera\<close>.

  The program.  The application captures JPEG frames from a V4L2 camera, packs each into an MJPEG packet
  with a sequence number and a CRC, and sends it over USB CDC.  In threaded mode, the default, a camera
  thread fills packet buffers and a USB thread sends them; three buffers circulate between an empty queue
  and an action queue under one mutex and one condition variable, and \<open>main\<close> monitors, requests the
  shutdown, joins the threads and frees the pool.  When the threads cannot be started \<open>main\<close> captures,
  packs and sends in a sequential loop and records performance metrics.  An earlier protocol for H.264
  units and an encoder manager are part of the program but not called by \<open>main\<close>.

  Theories and code:

  \<^item> \<open>Prelude\<close>: fixed-width types, little-endian encoding, writes into buffers; the locales \<open>framing\<close>
    (encoder and stream parser) and \<open>simulation\<close> (implementation and specification steps).
  \<^item> \<open>Config\<close>: the constants of \<open>config.h\<close> with the default configuration, and error codes.
  \<^item> \<open>Os\<close>: traces of the operating-system calls whose order or balance matters (descriptors, blocks,
    driver buffers, writes), with the locales \<open>resource\<close> and \<open>balanced_crossed\<close>.
  \<^item> \<open>MjpegProtocol\<close>: \<open>mjpeg_protocol.c\<close>.  A JPEG is a byte list, a packet buffer a byte list that the
    stores overwrite in place.  The CRC is proved equal to a shift register on the message bits and to
    reject every error burst of up to 16 bits; a stream of packed frames is decoded back.
  \<^item> \<open>FrameQueue\<close>: \<open>frame_queue.c\<close> over an explicit heap of \<open>frame_buffer_t\<close> structures and data blocks;
    \<open>is_queue\<close> relates a linked list to the list of its members.  The locale \<open>shared_fifo\<close> is what the
    threads rely on.
  \<^item> \<open>ProtocolHandler\<close>: \<open>protocol_handler.c\<close>, the fragmentation of NAL units and the handshake.
  \<^item> \<open>UsbTransport\<close>: \<open>usb_transport.c\<close>; the answers of \<open>open\<close> and \<open>write\<close> are arguments, bounded by
    \<open>write_contract\<close> (\<open>write\<close> accepts at most what it is given).  Locale \<open>byte_sink\<close>.
  \<^item> \<open>CameraManager\<close>, \<open>EncoderManager\<close>: \<open>camera_manager.c\<close> and \<open>encoder_manager.c\<close>, every error path, with
    the driver's answers as arguments.
  \<^item> \<open>PerfLogger\<close>: \<open>perf_logger.c\<close>, the statistics windows.
  \<^item> \<open>PipelineSpec\<close>: the specification of the two threads, on lists instead of linked queues, with the
    histories of packed and sent packets; its invariant \<open>pipe_inv\<close> states ownership, waiting, control
    and data.
  \<^item> \<open>CameraThreads\<close>: \<open>camera_threads.c\<close> and the monitor loop and signal handler of
    \<open>camera_app_main.c\<close>.  One record \<open>sys\<close> holds the shared state and the local variables of each
    thread; a step of a thread is one critical section or one call outside it, and \<open>sys_step\<close> lets any
    thread move, a signal arrive or a wait end spuriously.
  \<^item> \<open>ThreadRefinement\<close>: each step of \<open>CameraThreads\<close> simulates a step of \<open>PipelineSpec\<close>.
  \<^item> \<open>ThreadInvariants\<close>, \<open>ThreadProperties\<close>: start-up, reachable states, termination measures, and the
    properties of the threaded application.
  \<^item> \<open>CameraApp\<close>: \<open>main\<close> of \<open>camera_app_main.c\<close> from start-up to clean-up, and the sequential loop.
  \<^item> \<open>Base64\<close>, \<open>UrlCodec\<close>, \<open>Md5\<close>: \<open>base64.c\<close>, \<open>urldecode.c\<close>, \<open>md5.c\<close>.  The locale \<open>char_code\<close> is the
    contract of the three URL codes, \<open>absorber\<close> that of a streaming hash; MD5 is compared with RFC 1321.
  \<^item> \<open>CameraSample\<close>: \<open>camera_main.c\<close> and \<open>camera_fileutil.c\<close> of the camera command.  One record holds the
    variables of \<open>main\<close> that its loop changes; an iteration of the loop is \<open>sample_step\<close>, and each
    iteration's driver, file and clock answers are one element of the input list.
  \<^item> \<open>PppContext\<close>, \<open>Ahdlc\<close>, \<open>Ppp\<close>, \<open>PppDaemon\<close>: the PPP daemon.  \<open>ppp.h\<close> and \<open>ppp_conf.h\<close> are
    \<open>PppContext\<close>, the framing of \<open>ahdlc.c\<close> is \<open>Ahdlc\<close>; LCP (\<open>lcp.c\<close>), IPCP (\<open>ipcp.c\<close>), dispatch and
    polling (\<open>ppp.c\<close>) and \<open>ppp_reconnect\<close> are \<open>Ppp\<close>; start and main loop (\<open>pppd.c\<close>) are \<open>PppDaemon\<close>.
    One record is the context, a pointer into its receive buffer an index, and the output a list of
    events.  \<open>PppLink\<close>: what each frame of the negotiation does; \<open>PppOptions\<close>: the scan of options;
    \<open>PppProperties\<close>: malformed frames and the link as a whole; \<open>PppInvariant\<close>, \<open>PppReceiver\<close>: what every
    operation keeps, the bounds of the receiver and the invariant of the main loop.

  What is shown.  For the threads: no step faults (no bad access, no use of a destroyed mutex), every buffer
  is in one place and well formed, no wake-up is lost, a requested shutdown ends, the packets sent are
  those packed, in order and without gaps in the numbering, and a receiver decodes them; errors are
  counted and give up at their limits.  For the PPP daemon: framing and the link from one tunnel to the
  other are transparent, two daemons bring the link up, a terminated link restarts, the receiver stays in
  its buffer, the main loop keeps its invariant, and there are malformed frames that the daemon does not
  survive.  For the components: the functional behaviour on every branch, round trips of the packet
  formats, release of everything acquired.  Where the code does not do what it
  means to, a lemma states what it does (for instance \<open>metrics_go_to_descriptor_0\<close>,
  \<open>metrics_interval_borrow\<close>, \<open>sequential_usb_errors_never_stop\<close>, \<open>camera_manager_init_streamon_leak\<close>,
  \<open>base64w_roundtrip\<close>).

  Conventions.  A negative return code is \<open>Inl\<close> or an \<open>int\<close>, as the caller uses it; undefined behaviour
  (a bad access, an operation on a destroyed mutex) is \<open>None\<close> or \<open>Fault\<close>, never a default value.  Counters
  keep their width.  Loops over lists, counted loops and the retry loops are structural recursions, so no
  fuel is needed; \<open>find_tail\<close> and the depth count, which follow pointers, are \<open>partial_function (option)\<close>
  and are proved to return on the queues the program builds; so is \<open>scan_loop\<close> of the PPP daemon, which
  returns on well-formed options and, as the code, not on an option of length 0; the runs of the threads
  are unbounded, and termination after a shutdown request is by a measure (\<open>pipe_rank\<close>).

  Assumptions.  Device and operating-system calls are arguments; the only facts used are that \<open>write\<close>
  accepts no more than offered, that a captured frame's memory holds the bytes the driver reports, that
  \<open>malloc\<close> and \<open>memalign\<close> return fresh memory, and the pthread semantics of mutexes, condition variables
  (with spurious wake-ups) and joins.  Each property with such a premise has a concrete instance.

  Not modelled: log output, sleeping, scheduling priorities and thread attributes; floating-point figures
  in log lines; the division by the number of captured frames in the final statistics, which is printed
  only; preemption inside a critical section, and the read of the action queue's depth by the metrics
  packet, which the code does without the mutex and the model as one step; device paths and log macros of
  \<open>config.h\<close>; \<open>usb_test.c\<close>, a manual test.  Outside the parts named above the repository is the
  vendored NuttX application tree (PAP in the PPP daemon, which is off by default, and the chat scripts,
  whose results are arguments; nshlib, system, the rest of netutils, fsutils, platform, include), the
  LCD output of the camera command (off by default), ASMP demonstrations and a floating-point orientation
  example; the application calls none of them.
\<close>

end
